(* ===== verification/Uav_Prelude.thy ===== *)
theory Uav_Prelude
  imports Main "HOL-Library.Word" "HOL-Library.AList" "HOL-Library.Multiset"
begin

text \<open>
  The vocabulary every component of the development shares: the widths of Go's integers, run-time
  panics as values, Go's slices, maps, instants and durations, and the generic lemmas the
  component proofs rest on.

  \<^item> A Go integer of \<open>w\<close> bits is a \<open>w word\<close>; lengths (\<open>len\<close>) are \<open>nat\<close>.
  \<^item> A run-time panic is \<open>Inl\<close> of a \<open>go_panic\<close>, a normal return is \<open>Inr\<close>.
  \<^item> A Go map that the code iterates over is an association list with distinct keys. Go's
    iteration order is unspecified; as every theorem holds for every list, it holds for every order.
  \<^item> An instant counts nanoseconds since 1 January of year 1 (so that Go's zero \<open>time.Time\<close>
    is 0), a duration counts nanoseconds and wraps at 64 bits where the code computes with it.
\<close>

section \<open>Types\<close>

type_synonym u8 = "8 word"
type_synonym u16 = "16 word"
type_synonym u32 = "32 word"
type_synonym u64 = "64 word"
type_synonym bytes = "u8 list"

datatype go_panic =
    IndexOutOfRange
  | SliceOutOfRange
  | NegativeMakeLen
  | InvalidRandArgument
  | NonPositiveTicker
  | CloseOfClosedChannel

type_synonym 'a go = "go_panic + 'a"

section \<open>Collections of lemmas\<close>

named_theorems gomap_simps \<open>lookups in updated Go maps\<close>
named_theorems effect_simps \<open>unfolding of handlers into their effects\<close>

section \<open>Slices\<close>

text \<open>Indexing and slicing panic where Go panics.\<close>

definition go_index :: "'a list \<Rightarrow> nat \<Rightarrow> 'a go" where
  "go_index xs i = (if i < length xs then Inr (xs ! i) else Inl IndexOutOfRange)"

definition go_slice_from :: "'a list \<Rightarrow> nat \<Rightarrow> 'a list go" where
  "go_slice_from xs i = (if i \<le> length xs then Inr (drop i xs) else Inl SliceOutOfRange)"

lemma go_index_ok [simp]: "i < length xs \<Longrightarrow> go_index xs i = Inr (xs ! i)"
  by (simp add: go_index_def)

lemma go_slice_from_ok [simp]: "i \<le> length xs \<Longrightarrow> go_slice_from xs i = Inr (drop i xs)"
  by (simp add: go_slice_from_def)

text \<open>\<open>copy(buf[off:], bs)\<close>: overwrites the bytes at \<open>off\<close>, never past the end of the buffer.\<close>

definition copy_at :: "'a list \<Rightarrow> nat \<Rightarrow> 'a list \<Rightarrow> 'a list" where
  "copy_at buf off bs =
     take off buf @ take (length buf - off) bs @ drop (off + length bs) buf"

lemma length_copy_at [simp]: "off \<le> length buf \<Longrightarrow> length (copy_at buf off bs) = length buf"
  by (simp add: copy_at_def)

text \<open>Filling a buffer from the left: what is written stays, what is not yet written stays blank.\<close>

lemma copy_at_append:
  assumes "length pre = off" and "length bs \<le> length blank"
  shows "copy_at (pre @ blank) off bs = (pre @ bs) @ drop (length bs) blank"
  using assms by (simp add: copy_at_def)

text \<open>The last \<open>n\<close> elements, in order: what a bounded buffer that drops its oldest element keeps.\<close>

definition newest :: "nat \<Rightarrow> 'a list \<Rightarrow> 'a list" where
  "newest n xs = drop (length xs - n) xs"

lemma length_newest [simp]: "length (newest n xs) = min n (length xs)"
  by (simp add: newest_def min_def)

lemma newest_all: "length xs \<le> n \<Longrightarrow> newest n xs = xs"
  by (simp add: newest_def)

lemma newest_snoc_full:
  "0 < n \<Longrightarrow> n \<le> length xs \<Longrightarrow> newest n (xs @ [x]) = tl (newest n xs) @ [x]"
  by (simp add: newest_def drop_Suc [symmetric] tl_drop Suc_diff_le)

section \<open>Maps\<close>

type_synonym ('k, 'v) gomap = "('k \<times> 'v) list"

abbreviation gm_ok :: "('k, 'v) gomap \<Rightarrow> bool" where
  "gm_ok m \<equiv> distinct (map fst m)"

abbreviation gm_lookup :: "('k, 'v) gomap \<Rightarrow> 'k \<Rightarrow> 'v option" where
  "gm_lookup m k \<equiv> map_of m k"

abbreviation gm_set :: "'k \<Rightarrow> 'v \<Rightarrow> ('k, 'v) gomap \<Rightarrow> ('k, 'v) gomap" where
  "gm_set k v m \<equiv> AList.update k v m"

abbreviation gm_delete :: "'k \<Rightarrow> ('k, 'v) gomap \<Rightarrow> ('k, 'v) gomap" where
  "gm_delete k m \<equiv> AList.delete k m"

text \<open>Reading a missing key of an integer map gives the zero value.\<close>

definition gm_get0 :: "('k, 'v::zero) gomap \<Rightarrow> 'k \<Rightarrow> 'v" where
  "gm_get0 m k = (case map_of m k of Some v \<Rightarrow> v | None \<Rightarrow> 0)"

lemma gm_lookup_set [gomap_simps, simp]:
  "gm_lookup (gm_set k v m) k' = (if k' = k then Some v else gm_lookup m k')"
  by (simp add: update_conv')

lemma gm_lookup_delete [gomap_simps, simp]:
  "gm_lookup (gm_delete k m) k' = (if k' = k then None else gm_lookup m k')"
  by (simp add: delete_conv')

lemma gm_ok_set [simp]: "gm_ok m \<Longrightarrow> gm_ok (gm_set k v m)"
  by (rule distinct_update)

lemma gm_ok_delete [simp]: "gm_ok m \<Longrightarrow> gm_ok (gm_delete k m)"
  by (rule distinct_delete)

lemma set_gm_set: "set (gm_set k v m) \<subseteq> insert (k, v) (set m)"
  by (induction m) auto

lemma gm_get0_set [gomap_simps, simp]:
  "gm_get0 (gm_set k v m) k' = (if k' = k then v else gm_get0 m k')"
  by (simp add: gm_get0_def)

lemma gm_ok_filter [simp]: "gm_ok m \<Longrightarrow> gm_ok (filter P m)"
  by (rule distinct_map_filter)

lemma foldl_gm_set: "distinct (map fst ps) \<Longrightarrow> set (map fst ps) \<inter> set (map fst m) = {} \<Longrightarrow>
    foldl (\<lambda>m (i, a). gm_set i a m) m ps = m @ ps"
proof (induction ps arbitrary: m)
  case (Cons p ps)
  obtain i a where p: "p = (i, a)" by fastforce
  have "gm_set i a m = m @ [(i, a)]" using Cons.prems(2) by (induction m) (auto simp: p)
  with Cons show ?case by (auto simp: p)
qed simp

lemma map_of_filter_ok:
  "gm_ok m \<Longrightarrow> map_of (filter P m) k =
     (case map_of m k of Some v \<Rightarrow> (if P (k, v) then Some v else None) | None \<Rightarrow> None)"
  by (induction m) (auto split: option.splits simp: rev_image_eqI dest: map_of_SomeD)

section \<open>Signed 64-bit arithmetic, instants and durations\<close>

definition i64 :: "int \<Rightarrow> int" where
  "i64 x = sint (word_of_int x :: u64)"

lemma i64_id: "- (2 ^ 63) \<le> x \<Longrightarrow> x < 2 ^ 63 \<Longrightarrow> i64 x = x"
  by (simp add: i64_def signed_of_int signed_take_bit_int_eq_self)

lemma i64_range: "- (2 ^ 63) \<le> i64 x" "i64 x < 2 ^ 63"
  using sint_ge [of "word_of_int x :: u64"] sint_lt [of "word_of_int x :: u64"]
  by (simp_all add: i64_def)

type_synonym go_time = int
type_synonym duration = int

abbreviation Millisecond :: duration where "Millisecond \<equiv> 1000000"
abbreviation Second :: duration where "Second \<equiv> 1000000000"

text \<open>1 January 1970 on the scale of instants (\<open>unixToInternal\<close> seconds).\<close>

definition unix_epoch :: go_time where
  "unix_epoch = 62135596800 * Second"

definition UnixMilli :: "go_time \<Rightarrow> u64" where
  "UnixMilli t = word_of_int ((t - unix_epoch) div Millisecond)"

definition UnixNano :: "go_time \<Rightarrow> u64" where
  "UnixNano t = word_of_int (t - unix_epoch)"

text \<open>\<open>Time.Sub\<close> saturates.\<close>

definition time_Sub :: "go_time \<Rightarrow> go_time \<Rightarrow> duration" where
  "time_Sub t u = max (- (2 ^ 63)) (min (2 ^ 63 - 1) (t - u))"

text \<open>Go's integer division truncates towards zero.\<close>

definition go_quot :: "int \<Rightarrow> int \<Rightarrow> int" where
  "go_quot a b = sgn a * sgn b * (\<bar>a\<bar> div \<bar>b\<bar>)"

section \<open>Pseudo-random numbers\<close>

text \<open>
  A generator is the sequence of raw numbers it will produce. \<open>Int63n\<close> consumes one and reduces
  it below its bound; as the sequence is arbitrary, every result below the bound is possible.
\<close>

type_synonym rng = "nat \<Rightarrow> nat"

definition rng_tail :: "rng \<Rightarrow> rng" where
  "rng_tail r = (\<lambda>i. r (Suc i))"

definition Int63n :: "rng \<Rightarrow> int \<Rightarrow> (int \<times> rng) go" where
  "Int63n r n = (if n \<le> 0 then Inl InvalidRandArgument
                 else Inr (int (r 0) mod n, rng_tail r))"

lemma Int63n_ok: "0 < n \<Longrightarrow> Int63n r n = Inr (int (r 0) mod n, rng_tail r)"
  by (simp add: Int63n_def)

text \<open>\<open>rand.Perm\<close>: the inside-out shuffle, \<open>m[i] = m[j]; m[j] = i\<close> for a random \<open>j \<le> i\<close>.\<close>

fun perm_loop :: "rng \<Rightarrow> nat \<Rightarrow> nat \<Rightarrow> nat list \<Rightarrow> nat list \<times> rng" where
  "perm_loop r 0 i m = (m, r)"
| "perm_loop r (Suc k) i m =
     (let j = r 0 mod Suc i; m1 = m @ [if j < i then m ! j else 0]
      in perm_loop (rng_tail r) k (Suc i) (m1[j := i]))"

definition Perm :: "rng \<Rightarrow> nat \<Rightarrow> nat list \<times> rng" where
  "Perm r n = perm_loop r n 0 []"

lemma mset_shuffle_step:
  assumes "length m = i" and "j \<le> i"
  shows "mset ((m @ [if j < i then m ! j else 0])[j := i]) = mset m + {#i#}"
proof (cases "j < i")
  case True
  with assms have "j < length m" by simp
  then show ?thesis
    using True by (simp add: list_update_append mset_update)
next
  case False
  with assms show ?thesis by (simp add: list_update_append)
qed

lemma mset_perm_loop:
  "length m = i \<Longrightarrow> mset (fst (perm_loop r k i m)) = mset m + mset [i..<i + k]"
proof (induction k arbitrary: r i m)
  case 0
  then show ?case by simp
next
  case (Suc k)
  let ?j = "r 0 mod Suc i"
  let ?m = "(m @ [if ?j < i then m ! ?j else 0])[?j := i]"
  have "?j \<le> i" by (simp add: less_Suc_eq_le [symmetric])
  with Suc.prems have "mset ?m = mset m + {#i#}" by (rule mset_shuffle_step)
  moreover have "length ?m = Suc i" using Suc.prems by simp
  ultimately show ?case
    using Suc.IH [of ?m "Suc i" "rng_tail r"]
    by (simp add: Let_def upt_conv_Cons del: upt_Suc)
qed

lemma mset_Perm: "mset (fst (Perm r n)) = mset [0..<n]"
  by (simp add: Perm_def mset_perm_loop [of "[]", simplified])

lemma Perm_props:
  "length (fst (Perm r n)) = n" "distinct (fst (Perm r n))" "set (fst (Perm r n)) = {0..<n}"
proof -
  have p: "mset (fst (Perm r n)) = mset [0..<n]" by (rule mset_Perm)
  show "length (fst (Perm r n)) = n" using arg_cong [OF p, of size] by simp
  show "distinct (fst (Perm r n))" using p by (metis distinct_upt mset_eq_imp_distinct_iff)
  show "set (fst (Perm r n)) = {0..<n}" using p by (metis mset_eq_setD set_upt)
qed

section \<open>Words\<close>

lemma unat_of_nat_u32: "n < 2 ^ 32 \<Longrightarrow> unat (of_nat n :: u32) = n"
  by (simp add: unat_of_nat take_bit_nat_eq_self)

lemma unat_u32_bound: "unat (x :: u32) < 2 ^ 32"
proof -
  have "unat x < 2 ^ LENGTH(32)" by (rule unsigned_less)
  then show ?thesis by simp
qed

lemma unat_minus_one_u32: "x \<noteq> (0 :: u32) \<Longrightarrow> unat (x - 1) = unat x - 1"
  by (rule unat_minus_one)

lemma unat_plus_one_u32: "x \<noteq> (- 1 :: u32) \<Longrightarrow> unat (x + 1) = unat x + 1"
  by (metis Suc_eq_plus1 add.commute add_eq_0_iff unatSuc)

end
