(* ===== verification/Wire_Message.thy ===== *)
theory Wire_Message
  imports Uav_Prelude
begin

text \<open>
  \<open>pkg/message\<close>: the message record, its constants, and its expiry and broadcast tests.
  The clock is an argument: \<open>now\<close> is what \<open>time.Now()\<close> returns.
\<close>

section \<open>The message\<close>

definition TypeHeartbeat :: u8 where "TypeHeartbeat = 0"
definition TypeState :: u8 where "TypeState = 1"
definition TypeControl :: u8 where "TypeControl = 2"
definition TypeConsensus :: u8 where "TypeConsensus = 3"
definition TypeCustom :: u8 where "TypeCustom = 4"

definition MessageType_String :: "u8 \<Rightarrow> string" where
  "MessageType_String t =
     (if t = TypeHeartbeat then ''HEARTBEAT''
      else if t = TypeState then ''STATE''
      else if t = TypeControl then ''CONTROL''
      else if t = TypeConsensus then ''CONSENSUS''
      else if t = TypeCustom then ''CUSTOM''
      else ''UNKNOWN'')"

definition PriorityCollision :: u8 where "PriorityCollision = 0"
definition PriorityState :: u8 where "PriorityState = 1"
definition PriorityTask :: u8 where "PriorityTask = 2"
definition PriorityDebug :: u8 where "PriorityDebug = 3"

definition TTLCollision :: u16 where "TTLCollision = 100"
definition TTLState :: u16 where "TTLState = 500"
definition TTLDefault :: u16 where "TTLDefault = 1000"
definition TTLForever :: u16 where "TTLForever = 0"

definition BroadcastID :: u16 where "BroadcastID = 0"

definition HeaderSize :: nat where
  "HeaderSize = 1 + 2 + 2 + 4 + 8 + 8 + 1 + 2 + 1 + 4"

lemma HeaderSize_33 [simp]: "HeaderSize = 33"
  by (simp add: HeaderSize_def)

record Message =
  Type :: u8
  From :: u16
  To :: u16
  Seq :: u32
  Timestamp :: u64
  DataTime :: u64
  StreamID :: u8
  TTL :: u16
  Priority :: u8
  Payload :: bytes

text \<open>Go's zero value, from which composite literals that leave fields out are built.\<close>

definition zero_Message :: Message where
  "zero_Message = \<lparr>Type = 0, From = 0, To = 0, Seq = 0, Timestamp = 0, DataTime = 0,
     StreamID = 0, TTL = 0, Priority = 0, Payload = []\<rparr>"

section \<open>Expiry and broadcast\<close>

text \<open>
  \<open>time.Now().UnixMilli()-m.Timestamp > int64(m.TTL)\<close>: the subtraction wraps at 64 bits, the
  comparison is signed.
\<close>

definition IsExpired :: "go_time \<Rightarrow> Message \<Rightarrow> bool" where
  "IsExpired now m =
     (if TTL m = 0 then False
      else sint (UnixMilli now - Timestamp m) > sint (ucast (TTL m) :: u64))"

definition IsBroadcast :: "Message \<Rightarrow> bool" where
  "IsBroadcast m \<longleftrightarrow> To m = BroadcastID"

lemma sint_ucast_TTL: "sint (ucast (t :: u16) :: u64) = uint t"
proof -
  have b: "uint t < 2 ^ 16" using uint_lt2p [of t] by simp
  have "sint (ucast t :: u64) = i64 (uint t)" by (simp add: i64_def)
  also have "\<dots> = uint t"
    using i64_id [of "uint t"] b uint_ge_0 [of t] by simp
  finally show ?thesis .
qed

text \<open>Where the age of the message fits into 63 bits, expiry is the comparison of age and TTL.\<close>

lemma sint_minus_no_overflow:
  fixes a b :: u64
  assumes "- (2 ^ 63) \<le> sint a - sint b" and "sint a - sint b < 2 ^ 63"
  shows "sint (a - b) = sint a - sint b"
proof -
  have "sint (a - b) = i64 (sint a - sint b)"
    by (simp add: i64_def)
  with assms show ?thesis by (simp add: i64_id)
qed

lemma IsExpired_iff:
  assumes "- (2 ^ 63) \<le> sint (UnixMilli now) - sint (Timestamp m)"
    and "sint (UnixMilli now) - sint (Timestamp m) < 2 ^ 63"
  shows "IsExpired now m \<longleftrightarrow>
    TTL m \<noteq> TTLForever \<and> sint (UnixMilli now) - sint (Timestamp m) > uint (TTL m)"
  using assms by (simp add: IsExpired_def TTLForever_def sint_ucast_TTL sint_minus_no_overflow)

text \<open>Expiry is monotone in time as long as the age stays in range.\<close>

lemma UnixMilli_mono:
  assumes "t \<le> u" and "0 \<le> t - unix_epoch" and "u - unix_epoch < 2 ^ 63 * Millisecond"
  shows "sint (UnixMilli t) \<le> sint (UnixMilli u)"
proof -
  have r: "sint (UnixMilli x) = (x - unix_epoch) div Millisecond"
    if "0 \<le> x - unix_epoch" "x - unix_epoch < 2 ^ 63 * Millisecond" for x
  proof -
    have "(x - unix_epoch) div Millisecond < 2 ^ 63" "0 \<le> (x - unix_epoch) div Millisecond"
      using that by linarith+
    then show ?thesis using i64_id by (simp add: UnixMilli_def i64_def)
  qed
  show ?thesis using assms by (simp add: r zdiv_mono1)
qed

end
