(* ===== verification/Wire_Codec.thy ===== *)
theory Wire_Codec
  imports Wire_Message
begin

text \<open>
  \<open>node/transport/codec\<close>: the little-endian wire format and the optional compression.
  The two directions of \<open>compress/zlib\<close> are the arguments \<open>zw\<close> (write) and \<open>zr\<close> (read), with
  \<open>None\<close> for their error results; what the code relies on is \<open>zlib_ok\<close>: reading back what was
  written gives the data again.
\<close>

unbundle bit_operations_syntax

section \<open>encoding/binary.LittleEndian\<close>

definition le_put :: "nat \<Rightarrow> 'a::len word \<Rightarrow> bytes" where
  "le_put n w = map (\<lambda>i. ucast (drop_bit (8 * i) w)) [0..<n]"

primrec le_get :: "bytes \<Rightarrow> 'a::len word" where
  "le_get [] = 0"
| "le_get (b # bs) = ucast b OR push_bit 8 (le_get bs)"

lemma length_le_put [simp]: "length (le_put n w) = n"
  by (simp add: le_put_def)

lemma le_put_Suc: "le_put (Suc n) w = ucast w # le_put n (drop_bit 8 w)"
proof -
  have "le_put (Suc n) w = map (\<lambda>i. ucast (drop_bit (8 * i) w)) (0 # map Suc [0..<n])"
    by (simp add: le_put_def upt_conv_Cons map_Suc_upt del: upt_Suc)
  then show ?thesis
    by (simp add: le_put_def drop_bit_drop_bit add.commute)
qed

lemma le_get_put: "le_get (le_put n w) = take_bit (8 * n) w"
proof (induction n arbitrary: w)
  case 0
  then show ?case by (simp add: le_put_def)
next
  case (Suc n)
  show ?case
    by (rule bit_word_eqI)
      (auto simp: le_put_Suc Suc bit_simps)
qed

lemma le_get_put_full: "LENGTH('a) \<le> 8 * n \<Longrightarrow> le_get (le_put n w) = (w :: 'a::len word)"
  by (simp add: le_get_put take_bit_word_eq_self)

lemma le_put_get:
  "8 * length bs \<le> LENGTH('a) \<Longrightarrow> le_put (length bs) (le_get bs :: 'a::len word) = bs"
proof (induction bs)
  case Nil
  then show ?case by (simp add: le_put_def)
next
  case (Cons b bs)
  have b: "ucast (le_get (b # bs) :: 'a word) = b"
    using Cons.prems by (intro bit_word_eqI) (auto simp: bit_simps)
  have t: "drop_bit 8 (le_get (b # bs) :: 'a word) = take_bit (LENGTH('a) - 8) (le_get bs)"
    by (rule bit_word_eqI) (auto simp: bit_simps dest: bit_imp_le_length)
  have "le_put (length bs) (take_bit (LENGTH('a) - 8) (le_get bs :: 'a word)) =
      le_put (length bs) (le_get bs :: 'a word)"
    using Cons.prems
    by (auto simp: le_put_def intro!: bit_word_eqI) (auto simp: bit_simps)
  with Cons b t show ?case by (simp add: le_put_Suc)
qed

lemma le_put_get_field:
  assumes "8 * n = LENGTH('a)" and "i + n \<le> length d"
  shows "le_put n (le_get (take n (drop i d)) :: 'a::len word) = take n (drop i d)"
  using assms le_put_get [of "take n (drop i d)", where 'a = 'a] by simp

section \<open>The raw format\<close>

datatype codec_error =
    EmptyData
  | DecompressFailed
  | DataTooShort nat
  | PayloadTruncated u32 nat

definition CompressThreshold :: nat where
  "CompressThreshold = 256"

text \<open>The buffer is filled field by field, at the offsets the code steps through.\<close>

definition encodeRaw :: "Message \<Rightarrow> bytes" where
  "encodeRaw msg =
     (let payloadLen = (of_nat (length (Payload msg)) :: u32);
          buf = replicate (HeaderSize + unat payloadLen) 0;
          buf = copy_at buf 0 [Type msg];
          buf = copy_at buf 1 (le_put 2 (From msg));
          buf = copy_at buf 3 (le_put 2 (To msg));
          buf = copy_at buf 5 (le_put 4 (Seq msg));
          buf = copy_at buf 9 (le_put 8 (Timestamp msg));
          buf = copy_at buf 17 (le_put 8 (DataTime msg));
          buf = copy_at buf 25 [StreamID msg];
          buf = copy_at buf 26 (le_put 2 (TTL msg));
          buf = copy_at buf 28 [Priority msg];
          buf = copy_at buf 29 (le_put 4 payloadLen)
      in copy_at buf 33 (Payload msg))"

definition decodeRaw :: "bytes \<Rightarrow> codec_error + Message" where
  "decodeRaw data =
     (if length data < HeaderSize then Inl (DataTooShort (length data))
      else
        let msg = \<lparr>Type = data ! 0,
                   From = le_get (take 2 (drop 1 data)),
                   To = le_get (take 2 (drop 3 data)),
                   Seq = le_get (take 4 (drop 5 data)),
                   Timestamp = le_get (take 8 (drop 9 data)),
                   DataTime = le_get (take 8 (drop 17 data)),
                   StreamID = data ! 25,
                   TTL = le_get (take 2 (drop 26 data)),
                   Priority = data ! 28,
                   Payload = []\<rparr>;
            payloadLen = (le_get (take 4 (drop 29 data)) :: u32);
            remaining = length data - 33
        in if remaining < unat payloadLen then Inl (PayloadTruncated payloadLen remaining)
           else if 0 < payloadLen
           then Inr (msg\<lparr>Payload := take (unat payloadLen) (drop 33 data)\<rparr>)
           else Inr msg)"

section \<open>The compressed format\<close>

definition Encode :: "(bytes \<Rightarrow> bytes option) \<Rightarrow> Message \<Rightarrow> bytes" where
  "Encode zw msg =
     (let raw = encodeRaw msg
      in if length (Payload msg) \<ge> CompressThreshold
         then (case zw raw of
                 Some compressed \<Rightarrow>
                   (if length compressed < length raw then 1 # compressed else 0 # raw)
               | None \<Rightarrow> 0 # raw)
         else 0 # raw)"

definition Decode :: "(bytes \<Rightarrow> bytes option) \<Rightarrow> bytes \<Rightarrow> codec_error + Message" where
  "Decode zr data =
     (case data of
        [] \<Rightarrow> Inl EmptyData
      | flag # payload \<Rightarrow>
          (if flag = 1
           then (case zr payload of None \<Rightarrow> Inl DecompressFailed | Some raw \<Rightarrow> decodeRaw raw)
           else decodeRaw payload))"

definition zlib_ok :: "(bytes \<Rightarrow> bytes option) \<Rightarrow> (bytes \<Rightarrow> bytes option) \<Rightarrow> bool" where
  "zlib_ok zw zr \<longleftrightarrow> (\<forall>d c. zw d = Some c \<longrightarrow> zr c = Some d)"

section \<open>The layout of an encoded message\<close>

text \<open>The fields one after the other: what the buffer holds once it is filled.\<close>

definition header_bytes :: "Message \<Rightarrow> u32 \<Rightarrow> bytes" where
  "header_bytes m n =
     Type m # le_put 2 (From m) @ le_put 2 (To m) @ le_put 4 (Seq m) @ le_put 8 (Timestamp m)
       @ le_put 8 (DataTime m) @ StreamID m # le_put 2 (TTL m) @ Priority m # le_put 4 n"

lemma length_header_bytes [simp]: "length (header_bytes m n) = 33"
  by (simp add: header_bytes_def)

text \<open>Writing the next field of a buffer whose prefix is filled and whose rest is still blank.\<close>

lemma copy_at_fill:
  "length pre = off \<Longrightarrow> length bs \<le> k \<Longrightarrow>
     copy_at (pre @ replicate k z) off bs = (pre @ bs) @ replicate (k - length bs) z"
  by (simp add: copy_at_append)

lemma copy_at_fill_first:
  "length bs \<le> k \<Longrightarrow> copy_at (replicate k z) 0 bs = bs @ replicate (k - length bs) z"
  using copy_at_fill [of "[]" 0 bs k z] by simp

lemma copy_at_fill_last:
  "length pre = off \<Longrightarrow> k \<le> length bs \<Longrightarrow>
     copy_at (pre @ replicate k z) off bs = pre @ take k bs"
  by (simp add: copy_at_def)

lemma payload_len_le: "unat (of_nat (length xs) :: u32) \<le> length xs"
  by (simp add: unat_of_nat take_bit_nat_less_eq_self)

lemma encodeRaw_layout:
  "encodeRaw m = header_bytes m (of_nat (length (Payload m)))
     @ take (unat (of_nat (length (Payload m)) :: u32)) (Payload m)"
proof -
  define n where "n = (of_nat (length (Payload m)) :: u32)"
  have n: "unat n \<le> length (Payload m)"
    unfolding n_def by (rule payload_len_le)
  have "encodeRaw m = (((((((((([Type m] @ le_put 2 (From m)) @ le_put 2 (To m))
      @ le_put 4 (Seq m)) @ le_put 8 (Timestamp m)) @ le_put 8 (DataTime m)) @ [StreamID m])
      @ le_put 2 (TTL m)) @ [Priority m]) @ le_put 4 n) @ take (unat n) (Payload m))"
    unfolding encodeRaw_def n_def [symmetric] Let_def
    by (simp add: copy_at_fill copy_at_fill_first copy_at_fill_last n
        del: append_assoc append_Cons append_Nil)
  then show ?thesis by (simp add: n_def header_bytes_def)
qed

lemma decodeRaw_layout:
  assumes "length p = unat n"
  shows "decodeRaw (header_bytes m n @ p @ rest) = Inr (m\<lparr>Payload := p\<rparr>)"
proof -
  let ?d = "header_bytes m n @ p @ rest"
  have f: "?d ! 0 = Type m" "take 2 (drop 1 ?d) = le_put 2 (From m)"
    "take 2 (drop 3 ?d) = le_put 2 (To m)" "take 4 (drop 5 ?d) = le_put 4 (Seq m)"
    "take 8 (drop 9 ?d) = le_put 8 (Timestamp m)" "take 8 (drop 17 ?d) = le_put 8 (DataTime m)"
    "?d ! 25 = StreamID m" "take 2 (drop 26 ?d) = le_put 2 (TTL m)"
    "?d ! 28 = Priority m" "take 4 (drop 29 ?d) = le_put 4 n"
    by (simp_all add: header_bytes_def nth_append)
  have g: "drop 33 ?d = p @ rest" "length ?d = 33 + length p + length rest" by simp_all
  have z: "p = [] \<longleftrightarrow> \<not> 0 < n"
    using assms by (simp add: word_neq_0_conv [symmetric] unat_eq_0 flip: length_0_conv)
  show ?thesis
    unfolding decodeRaw_def f g Let_def le_get_put_full [where n = 2, simplified]
    using assms z by (cases m) (auto simp: le_get_put_full)
qed

lemma take_33_header:
  assumes "33 \<le> length d"
  shows "take 33 d = d ! 0 # take 2 (drop 1 d) @ take 2 (drop 3 d) @ take 4 (drop 5 d)
    @ take 8 (drop 9 d) @ take 8 (drop 17 d) @ d ! 25 # take 2 (drop 26 d) @ d ! 28
    # take 4 (drop 29 d)"
proof -
  have one: "d ! i # xs = take 1 (drop i d) @ xs" if "i < 33" for i xs
    using assms that by (simp add: take_Suc_conv_app_nth Cons_nth_drop_Suc [symmetric])
  have split: "take n (drop i d) = take a (drop i d) @ take (n - a) (drop k d)"
    if "a \<le> n" "i + a = k" for n a i k
    using that take_add [of a "n - a" "drop i d"] by (simp add: add.commute)
  show ?thesis
    using split [of 1 33 0 1] split [of 2 32 1 3] split [of 2 30 3 5] split [of 4 28 5 9]
      split [of 8 24 9 17] split [of 8 16 17 25] split [of 1 8 25 26] split [of 2 7 26 28]
      split [of 1 5 28 29]
    by (simp add: one)
qed

text \<open>Whatever decodes is the encoding of the decoded message followed by bytes nobody reads.\<close>

lemma decodeRaw_sound:
  assumes "decodeRaw d = Inr m"
  shows "\<exists>rest. d = encodeRaw m @ rest" and "length (Payload m) < 2 ^ 32"
proof -
  define n where "n = (le_get (take 4 (drop 29 d)) :: u32)"
  from assms have len: "33 \<le> length d" and rem: "unat n \<le> length d - 33"
    by (auto simp: decodeRaw_def Let_def n_def split: if_splits)
  from assms len rem have pay: "Payload m = take (unat n) (drop 33 d)"
    by (auto simp: decodeRaw_def Let_def n_def word_neq_0_conv [symmetric] split: if_splits)
  from rem pay have lp: "length (Payload m) = unat n" by simp
  then show "length (Payload m) < 2 ^ 32" using unat_u32_bound [of n] by simp
  have hd: "header_bytes m n = take 33 d"
    using assms len
    by (auto simp: take_33_header header_bytes_def decodeRaw_def Let_def n_def
        le_put_get_field split: if_splits)
  have "d = take 33 d @ take (unat n) (drop 33 d) @ drop (33 + unat n) d"
    by (simp add: add.commute flip: drop_drop)
  then show "\<exists>rest. d = encodeRaw m @ rest"
    using hd pay lp by (auto simp: encodeRaw_layout)
qed

section \<open>The codec contract\<close>

text \<open>What the transports rely on: encodings are not empty and decode to the message again.\<close>

locale message_codec =
  fixes enc :: "Message \<Rightarrow> bytes"
    and dec :: "bytes \<Rightarrow> codec_error + Message"
    and sendable :: "Message \<Rightarrow> bool"
  assumes enc_nonempty: "enc m \<noteq> []"
    and dec_enc: "sendable m \<Longrightarrow> dec (enc m) = Inr m"
begin

lemma enc_inj: "sendable m \<Longrightarrow> sendable m' \<Longrightarrow> enc m = enc m' \<Longrightarrow> m = m'"
  by (metis dec_enc sum.inject(2))

end

lemma decodeRaw_encodeRaw: "length (Payload m) < 2 ^ 32 \<Longrightarrow> decodeRaw (encodeRaw m) = Inr m"
  using decodeRaw_layout [of "Payload m" "of_nat (length (Payload m))" m "[]"]
    unat_of_nat_u32 [of "length (Payload m)"]
  by (simp add: encodeRaw_layout del: unat_of_nat)

lemma Encode_nonempty: "Encode zw m \<noteq> []"
  by (simp add: Encode_def Let_def split: option.splits)

lemma length_Encode_le: "length (Encode zw m) \<le> 34 + length (Payload m)"
  by (auto simp: Encode_def Let_def encodeRaw_layout split: option.splits)

lemma Decode_Encode_small:
  "length (Payload m) < CompressThreshold \<Longrightarrow> Decode zr (Encode zw m) = Inr m"
  by (simp add: Encode_def Decode_def Let_def CompressThreshold_def decodeRaw_encodeRaw)

text \<open>Below the compression threshold the contract holds whatever the compressor does.\<close>

interpretation small_codec: message_codec "Encode zw" "Decode zr"
  "\<lambda>m. length (Payload m) < CompressThreshold" for zw zr
  by unfold_locales (simp_all add: Encode_nonempty Decode_Encode_small)

lemma message_codec_zlib:
  assumes "zlib_ok zw zr"
  shows "message_codec (Encode zw) (Decode zr) (\<lambda>m. length (Payload m) < 2 ^ 32)"
proof
  show "Encode zw m \<noteq> []" for m by (rule Encode_nonempty)
  show "Decode zr (Encode zw m) = Inr m" if "length (Payload m) < 2 ^ 32" for m
    using that assms
    by (auto simp: Encode_def Decode_def Let_def zlib_ok_def decodeRaw_encodeRaw split: option.splits)
qed

section \<open>Properties\<close>

text \<open>
  C5. Encoding and then decoding a message gives the message again, whether or not the payload is
  large enough to be compressed, for every compressor that satisfies the zlib contract and every
  payload whose length fits into the 32-bit length field.
\<close>

theorem codec_roundtrip:
  assumes "zlib_ok zw zr" and "length (Payload m) < 2 ^ 32"
  shows "Decode zr (Encode zw m) = Inr m"
  using message_codec.dec_enc [OF message_codec_zlib] assms by blast

text \<open>A compressor for the witness: it halves a run of one repeated byte and refuses other data.\<close>

definition run_zw :: "bytes \<Rightarrow> bytes option" where
  "run_zw d = (if drop 33 d = replicate 300 7 then Some (take 33 d) else None)"

definition run_zr :: "bytes \<Rightarrow> bytes option" where
  "run_zr c = Some (c @ replicate 300 7)"

lemma zlib_ok_run: "zlib_ok run_zw run_zr"
  by (auto simp: zlib_ok_def run_zw_def run_zr_def split: if_splits)
    (metis append_take_drop_id)

definition run_message :: Message where
  "run_message = zero_Message\<lparr>Type := TypeState, From := 3, To := 4, Seq := 9,
     Payload := replicate 300 7\<rparr>"

theorem codec_roundtrip_witness:
  "length (Encode run_zw run_message) = 34 \<and>
   Decode run_zr (Encode run_zw run_message) = Inr run_message"
proof
  have "length (Payload run_message) < 2 ^ 32" by (simp add: run_message_def)
  with zlib_ok_run show "Decode run_zr (Encode run_zw run_message) = Inr run_message"
    by (rule codec_roundtrip)
  show "length (Encode run_zw run_message) = 34"
    by (simp add: Encode_def Let_def encodeRaw_layout run_zw_def run_message_def
        CompressThreshold_def zero_Message_def)
qed

text \<open>
  C21. Decoding accepts nothing but encodings: if the bytes after the flag (decompressed when the
  flag is 1) decode to a message, they are exactly the raw encoding of that message, followed only
  by trailing bytes that are ignored; and the decoded payload fits the length field.
\<close>

theorem Decode_sound:
  assumes "Decode zr data = Inr m"
  shows "length (Payload m) < 2 ^ 32 \<and>
    (\<exists>flag body rest. data = flag # body \<and>
       (if flag = 1 then zr body = Some (encodeRaw m @ rest) else body = encodeRaw m @ rest))"
proof -
  obtain flag body where d: "data = flag # body"
    using assms by (auto simp: Decode_def split: list.splits)
  obtain raw where raw: "decodeRaw raw = Inr m" "if flag = 1 then zr body = Some raw else body = raw"
    using assms d by (auto simp: Decode_def split: if_splits option.splits)
  with decodeRaw_sound [of raw m] d show ?thesis by (auto split: if_splits)
qed

theorem Decode_sound_witness:
  "\<exists>flag body rest. Encode run_zw run_message = flag # body \<and>
     (if flag = 1 then run_zr body = Some (encodeRaw run_message @ rest)
      else body = encodeRaw run_message @ rest)"
  using Decode_sound [of run_zr "Encode run_zw run_message" run_message]
    message_codec.dec_enc [OF message_codec_zlib [OF zlib_ok_run], of run_message]
  by (simp add: run_message_def)

text \<open>
  Compression never enlarges a message: its encoding takes at most one flag byte, the 33 header
  bytes and the payload, and exactly that many when the payload is below the compression threshold.
\<close>

lemma Encode_size:
  "length (Encode zw m) \<le> 1 + HeaderSize + length (Payload m) \<and>
   (if length (Payload m) < CompressThreshold
    then length (Encode zw m) = 1 + HeaderSize + length (Payload m) else True)"
proof -
  have "length (Encode zw m) = 34 + length (Payload m)" if "length (Payload m) < CompressThreshold"
    using that by (simp add: Encode_def Let_def encodeRaw_layout CompressThreshold_def
        unat_of_nat_u32 del: unat_of_nat)
  then show ?thesis using length_Encode_le [of zw m] by simp
qed

end
