(* ===== verification/Net_Transport.thy ===== *)
theory Net_Transport
  imports Wire_Codec
begin

text \<open>
  \<open>node/transport/tcp\<close> and \<open>node/transport/udp\<close>: the bounded inbound channel that drops its oldest
  message, the length-prefixed frames of the TCP stream, the pool of outbound TCP connections, and
  the UDP datagram loop. The network is an argument: a byte stream or a list of datagrams on the
  inbound side; on the outbound side, whether dialling, resolving and writing succeed.
\<close>

section \<open>The inbound channel\<close>

text \<open>\<open>New\<close> replaces a buffer size that is not positive.\<close>

definition recv_cap :: "int \<Rightarrow> nat" where
  "recv_cap recvBufSize = (if recvBufSize \<le> 0 then 256 else nat recvBufSize)"

text \<open>The nested select of both read loops: send, or drain one slot and then send.\<close>

definition chan_push :: "nat \<Rightarrow> 'a list \<Rightarrow> 'a \<Rightarrow> 'a list" where
  "chan_push cap ch msg = (if length ch < cap then ch @ [msg] else drop 1 ch @ [msg])"

lemma recv_cap_pos: "0 < recv_cap n"
  by (simp add: recv_cap_def)

lemma chan_push_newest:
  assumes "0 < cap"
  shows "chan_push cap (newest cap xs) m = newest cap (xs @ [m])"
proof (cases "length xs < cap")
  case True
  then show ?thesis by (simp add: chan_push_def newest_def)
next
  case False
  with assms have "Suc (length xs) - cap = Suc (length xs - cap)" "length xs - cap < length xs"
    by simp_all
  with False show ?thesis by (simp add: chan_push_def newest_def)
qed

lemma foldl_chan_push:
  assumes "0 < cap" and "length ch \<le> cap"
  shows "foldl (chan_push cap) ch ms = newest cap (ch @ ms)"
proof (induction ms rule: rev_induct)
  case Nil
  then show ?case using assms by (simp add: newest_def)
next
  case (snoc m ms)
  then show ?case using chan_push_newest [OF assms(1), of "ch @ ms" m] by simp
qed

section \<open>TCP framing\<close>

datatype frame_error =
    StreamEnded
  | InvalidFrameLength u32
  | FrameCodec codec_error

definition makeFrame :: "bytes \<Rightarrow> bytes" where
  "makeFrame data =
     (let frame = replicate (4 + length data) 0;
          frame = copy_at frame 0 (le_put 4 (of_nat (length data) :: u32))
      in copy_at frame 4 data)"

text \<open>\<open>readFrame\<close> with \<open>dec\<close> for \<open>codec.Decode\<close>; \<open>io.ReadFull\<close> fails when the stream ends early.\<close>

definition readFrame :: "(bytes \<Rightarrow> codec_error + Message) \<Rightarrow> bytes \<Rightarrow> frame_error + (Message \<times> bytes)" where
  "readFrame dec stream =
     (if length stream < 4 then Inl StreamEnded
      else
        let frameLen = (le_get (take 4 stream) :: u32); rest = drop 4 stream
        in if frameLen = 0 \<or> frameLen > 65536 then Inl (InvalidFrameLength frameLen)
           else if length rest < unat frameLen then Inl StreamEnded
           else (case dec (take (unat frameLen) rest) of
                   Inl e \<Rightarrow> Inl (FrameCodec e)
                 | Inr msg \<Rightarrow> Inr (msg, drop (unat frameLen) rest)))"

lemma readFrame_consumes: "readFrame dec stream = Inr (msg, rest) \<Longrightarrow> length rest < length stream"
  by (auto simp: readFrame_def Let_def split: if_splits sum.splits)

text \<open>
  \<open>handleConn\<close> on everything the peer writes until it closes the connection: frames are read and
  pushed until the first error, which ends the connection.
\<close>

function handleConn ::
    "(bytes \<Rightarrow> codec_error + Message) \<Rightarrow> nat \<Rightarrow> Message list \<Rightarrow> bytes \<Rightarrow> Message list \<times> frame_error" where
  "handleConn dec cap recvCh stream =
     (case readFrame dec stream of
        Inl e \<Rightarrow> (recvCh, e)
      | Inr (msg, rest) \<Rightarrow> handleConn dec cap (chan_push cap recvCh msg) rest)"
  by pat_completeness auto
termination
  by (relation "measure (\<lambda>(dec, cap, recvCh, stream). length stream)")
    (auto dest: readFrame_consumes)

declare handleConn.simps [simp del]

lemma makeFrame_layout: "makeFrame data = le_put 4 (of_nat (length data) :: u32) @ data"
proof -
  let ?h = "le_put 4 (of_nat (length data) :: u32)"
  have "copy_at (replicate (4 + length data) 0) 0 ?h = ?h @ replicate (length data) 0"
    by (simp add: copy_at_fill_first)
  then show ?thesis
    by (simp add: makeFrame_def Let_def copy_at_fill_last)
qed

lemma readFrame_makeFrame:
  assumes "data \<noteq> []" and "length data \<le> 65536"
  shows "readFrame dec (makeFrame data @ rest) =
    (case dec data of Inl e \<Rightarrow> Inl (FrameCodec e) | Inr msg \<Rightarrow> Inr (msg, rest))"
proof -
  define n where "n = (of_nat (length data) :: u32)"
  have n: "unat n = length data"
    using assms(2) by (simp add: n_def unat_of_nat_u32 del: unat_of_nat)
  have "n \<noteq> 0" "\<not> n > 65536"
    using assms n by (auto simp: word_less_nat_alt)
  then show ?thesis
    by (cases "dec data")
      (simp_all add: readFrame_def makeFrame_layout Let_def n n_def [symmetric] le_get_put_full
        del: unat_of_nat)
qed

context message_codec
begin

text \<open>A stream of frames is read back as the messages that were written, in order.\<close>

lemma handleConn_frames:
  assumes "\<forall>m \<in> set ms. sendable m \<and> length (enc m) \<le> 65536"
  shows "handleConn dec cap ch (concat (map (\<lambda>m. makeFrame (enc m)) ms) @ tail) =
    handleConn dec cap (foldl (chan_push cap) ch ms) tail"
  using assms
proof (induction ms arbitrary: ch)
  case Nil
  then show ?case by simp
next
  case (Cons m ms)
  have "readFrame dec (makeFrame (enc m) @ concat (map (\<lambda>m. makeFrame (enc m)) ms) @ tail) =
      Inr (m, concat (map (\<lambda>m. makeFrame (enc m)) ms) @ tail)"
    using Cons.prems by (simp add: readFrame_makeFrame enc_nonempty dec_enc)
  then show ?case
    using Cons by (subst handleConn.simps) simp
qed

end

section \<open>The pool of outbound TCP connections\<close>

text \<open>
  A connection in the pool is \<open>None\<close> (not dialled, or closed after a failed write) or the bytes
  written to it so far. \<open>backoff\<close> is set and reset but no code reads it.
\<close>

record tcpConn =
  conn :: "bytes option"
  conn_addr :: string
  backoff :: duration

type_synonym tcp_pool = "(string, tcpConn) gomap"

datatype tcp_error = DialFailed | WriteFailed

definition getOrCreateConn :: "tcp_pool \<Rightarrow> string \<Rightarrow> tcpConn \<times> tcp_pool" where
  "getOrCreateConn pool addr =
     (case gm_lookup pool addr of
        Some c \<Rightarrow> (c, pool)
      | None \<Rightarrow> let c = \<lparr>conn = None, conn_addr = addr, backoff = 100 * Millisecond\<rparr>
                in (c, gm_set addr c pool))"

definition tcp_dial :: "bool \<Rightarrow> tcpConn \<Rightarrow> tcp_error + tcpConn" where
  "tcp_dial dial_ok tc =
     (if dial_ok then Inr (tc\<lparr>conn := Some [], backoff := 100 * Millisecond\<rparr>)
      else Inl DialFailed)"

text \<open>\<open>Send\<close>: the new pool and the error, if any. The connection record is shared through the pool.\<close>

definition tcp_Send ::
    "(Message \<Rightarrow> bytes) \<Rightarrow> bool \<Rightarrow> bool \<Rightarrow> tcp_pool \<Rightarrow> string \<Rightarrow> Message \<Rightarrow> tcp_pool \<times> tcp_error option" where
  "tcp_Send enc dial_ok write_ok pool addr msg =
     (let frame = makeFrame (enc msg);
          (tc, pool) = getOrCreateConn pool addr
      in case (case conn tc of None \<Rightarrow> tcp_dial dial_ok tc | Some _ \<Rightarrow> Inr tc) of
           Inl e \<Rightarrow> (pool, Some e)
         | Inr tc \<Rightarrow>
             if write_ok
             then (gm_set addr (tc\<lparr>conn := map_option (\<lambda>w. w @ frame) (conn tc)\<rparr>) pool, None)
             else (gm_set addr (tc\<lparr>conn := None\<rparr>) pool, Some WriteFailed))"

definition written :: "tcp_pool \<Rightarrow> string \<Rightarrow> bytes option" where
  "written pool addr = Option.bind (gm_lookup pool addr) conn"

lemma written_tcp_Send:
  "written (fst (tcp_Send enc d w pool addr msg)) a =
     (if a \<noteq> addr then written pool a
      else if written pool addr = None \<and> \<not> d then None
      else if w then Some ((case written pool addr of None \<Rightarrow> [] | Some bs \<Rightarrow> bs) @ makeFrame (enc msg))
      else None)"
  by (auto simp: tcp_Send_def getOrCreateConn_def tcp_dial_def written_def Let_def
      split: option.splits)

lemma tcp_Send_error:
  "snd (tcp_Send enc d w pool addr msg) =
     (if written pool addr = None \<and> \<not> d then Some DialFailed
      else if w then None else Some WriteFailed)"
  by (auto simp: tcp_Send_def getOrCreateConn_def tcp_dial_def written_def Let_def
      split: option.splits)

text \<open>Sending a list of messages to one address over a network that accepts them all.\<close>

definition tcp_send_all :: "(Message \<Rightarrow> bytes) \<Rightarrow> tcp_pool \<Rightarrow> string \<Rightarrow> Message list \<Rightarrow> tcp_pool" where
  "tcp_send_all enc pool addr ms =
     foldl (\<lambda>p m. fst (tcp_Send enc True True p addr m)) pool ms"

lemma written_tcp_send_all:
  assumes "ms \<noteq> []"
  shows "written (tcp_send_all enc pool addr ms) addr =
    Some ((case written pool addr of None \<Rightarrow> [] | Some bs \<Rightarrow> bs)
          @ concat (map (\<lambda>m. makeFrame (enc m)) ms))"
  using assms
proof (induction ms rule: rev_induct)
  case Nil
  then show ?case by simp
next
  case (snoc m ms)
  show ?case
  proof (cases "ms = []")
    case True
    then show ?thesis by (simp add: tcp_send_all_def written_tcp_Send)
  next
    case False
    with snoc.IH show ?thesis
      by (simp add: tcp_send_all_def written_tcp_Send)
  qed
qed

section \<open>The UDP loops\<close>

definition maxUDPPacket :: nat where
  "maxUDPPacket = 65507"

datatype udp_error = ResolveFailed | UdpWriteFailed

text \<open>
  \<open>Send\<close>: \<open>resolve\<close> is the address lookup, \<open>write_ok\<close> the result of the system call on the datagram.
  A success puts one datagram on the network.
\<close>

definition udp_Send ::
    "(Message \<Rightarrow> bytes) \<Rightarrow> (string \<Rightarrow> 'a option) \<Rightarrow> (bytes \<Rightarrow> bool) \<Rightarrow> string \<Rightarrow> Message
      \<Rightarrow> udp_error + ('a \<times> bytes)" where
  "udp_Send enc resolve write_ok addr msg =
     (let data = enc msg
      in case resolve addr of
           None \<Rightarrow> Inl ResolveFailed
         | Some udpAddr \<Rightarrow> (if write_ok data then Inr (udpAddr, data) else Inl UdpWriteFailed))"

text \<open>
  One iteration of \<open>readLoop\<close>: a read error (\<open>None\<close>) and a malformed datagram are skipped, a
  datagram longer than the buffer is cut to it.
\<close>

definition udp_read_step ::
    "(bytes \<Rightarrow> codec_error + Message) \<Rightarrow> nat \<Rightarrow> Message list \<Rightarrow> bytes option \<Rightarrow> Message list" where
  "udp_read_step dec cap recvCh datagram =
     (case datagram of
        None \<Rightarrow> recvCh
      | Some bs \<Rightarrow>
          (case dec (take maxUDPPacket bs) of
             Inl _ \<Rightarrow> recvCh
           | Inr msg \<Rightarrow> chan_push cap recvCh msg))"

definition udp_readLoop ::
    "(bytes \<Rightarrow> codec_error + Message) \<Rightarrow> nat \<Rightarrow> Message list \<Rightarrow> bytes option list \<Rightarrow> Message list" where
  "udp_readLoop dec cap recvCh datagrams = foldl (udp_read_step dec cap) recvCh datagrams"

definition decoded :: "(bytes \<Rightarrow> codec_error + Message) \<Rightarrow> bytes option list \<Rightarrow> Message list" where
  "decoded dec ds = concat (map (\<lambda>d. case d of None \<Rightarrow> []
     | Some bs \<Rightarrow> (case dec (take maxUDPPacket bs) of Inl _ \<Rightarrow> [] | Inr m \<Rightarrow> [m])) ds)"

lemma udp_readLoop_foldl: "udp_readLoop dec cap ch ds = foldl (chan_push cap) ch (decoded dec ds)"
  unfolding udp_readLoop_def decoded_def
  by (induction ds arbitrary: ch)
    (auto simp: udp_read_step_def split: option.splits sum.splits)

section \<open>Properties\<close>

text \<open>
  C11. TCP delivery: when messages whose encodings are at most 65536 bytes long are sent over one
  fresh connection, the peer's read loop decodes exactly those messages in order; its inbound
  channel then holds the newest of them, and the loop ends only because the stream ended.
\<close>

theorem tcp_delivery:
  assumes "zlib_ok zw zr" and "0 < cap" and "ms \<noteq> []" and "written pool addr = None"
    and "\<forall>m \<in> set ms. length (Payload m) < 2 ^ 32 \<and> length (Encode zw m) \<le> 65536"
    and "written (tcp_send_all (Encode zw) pool addr ms) addr = Some stream"
  shows "handleConn (Decode zr) cap [] stream = (newest cap ms, StreamEnded)"
proof -
  have s: "stream = concat (map (\<lambda>m. makeFrame (Encode zw m)) ms) @ []"
    using assms(3,4,6) by (simp add: written_tcp_send_all)
  have "handleConn (Decode zr) cap [] stream =
      handleConn (Decode zr) cap (foldl (chan_push cap) [] ms) []"
    unfolding s by (rule message_codec.handleConn_frames [OF message_codec_zlib [OF assms(1)]])
      (use assms(5) in simp)
  also have "\<dots> = (newest cap ms, StreamEnded)"
    using assms(2) by (subst handleConn.simps) (simp add: readFrame_def foldl_chan_push)
  finally show ?thesis .
qed

theorem tcp_delivery_witness:
  "\<exists>stream. written (tcp_send_all (Encode run_zw) [] ''b'' [run_message, zero_Message]) ''b'' =
     Some stream
   \<and> handleConn (Decode run_zr) 8 [] stream = ([run_message, zero_Message], StreamEnded)"
proof -
  let ?ms = "[run_message, zero_Message]"
  obtain stream where s: "written (tcp_send_all (Encode run_zw) [] ''b'' ?ms) ''b'' = Some stream"
    by (simp add: written_tcp_send_all)
  have len: "length (Encode run_zw run_message) \<le> 65536" "length (Encode run_zw zero_Message) \<le> 65536"
    using length_Encode_le [of run_zw run_message] length_Encode_le [of run_zw zero_Message]
    by (simp_all add: run_message_def zero_Message_def)
  have "handleConn (Decode run_zr) 8 [] stream = (newest 8 ?ms, StreamEnded)"
    by (rule tcp_delivery [OF zlib_ok_run _ _ _ _ s])
      (use len in \<open>simp_all add: written_def run_message_def zero_Message_def\<close>)
  with s show ?thesis by (auto simp: newest_def)
qed

text \<open>
  C39. A frame longer than 65536 bytes is accepted by the sender and refused by the receiver: \<open>Send\<close>
  reports success, but the peer's read loop ends at that frame with \<open>InvalidFrameLength\<close> and never
  sees what follows on the connection.
\<close>

theorem tcp_oversized_frame:
  assumes "65536 < length (enc m)" and "length (enc m) < 2 ^ 32"
  shows "snd (tcp_Send enc True True pool addr m) = None \<and>
    handleConn dec cap ch (makeFrame (enc m) @ later) =
      (ch, InvalidFrameLength (of_nat (length (enc m))))"
proof
  show "snd (tcp_Send enc True True pool addr m) = None"
    by (simp add: tcp_Send_error)
  define n where "n = (of_nat (length (enc m)) :: u32)"
  have "unat n = length (enc m)"
    unfolding n_def by (rule unat_of_nat_u32) (rule assms(2))
  with assms(1) have "n > 65536" by (simp add: word_less_nat_alt)
  then show "handleConn dec cap ch (makeFrame (enc m) @ later) =
      (ch, InvalidFrameLength (of_nat (length (enc m))))"
    by (subst handleConn.simps)
      (simp add: readFrame_def makeFrame_layout Let_def n_def [symmetric] le_get_put_full)
qed

theorem tcp_oversized_frame_witness:
  "\<exists>m. handleConn (Decode run_zr) 8 [] (makeFrame (Encode (\<lambda>_. None) m) @ []) =
     ([], InvalidFrameLength 65537)"
proof
  let ?m = "zero_Message\<lparr>Payload := replicate 65503 1\<rparr>"
  let ?e = "Encode (\<lambda>_. None)"
  have len: "length (?e ?m) = 65537"
    by (simp add: Encode_def Let_def encodeRaw_layout zero_Message_def)
  show "handleConn (Decode run_zr) 8 [] (makeFrame (?e ?m) @ []) = ([], InvalidFrameLength 65537)"
    using tcp_oversized_frame [where enc = ?e and m = ?m and ch = "[]" and later = "[]"
        and dec = "Decode run_zr" and cap = 8] len by simp
qed

text \<open>
  The UDP loop survives every datagram: whatever arrives (read errors and malformed datagrams
  included), the channel never exceeds its capacity and holds the newest of the messages that
  decode; and a message whose encoding fits into one datagram decodes to itself.
\<close>

lemma udp_loop_newest:
  assumes "zlib_ok zw zr" and "length ch \<le> recv_cap bufSize"
  shows "udp_readLoop (Decode zr) (recv_cap bufSize) ch ds =
      newest (recv_cap bufSize) (ch @ decoded (Decode zr) ds) \<and>
    length (udp_readLoop (Decode zr) (recv_cap bufSize) ch ds) \<le> recv_cap bufSize \<and>
    (\<forall>m. length (Encode zw m) \<le> maxUDPPacket \<and> length (Payload m) < 2 ^ 32 \<longrightarrow>
       decoded (Decode zr) (ds @ [Some (Encode zw m)]) = decoded (Decode zr) ds @ [m])"
  using assms message_codec.dec_enc [OF message_codec_zlib [OF assms(1)]]
  by (simp add: udp_readLoop_foldl foldl_chan_push recv_cap_pos decoded_def)

lemma udp_loop_newest_witness:
  "udp_readLoop (Decode run_zr) (recv_cap 1) [] [None, Some [], Some (Encode run_zw zero_Message)] =
     [zero_Message]"
  using udp_loop_newest [OF zlib_ok_run, of "[]" 1 "[None, Some [], Some (Encode run_zw zero_Message)]"]
    small_codec.dec_enc [of zero_Message run_zr run_zw] length_Encode_le [of run_zw zero_Message]
  by (simp add: decoded_def newest_def recv_cap_def zero_Message_def CompressThreshold_def
      maxUDPPacket_def Decode_def)

end
