(* ===== verification/Transport_Lifecycle.thy ===== *)
theory Transport_Lifecycle
  imports Net_Transport
begin

text \<open>
  Starting, reading and stopping the transports, as goroutines that interleave: the read loop of
  \<open>udp.go\<close>, the accept loop and the connection handlers of \<open>tcp.go\<close>, and \<open>Stop\<close>, which waits for
  them. Each program point between two operations on shared state is a value of \<open>pump_pc\<close>, each
  operation is a rule. The rules are divided into those a goroutine can take by itself
  (\<open>*_local\<close>), those that need the network (\<open>*_net\<close>), and the consumer that takes messages out
  of the channel.
\<close>

section \<open>A read loop\<close>

text \<open>
  Where a read loop is: before the check of \<open>stopCh\<close>, in the blocking read, and with a message before
  the first select, the draining select and the final blocking send.
\<close>

datatype 'm pump_pc = PCheck | PRead | PTry 'm | PDrain 'm | PPut 'm | PExit

text \<open>What a read gives: a message, bytes that do not decode, or an error.\<close>

datatype 'm reading = ReadMsg 'm | ReadBad | ReadErr

text \<open>The steps that touch only \<open>stopCh\<close> and the channel are the same in both transports.\<close>

inductive pump_step :: "nat \<Rightarrow> bool \<Rightarrow> 'm pump_pc \<times> 'm list \<Rightarrow> 'm pump_pc \<times> 'm list \<Rightarrow> bool"
  for cap :: nat and stopped :: bool where
  check_stop: "stopped \<Longrightarrow> pump_step cap stopped (PCheck, ch) (PExit, ch)"
| check_go: "\<not> stopped \<Longrightarrow> pump_step cap stopped (PCheck, ch) (PRead, ch)"
| try_ok: "length ch < cap \<Longrightarrow> pump_step cap stopped (PTry m, ch) (PCheck, ch @ [m])"
| try_full: "\<not> length ch < cap \<Longrightarrow> pump_step cap stopped (PTry m, ch) (PDrain m, ch)"
| drain: "pump_step cap stopped (PDrain m, ch) (PPut m, drop 1 ch)"
| put: "length ch < cap \<Longrightarrow> pump_step cap stopped (PPut m, ch) (PCheck, ch @ [m])"

inductive_simps pump_step_simps:
  "pump_step cap stopped (PCheck, ch) r" "pump_step cap stopped (PRead, ch) r" "pump_step cap stopped (PTry m, ch) r"
  "pump_step cap stopped (PDrain m, ch) r" "pump_step cap stopped (PPut m, ch) r" "pump_step cap stopped (PExit, ch) r"

text \<open>The progress of \<open>Stop\<close>: not called, \<open>stopCh\<close> closed, socket closed and waiting, returned.\<close>

datatype stop_pc = SIdle | SStop | SWait | SDone

section \<open>UDP\<close>

record 'm udp_state =
  us_stop :: bool
  us_closed :: bool
  us_ch :: "'m list"
  us_loop :: "'m pump_pc"
  us_stopper :: stop_pc

text \<open>After a successful \<open>Start\<close>.\<close>

definition udp_started :: "'m udp_state" where
  "udp_started = \<lparr>us_stop = False, us_closed = False, us_ch = [], us_loop = PCheck, us_stopper = SIdle\<rparr>"

datatype udp_start_error = UdpResolve | UdpListen

definition udp_Start :: "bool \<Rightarrow> bool \<Rightarrow> udp_start_error + 'm udp_state" where
  "udp_Start resolve_ok listen_ok =
     (if \<not> resolve_ok then Inl UdpResolve else if \<not> listen_ok then Inl UdpListen else Inr udp_started)"

text \<open>Where the loop goes after a read: an error ends it only when \<open>stopCh\<close> is closed.\<close>

definition udp_after_read :: "bool \<Rightarrow> 'm reading \<Rightarrow> 'm pump_pc" where
  "udp_after_read stopped x = (case x of ReadMsg m \<Rightarrow> PTry m | ReadBad \<Rightarrow> PCheck | ReadErr \<Rightarrow> if stopped then PExit else PCheck)"

inductive udp_local :: "nat \<Rightarrow> 'm udp_state \<Rightarrow> 'm udp_state \<Rightarrow> bool" for cap :: nat where
  udp_pump: "pump_step cap (us_stop s) (us_loop s, us_ch s) (pc, ch) \<Longrightarrow> udp_local cap s (s\<lparr>us_loop := pc, us_ch := ch\<rparr>)"
| udp_read_closed: "us_loop s = PRead \<Longrightarrow> us_closed s \<Longrightarrow>
    udp_local cap s (s\<lparr>us_loop := udp_after_read (us_stop s) ReadErr\<rparr>)"
| udp_stop_close: "us_stopper s = SStop \<Longrightarrow> udp_local cap s (s\<lparr>us_closed := True, us_stopper := SWait\<rparr>)"
| udp_stop_return: "us_stopper s = SWait \<Longrightarrow> us_loop s = PExit \<Longrightarrow> udp_local cap s (s\<lparr>us_stopper := SDone\<rparr>)"

inductive udp_net :: "'m udp_state \<Rightarrow> 'm udp_state \<Rightarrow> bool" where
  udp_read: "us_loop s = PRead \<Longrightarrow> \<not> us_closed s \<Longrightarrow> udp_net s (s\<lparr>us_loop := udp_after_read (us_stop s) x\<rparr>)"

inductive udp_outside :: "'m udp_state \<Rightarrow> 'm udp_state \<Rightarrow> bool" where
  udp_consume: "us_ch s = m # ms \<Longrightarrow> udp_outside s (s\<lparr>us_ch := ms\<rparr>)"
| udp_stop: "us_stopper s = SIdle \<Longrightarrow> udp_outside s (s\<lparr>us_stop := True, us_stopper := SStop\<rparr>)"

inductive udp_reach :: "nat \<Rightarrow> 'm udp_state \<Rightarrow> bool" for cap :: nat where
  udp_begin: "udp_reach cap udp_started"
| udp_own: "udp_reach cap s \<Longrightarrow> udp_local cap s s' \<Longrightarrow> udp_reach cap s'"
| udp_recv: "udp_reach cap s \<Longrightarrow> udp_net s s' \<Longrightarrow> udp_reach cap s'"
| udp_other: "udp_reach cap s \<Longrightarrow> udp_outside s s' \<Longrightarrow> udp_reach cap s'"

text \<open>
  With a single producer the channel keeps the room the draining made: the final send cannot block.
\<close>

definition udp_inv :: "nat \<Rightarrow> 'm udp_state \<Rightarrow> bool" where
  "udp_inv cap s \<longleftrightarrow> length (us_ch s) \<le> cap \<and>
     (\<forall>m. us_loop s = PPut m \<longrightarrow> length (us_ch s) < cap) \<and>
     us_stop s = (us_stopper s \<noteq> SIdle) \<and> us_closed s = (us_stopper s \<in> {SWait, SDone}) \<and>
     (us_stopper s = SDone \<longrightarrow> us_loop s = PExit) \<and> (us_loop s = PExit \<longrightarrow> us_stop s)"

lemma udp_inv_local: "0 < cap \<Longrightarrow> udp_inv cap s \<Longrightarrow> udp_local cap s s' \<Longrightarrow> udp_inv cap s'"
  by (erule udp_local.cases) (auto simp: udp_inv_def udp_after_read_def elim!: pump_step.cases)

lemma udp_inv_reach:
  assumes "0 < cap" and "udp_reach cap s"
  shows "udp_inv cap s"
  using assms(2)
proof (induction rule: udp_reach.induct)
  case udp_begin
  then show ?case by (simp add: udp_inv_def udp_started_def)
next
  case (udp_own s s')
  with udp_inv_local [OF assms(1)] show ?case by blast
next
  case (udp_recv s s')
  from udp_recv(2,3) show ?case
    by (cases rule: udp_net.cases) (auto simp: udp_inv_def udp_after_read_def split: reading.splits)
next
  case (udp_other s s')
  from udp_other(2,3) show ?case
    by (cases rule: udp_outside.cases) (auto simp: udp_inv_def)
qed

text \<open>How many steps are left once \<open>stopCh\<close> is closed.\<close>

fun pump_rank :: "'m pump_pc \<Rightarrow> nat" where
  "pump_rank PExit = 0"
| "pump_rank PCheck = 1"
| "pump_rank (PPut m) = 2"
| "pump_rank (PDrain m) = 3"
| "pump_rank (PTry m) = 4"
| "pump_rank PRead = 5"

fun stop_rank :: "stop_pc \<Rightarrow> nat" where
  "stop_rank SIdle = 3"
| "stop_rank SStop = 2"
| "stop_rank SWait = 1"
| "stop_rank SDone = 0"

definition udp_rank :: "'m udp_state \<Rightarrow> nat" where
  "udp_rank s = pump_rank (us_loop s) + stop_rank (us_stopper s)"

lemma pump_rank_step: "pump_step cap True (pc, ch) (pc', ch') \<Longrightarrow> pump_rank pc' < pump_rank pc"
  by (erule pump_step.cases) auto

lemma udp_local_rank: "us_stop s \<Longrightarrow> udp_local cap s s' \<Longrightarrow> udp_rank s' < udp_rank s \<and> us_stop s'"
  by (erule udp_local.cases) (auto simp: udp_rank_def udp_after_read_def dest: pump_rank_step)

lemma udp_net_rank: "us_stop s \<Longrightarrow> udp_net s s' \<Longrightarrow> udp_rank s' < udp_rank s \<and> us_stop s'"
  by (erule udp_net.cases) (auto simp: udp_rank_def udp_after_read_def split: reading.splits)

lemma udp_outside_rank: "us_stop s \<Longrightarrow> us_stopper s \<noteq> SIdle \<Longrightarrow> udp_outside s s' \<Longrightarrow> udp_rank s' = udp_rank s \<and> us_stop s'"
  by (erule udp_outside.cases) (auto simp: udp_rank_def)

lemma udp_progress:
  assumes "udp_inv cap s" and "us_stop s" and "us_stopper s \<noteq> SDone"
  shows "\<exists>s'. udp_local cap s s'"
proof (cases "us_stopper s = SStop")
  case True
  then show ?thesis by (blast intro: udp_stop_close)
next
  case False
  with assms have w: "us_stopper s = SWait" "us_closed s" by (cases "us_stopper s"; simp add: udp_inv_def)+
  show ?thesis
  proof (cases "us_loop s")
    case PRead
    with w(2) show ?thesis by (blast intro: udp_read_closed)
  next
    case PExit
    with w(1) show ?thesis by (blast intro: udp_stop_return)
  next
    case (PPut m)
    with assms(1) have "length (us_ch s) < cap" by (simp add: udp_inv_def)
    with PPut show ?thesis by (metis udp_pump put)
  qed (use assms(2) in \<open>metis udp_pump check_stop try_ok try_full drain\<close>)+
qed

lemma udp_done_quiet: "udp_inv cap s \<Longrightarrow> us_stopper s = SDone \<Longrightarrow> \<not> udp_local cap s s' \<and> \<not> udp_net s s'"
  by (auto simp: udp_inv_def elim!: udp_local.cases udp_net.cases pump_step.cases)

text \<open>Runs in which \<open>n\<close> steps are taken by the transport or the network, and any number by the outside.\<close>

inductive udp_work :: "nat \<Rightarrow> 'm udp_state \<Rightarrow> nat \<Rightarrow> 'm udp_state \<Rightarrow> bool" for cap :: nat and s where
  work_none: "udp_work cap s 0 s"
| work_own: "udp_work cap s n u \<Longrightarrow> udp_local cap u v \<Longrightarrow> udp_work cap s (Suc n) v"
| work_net: "udp_work cap s n u \<Longrightarrow> udp_net u v \<Longrightarrow> udp_work cap s (Suc n) v"
| work_outside: "udp_work cap s n u \<Longrightarrow> udp_outside u v \<Longrightarrow> udp_work cap s n v"

lemma udp_work_reach: "udp_work cap s n u \<Longrightarrow> udp_reach cap s \<Longrightarrow> udp_reach cap u"
  by (induction rule: udp_work.induct) (auto intro: udp_reach.intros)

lemma udp_work_rank:
  assumes "0 < cap" and "udp_work cap s n u" and "udp_reach cap s" and "us_stop s"
  shows "us_stop u \<and> n + udp_rank u \<le> udp_rank s"
  using assms(2-4)
proof (induction rule: udp_work.induct)
  case (work_own n u v)
  with udp_local_rank [of u cap v] show ?case by fastforce
next
  case (work_net n u v)
  with udp_net_rank [of u v] show ?case by fastforce
next
  case (work_outside n u v)
  then have "udp_inv cap u" using udp_inv_reach [OF assms(1)] udp_work_reach by blast
  with work_outside udp_outside_rank [of u v] show ?case by (simp add: udp_inv_def)
qed simp

section \<open>TCP\<close>

text \<open>
  The listener's accept loop and one handler per inbound connection. The outbound pool is closed by
  \<open>Stop\<close>, the inbound connections are not; a handler leaves its read only when the peer sends or
  closes.
\<close>

datatype accept_pc = AAccept | AExit

record 'm tcp_state =
  ts_stop :: bool
  ts_closed :: bool
  ts_ch :: "'m list"
  ts_accept :: accept_pc
  ts_conns :: "'m pump_pc list"
  ts_stopper :: stop_pc

definition tcp_started :: "'m tcp_state" where
  "tcp_started = \<lparr>ts_stop = False, ts_closed = False, ts_ch = [], ts_accept = AAccept, ts_conns = [], ts_stopper = SIdle\<rparr>"

definition tcp_Start :: "bool \<Rightarrow> unit + 'm tcp_state" where
  "tcp_Start listen_ok = (if \<not> listen_ok then Inl () else Inr tcp_started)"

text \<open>Any error of \<open>readFrame\<close> ends the handler.\<close>

definition tcp_after_read :: "'m reading \<Rightarrow> 'm pump_pc" where
  "tcp_after_read x = (case x of ReadMsg m \<Rightarrow> PTry m | ReadBad \<Rightarrow> PExit | ReadErr \<Rightarrow> PExit)"

inductive tcp_local :: "nat \<Rightarrow> 'm tcp_state \<Rightarrow> 'm tcp_state \<Rightarrow> bool" for cap :: nat where
  tcp_pump: "i < length (ts_conns s) \<Longrightarrow> pump_step cap (ts_stop s) (ts_conns s ! i, ts_ch s) (pc, ch) \<Longrightarrow>
    tcp_local cap s (s\<lparr>ts_conns := (ts_conns s)[i := pc], ts_ch := ch\<rparr>)"
| tcp_accept_closed: "ts_accept s = AAccept \<Longrightarrow> ts_closed s \<Longrightarrow> ts_stop s \<Longrightarrow> tcp_local cap s (s\<lparr>ts_accept := AExit\<rparr>)"
| tcp_stop_close: "ts_stopper s = SStop \<Longrightarrow> tcp_local cap s (s\<lparr>ts_closed := True, ts_stopper := SWait\<rparr>)"
| tcp_stop_return: "ts_stopper s = SWait \<Longrightarrow> ts_accept s = AExit \<Longrightarrow> set (ts_conns s) \<subseteq> {PExit} \<Longrightarrow>
    tcp_local cap s (s\<lparr>ts_stopper := SDone\<rparr>)"

inductive tcp_net :: "'m tcp_state \<Rightarrow> 'm tcp_state \<Rightarrow> bool" where
  tcp_accept: "ts_accept s = AAccept \<Longrightarrow> \<not> ts_closed s \<Longrightarrow> tcp_net s (s\<lparr>ts_conns := ts_conns s @ [PCheck]\<rparr>)"
| tcp_read: "i < length (ts_conns s) \<Longrightarrow> ts_conns s ! i = PRead \<Longrightarrow>
    tcp_net s (s\<lparr>ts_conns := (ts_conns s)[i := tcp_after_read x]\<rparr>)"

inductive tcp_outside :: "'m tcp_state \<Rightarrow> 'm tcp_state \<Rightarrow> bool" where
  tcp_consume: "ts_ch s = m # ms \<Longrightarrow> tcp_outside s (s\<lparr>ts_ch := ms\<rparr>)"
| tcp_stop: "ts_stopper s = SIdle \<Longrightarrow> tcp_outside s (s\<lparr>ts_stop := True, ts_stopper := SStop\<rparr>)"

inductive tcp_reach :: "nat \<Rightarrow> 'm tcp_state \<Rightarrow> bool" for cap :: nat where
  tcp_begin: "tcp_reach cap tcp_started"
| tcp_own: "tcp_reach cap s \<Longrightarrow> tcp_local cap s s' \<Longrightarrow> tcp_reach cap s'"
| tcp_recv: "tcp_reach cap s \<Longrightarrow> tcp_net s s' \<Longrightarrow> tcp_reach cap s'"
| tcp_other: "tcp_reach cap s \<Longrightarrow> tcp_outside s s' \<Longrightarrow> tcp_reach cap s'"

text \<open>
  What \<open>Stop\<close> does to the outbound pool: it closes the dialled connections and leaves the entries as
  they are. The result is the addresses whose connection is closed; a write to one of them fails.
\<close>

definition tcp_close_pool :: "tcp_pool \<Rightarrow> string list" where
  "tcp_close_pool pool = map fst (filter (\<lambda>(a, c). conn c \<noteq> None) pool)"

text \<open>
  A stopped transport still sends: the first \<open>Send\<close> to a closed connection fails and clears it, and the
  next one dials again.
\<close>

lemma tcp_send_after_stop:
  assumes "written pool addr = Some w"
    and "tcp_Send enc dial_ok (addr \<notin> set (tcp_close_pool pool)) pool addr m = (pool', e)"
  shows "e = Some WriteFailed \<and> snd (tcp_Send enc True True pool' addr m') = None \<and>
    written (fst (tcp_Send enc True True pool' addr m')) addr = Some (makeFrame (enc m'))"
proof -
  from assms(1) obtain c where "gm_lookup pool addr = Some c" "conn c = Some w"
    by (auto simp: written_def Option.bind_eq_Some_conv)
  then have "addr \<in> set (tcp_close_pool pool)" by (force simp: tcp_close_pool_def dest: map_of_SomeD)
  with assms have "written pool' addr = None" "e = Some WriteFailed"
    using written_tcp_Send [of enc dial_ok False pool addr m addr] tcp_Send_error [of enc dial_ok False pool addr m] by simp_all
  then show ?thesis by (simp add: tcp_Send_error written_tcp_Send)
qed

text \<open>Without the network, a handler that is reading stays there, and \<open>Stop\<close> cannot return.\<close>

definition reading_at :: "nat \<Rightarrow> 'm tcp_state \<Rightarrow> bool" where
  "reading_at i s \<longleftrightarrow> i < length (ts_conns s) \<and> ts_conns s ! i = PRead \<and> ts_stopper s \<noteq> SDone"

lemma reading_at_local: "reading_at i s \<Longrightarrow> tcp_local cap s s' \<Longrightarrow> reading_at i s'"
proof (erule tcp_local.cases)
  fix j u pc ch
  assume r: "reading_at i s" and u: "s = u" "s' = u\<lparr>ts_conns := (ts_conns u)[j := pc], ts_ch := ch\<rparr>"
    and p: "pump_step cap (ts_stop u) (ts_conns u ! j, ts_ch u) (pc, ch)"
  from r p u(1) have "j \<noteq> i" by (auto simp: reading_at_def pump_step_simps)
  with r u show "reading_at i s'" by (simp add: reading_at_def)
next
  fix u
  assume "reading_at i s" "s = u" "set (ts_conns u) \<subseteq> {PExit}"
  then have False by (force simp: reading_at_def dest: nth_mem)
  then show "reading_at i s'" ..
qed (auto simp: reading_at_def)

lemma reading_at_outside: "reading_at i s \<Longrightarrow> tcp_outside s s' \<Longrightarrow> reading_at i s'"
  by (erule tcp_outside.cases) (auto simp: reading_at_def)

text \<open>
  The final send of a handler can block for good: another handler may refill the slot it drained. Here
  two handlers share a channel of one slot, \<open>Stop\<close> was called and the consumer has gone; the first
  handler waits for room, \<open>Stop\<close> waits for the handler, and neither the transport nor the network can
  take a step.
\<close>

definition tcp_jam :: "nat tcp_state" where
  "tcp_jam = \<lparr>ts_stop = True, ts_closed = True, ts_ch = [2], ts_accept = AExit, ts_conns = [PPut 1, PExit], ts_stopper = SWait\<rparr>"

lemma tcp_own_pump: "tcp_reach cap s \<Longrightarrow> i < length (ts_conns s) \<Longrightarrow>
    pump_step cap (ts_stop s) (ts_conns s ! i, ts_ch s) (pc, ch) \<Longrightarrow>
    tcp_reach cap (s\<lparr>ts_conns := (ts_conns s)[i := pc], ts_ch := ch\<rparr>)"
  by (rule tcp_own [OF _ tcp_pump])

lemma tcp_own_read: "tcp_reach cap s \<Longrightarrow> i < length (ts_conns s) \<Longrightarrow> ts_conns s ! i = PRead \<Longrightarrow>
    tcp_reach cap (s\<lparr>ts_conns := (ts_conns s)[i := tcp_after_read x]\<rparr>)"
  by (rule tcp_recv [OF _ tcp_read])

lemma tcp_stop_can_deadlock: "tcp_reach 1 tcp_jam \<and> \<not> tcp_local 1 tcp_jam s \<and> \<not> tcp_net tcp_jam s"
proof
  let ?st = "\<lambda>h g ch. tcp_started\<lparr>ts_conns := [h, g], ts_ch := ch\<rparr> :: nat tcp_state"
  have r0: "tcp_reach 1 (?st PCheck PCheck [])"
    using tcp_recv [OF tcp_recv [OF tcp_begin tcp_accept] tcp_accept, of 1] by (simp add: tcp_started_def)
  have r1: "tcp_reach 1 (?st PRead PCheck [])"
    using tcp_own_pump [OF r0, of 0 PRead "[]"] by (simp add: tcp_started_def pump_step_simps)
  have r2: "tcp_reach 1 (?st (PTry 0) PCheck [])"
    using tcp_own_read [OF r1, of 0 "ReadMsg 0"] by (simp add: tcp_started_def tcp_after_read_def)
  have r3: "tcp_reach 1 (?st PCheck PCheck [0])"
    using tcp_own_pump [OF r2, of 0 PCheck "[0]"] by (simp add: tcp_started_def pump_step_simps)
  have r4: "tcp_reach 1 (?st PRead PCheck [0])"
    using tcp_own_pump [OF r3, of 0 PRead "[0]"] by (simp add: tcp_started_def pump_step_simps)
  have r5: "tcp_reach 1 (?st (PTry 1) PCheck [0])"
    using tcp_own_read [OF r4, of 0 "ReadMsg 1"] by (simp add: tcp_started_def tcp_after_read_def)
  have r6: "tcp_reach 1 (?st (PDrain 1) PCheck [0])"
    using tcp_own_pump [OF r5, of 0 "PDrain 1" "[0]"] by (simp add: tcp_started_def pump_step_simps)
  have r7: "tcp_reach 1 (?st (PPut 1) PCheck [])"
    using tcp_own_pump [OF r6, of 0 "PPut 1" "[]"] by (simp add: tcp_started_def pump_step_simps)
  have r8: "tcp_reach 1 (?st (PPut 1) PRead [])"
    using tcp_own_pump [OF r7, of 1 PRead "[]"] by (simp add: tcp_started_def pump_step_simps)
  have r9: "tcp_reach 1 (?st (PPut 1) (PTry 2) [])"
    using tcp_own_read [OF r8, of 1 "ReadMsg 2"] by (simp add: tcp_started_def tcp_after_read_def)
  have r10: "tcp_reach 1 (?st (PPut 1) PCheck [2])"
    using tcp_own_pump [OF r9, of 1 PCheck "[2]"] by (simp add: tcp_started_def pump_step_simps)
  have r11: "tcp_reach 1 ((?st (PPut 1) PCheck [2])\<lparr>ts_stop := True, ts_closed := True, ts_stopper := SWait\<rparr>)"
    using tcp_own [OF tcp_other [OF r10 tcp_stop] tcp_stop_close] by (simp add: tcp_started_def)
  show "tcp_reach 1 tcp_jam"
    using tcp_own [OF tcp_own_pump [OF r11, of 1 PExit "[2]"] tcp_accept_closed]
    by (simp add: tcp_started_def tcp_jam_def pump_step_simps)
  show "\<not> tcp_local 1 tcp_jam s \<and> \<not> tcp_net tcp_jam s"
    by (auto simp: tcp_jam_def pump_step_simps less_Suc_eq nth_Cons' elim!: tcp_local.cases tcp_net.cases split: if_splits)
qed

section \<open>Properties\<close>

text \<open>
  C25. Stopping the UDP transport terminates: from any reachable state in which \<open>Stop\<close> has closed
  \<open>stopCh\<close>, the read loop and \<open>Stop\<close> take at most seven steps together, whatever arrives and whatever
  the consumer does or no longer does. As long as \<open>Stop\<close> has not returned, one of them can take a
  step, so that the final send into the channel never blocks; once it has returned, the transport
  takes no further step and puts nothing more into the channel.
\<close>

theorem udp_stop_returns:
  assumes "0 < cap" and "udp_reach cap s" and "us_stop s" and "udp_work cap s n s'"
  shows "n \<le> 7 \<and>
    (if us_stopper s' = SDone then \<nexists>s''. udp_local cap s' s'' \<or> udp_net s' s'' else \<exists>s''. udp_local cap s' s'')"
proof -
  have w: "us_stop s'" "n + udp_rank s' \<le> udp_rank s" using udp_work_rank [OF assms(1,4,2,3)] by simp_all
  have "us_stopper s \<noteq> SIdle" using udp_inv_reach [OF assms(1,2)] assms(3) by (simp add: udp_inv_def)
  then have "stop_rank (us_stopper s) \<le> 2" by (cases "us_stopper s") simp_all
  moreover have "pump_rank (us_loop s) \<le> 5" by (cases "us_loop s") simp_all
  ultimately have "n \<le> 7" using w(2) by (simp add: udp_rank_def)
  moreover have "us_stopper s' \<noteq> SDone \<Longrightarrow> \<exists>s''. udp_local cap s' s''"
    using udp_progress [OF udp_inv_reach [OF assms(1) udp_work_reach [OF assms(4,2)]] w(1)] .
  moreover have "us_stopper s' = SDone \<Longrightarrow> \<nexists>s''. udp_local cap s' s'' \<or> udp_net s' s''"
    using udp_done_quiet [OF udp_inv_reach [OF assms(1) udp_work_reach [OF assms(4,2)]]] by blast
  ultimately show ?thesis by simp
qed

text \<open>A loop blocked in its read when \<open>Stop\<close> is called.\<close>

definition udp_blocked :: "nat udp_state" where
  "udp_blocked = udp_started\<lparr>us_loop := PRead, us_stop := True, us_stopper := SStop\<rparr>"

theorem udp_stop_returns_witness:
  "udp_reach 1 udp_blocked \<and> us_stop udp_blocked \<and> (\<exists>s''. udp_local 1 udp_blocked s'')"
proof -
  have "udp_local 1 udp_started (udp_started\<lparr>us_loop := PRead, us_ch := []\<rparr> :: nat udp_state)"
    by (rule udp_pump) (simp add: udp_started_def pump_step_simps)
  then have "udp_reach 1 (udp_started\<lparr>us_loop := PRead\<rparr> :: nat udp_state)"
    using udp_own [OF udp_begin] by (fastforce simp: udp_started_def)
  moreover have "udp_outside (udp_started\<lparr>us_loop := PRead\<rparr> :: nat udp_state) udp_blocked"
    using udp_stop [of "udp_started\<lparr>us_loop := PRead\<rparr> :: nat udp_state"] by (simp add: udp_blocked_def udp_started_def)
  ultimately have r: "udp_reach 1 udp_blocked" by (rule udp_other)
  have b: "us_stop udp_blocked" "us_stopper udp_blocked \<noteq> SDone" by (simp_all add: udp_blocked_def)
  from udp_stop_returns [OF _ r b(1) work_none] r b show ?thesis by simp
qed

text \<open>
  C38. Stopping the TCP transport waits for the peers: once a connection handler is blocked in its read,
  no sequence of steps of the transport itself and of its consumer lets \<open>Stop\<close> return; only the
  remote side can end the wait, by sending or closing. \<open>Stop\<close> closes the outbound connections but not
  the inbound ones.
\<close>

theorem tcp_stop_waits_for_peer:
  assumes "i < length (ts_conns s)" and "ts_conns s ! i = PRead" and "ts_stopper s \<noteq> SDone"
    and "(\<lambda>u v. tcp_local cap u v \<or> tcp_outside u v)\<^sup>*\<^sup>* s s'"
  shows "ts_stopper s' \<noteq> SDone \<and> ts_conns s' ! i = PRead"
proof -
  have "reading_at i s'"
    using assms(4)
  proof (induction rule: rtranclp_induct)
    case base
    from assms(1-3) show ?case by (simp add: reading_at_def)
  next
    case (step u v)
    then show ?case using reading_at_local reading_at_outside by blast
  qed
  then show ?thesis by (simp add: reading_at_def)
qed

text \<open>One idle inbound connection and a \<open>Stop\<close> that waits: no local step is left.\<close>

definition tcp_idle :: "nat tcp_state" where
  "tcp_idle = tcp_started\<lparr>ts_conns := [PRead], ts_stop := True, ts_closed := True, ts_accept := AExit, ts_stopper := SWait\<rparr>"

lemma tcp_idle_reach: "tcp_reach 1 tcp_idle"
proof -
  let ?a = "tcp_started\<lparr>ts_conns := [PCheck]\<rparr> :: nat tcp_state"
  let ?b = "tcp_started\<lparr>ts_conns := [PRead]\<rparr> :: nat tcp_state"
  let ?c = "?b\<lparr>ts_stop := True, ts_stopper := SStop\<rparr>"
  let ?d = "?c\<lparr>ts_closed := True, ts_stopper := SWait\<rparr>"
  have "tcp_reach 1 ?a" using tcp_recv [OF tcp_begin] tcp_accept [of tcp_started] by (fastforce simp: tcp_started_def)
  moreover have "tcp_local 1 ?a ?b"
    using tcp_pump [of 0 ?a 1 PRead "[]"] by (simp add: tcp_started_def pump_step_simps)
  ultimately have "tcp_reach 1 ?b" by (rule tcp_own)
  moreover have "tcp_outside ?b ?c" by (rule tcp_stop) (simp add: tcp_started_def)
  ultimately have "tcp_reach 1 ?c" by (rule tcp_other)
  moreover have "tcp_local 1 ?c ?d" by (rule tcp_stop_close) simp
  ultimately have "tcp_reach 1 ?d" by (rule tcp_own)
  moreover have "tcp_local 1 ?d (?d\<lparr>ts_accept := AExit\<rparr>)" by (rule tcp_accept_closed) (simp_all add: tcp_started_def)
  ultimately have "tcp_reach 1 (?d\<lparr>ts_accept := AExit\<rparr>)" by (rule tcp_own)
  then show ?thesis by (simp add: tcp_idle_def tcp_started_def)
qed

theorem tcp_stop_waits_for_peer_witness:
  "tcp_reach 1 tcp_idle \<and> ts_stopper tcp_idle = SWait \<and>
     (\<nexists>s'. (\<lambda>u v. tcp_local 1 u v \<or> tcp_outside u v)\<^sup>*\<^sup>* tcp_idle s' \<and> ts_stopper s' = SDone)"
proof -
  have "0 < length (ts_conns tcp_idle)" "ts_conns tcp_idle ! 0 = PRead" "ts_stopper tcp_idle = SWait"
    by (simp_all add: tcp_idle_def)
  with tcp_stop_waits_for_peer [of 0 tcp_idle] tcp_idle_reach show ?thesis by auto
qed

end
