(* ===== verification/Transport_Contract.thy ===== *)
theory Transport_Contract
  imports Transport_Lifecycle
begin

text \<open>
  The interface of \<open>node/transport/transport.go\<close> as a contract, with the two transports as its
  implementations: what the reader of \<open>Recv\<close> may rely on while the transport runs and after \<open>Stop\<close>
  has returned.
\<close>

section \<open>The interface\<close>

text \<open>
  \<open>own\<close>, \<open>net\<close> and \<open>outside\<close> are the steps of the transport, of the network and of its user (the reader,
  and the call of \<open>Stop\<close>); \<open>stopped\<close> holds when \<open>Stop\<close> has returned.
\<close>

locale transport =
  fixes own :: "'s \<Rightarrow> 's \<Rightarrow> bool"
    and net :: "'s \<Rightarrow> 's \<Rightarrow> bool"
    and outside :: "'s \<Rightarrow> 's \<Rightarrow> bool"
    and reach :: "'s \<Rightarrow> bool"
    and started :: 's
    and chan :: "'s \<Rightarrow> 'm list"
    and cap :: nat
    and stopped :: "'s \<Rightarrow> bool"
  assumes begins: "reach started" "chan started = []" "\<not> stopped started"
    and reach_step: "reach s \<Longrightarrow> own s s' \<or> net s s' \<or> outside s s' \<Longrightarrow> reach s'"
    and bounded: "reach s \<Longrightarrow> length (chan s) \<le> cap"
    and quiet: "reach s \<Longrightarrow> stopped s \<Longrightarrow> \<not> own s s' \<and> \<not> net s s'"
    and reader: "outside s s' \<Longrightarrow> stopped s' = stopped s \<and> (chan s' = chan s \<or> (\<exists>m. chan s = m # chan s'))"
begin

definition step :: "'s \<Rightarrow> 's \<Rightarrow> bool" where
  "step s s' \<longleftrightarrow> own s s' \<or> net s s' \<or> outside s s'"

lemma reach_steps: "step\<^sup>*\<^sup>* s s' \<Longrightarrow> reach s \<Longrightarrow> reach s'"
  by (induction rule: rtranclp_induct) (auto simp: step_def intro: reach_step)

lemma after_stop:
  assumes "step\<^sup>*\<^sup>* s s'" and "reach s" and "stopped s"
  shows "stopped s' \<and> (\<exists>got. chan s = got @ chan s' \<and> length got \<le> cap)"
  using assms(1)
proof (induction rule: rtranclp_induct)
  case base
  from assms(3) show ?case by simp
next
  case (step u v)
  from step.IH obtain got where u: "stopped u" "chan s = got @ chan u" by blast
  have "reach u" using reach_steps [OF step.hyps(1) assms(2)] .
  with quiet u(1) step.hyps(2) have v: "outside u v" by (auto simp: step_def)
  from reader [OF v] obtain more where "stopped v" "chan u = more @ chan v" using u(1) by (metis append_Cons append_Nil)
  moreover from this u(2) have "length (got @ more) \<le> cap" using bounded [OF assms(2)] by simp
  ultimately show ?case using u(2) by (metis append_assoc)
qed

end

section \<open>UDP\<close>

text \<open>\<open>LocalAddr\<close>: the address of the socket once there is one.\<close>

definition udp_LocalAddr :: "string option \<Rightarrow> string \<Rightarrow> string" where
  "udp_LocalAddr bound addr = (case bound of Some a \<Rightarrow> a | None \<Rightarrow> addr)"

interpretation udp_transport: transport "udp_local (recv_cap b)" udp_net udp_outside "udp_reach (recv_cap b)" udp_started us_ch
    "recv_cap b" "\<lambda>s. us_stopper s = SDone" for b
proof
  show "udp_reach (recv_cap b) udp_started" by (rule udp_begin)
  show "us_ch udp_started = []" "\<not> us_stopper udp_started = SDone" by (simp_all add: udp_started_def)
next
  fix s s' :: "'a udp_state"
  show "udp_reach (recv_cap b) s'" if "udp_reach (recv_cap b) s" "udp_local (recv_cap b) s s' \<or> udp_net s s' \<or> udp_outside s s'"
    using that by (auto intro: udp_reach.intros)
  show "length (us_ch s) \<le> recv_cap b" if "udp_reach (recv_cap b) s"
    using udp_inv_reach [OF recv_cap_pos that] by (simp add: udp_inv_def)
  show "\<not> udp_local (recv_cap b) s s' \<and> \<not> udp_net s s'" if "udp_reach (recv_cap b) s" "us_stopper s = SDone"
    using udp_done_quiet [OF udp_inv_reach [OF recv_cap_pos that(1)] that(2)] .
  show "(us_stopper s' = SDone) = (us_stopper s = SDone) \<and> (us_ch s' = us_ch s \<or> (\<exists>m. us_ch s = m # us_ch s'))" if "udp_outside s s'"
    using that by (auto elim!: udp_outside.cases)
qed

section \<open>TCP\<close>

definition tcp_LocalAddr :: "string option \<Rightarrow> string \<Rightarrow> string" where
  "tcp_LocalAddr bound addr = (case bound of Some a \<Rightarrow> a | None \<Rightarrow> addr)"

definition tcp_inv :: "nat \<Rightarrow> 'm tcp_state \<Rightarrow> bool" where
  "tcp_inv cap s \<longleftrightarrow> length (ts_ch s) \<le> cap \<and>
     (ts_stopper s = SDone \<longrightarrow> ts_accept s = AExit \<and> set (ts_conns s) \<subseteq> {PExit})"

lemma pump_step_bound: "pump_step cap stopped (pc, ch) (pc', ch') \<Longrightarrow> length ch \<le> cap \<Longrightarrow> length ch' \<le> cap"
  by (erule pump_step.cases) auto

lemma pump_exit: "set pcs \<subseteq> {PExit} \<Longrightarrow> i < length pcs \<Longrightarrow> pcs ! i = PExit"
  by (auto dest: nth_mem)

lemma tcp_done_quiet:
  assumes "tcp_inv cap s" and "ts_stopper s = SDone"
  shows "\<not> tcp_local cap s s' \<and> \<not> tcp_net s s'"
proof -
  have s: "ts_accept s = AExit" "set (ts_conns s) \<subseteq> {PExit}" using assms by (simp_all add: tcp_inv_def)
  note exit = pump_exit [OF s(2)]
  show ?thesis using assms(2) s(1) exit
    by (auto simp: pump_step_simps elim!: tcp_local.cases tcp_net.cases)
qed

lemma tcp_inv_local: "tcp_inv cap s \<Longrightarrow> tcp_local cap s s' \<Longrightarrow> tcp_inv cap s'"
proof (cases "ts_stopper s = SDone")
  case True
  moreover assume "tcp_inv cap s" "tcp_local cap s s'"
  ultimately show ?thesis using tcp_done_quiet by blast
next
  case False
  moreover assume "tcp_inv cap s" "tcp_local cap s s'"
  ultimately show ?thesis by (auto simp: tcp_inv_def elim!: tcp_local.cases dest: pump_step_bound)
qed

lemma tcp_inv_reach: "tcp_reach cap s \<Longrightarrow> tcp_inv cap s"
proof (induction rule: tcp_reach.induct)
  case tcp_begin
  then show ?case by (simp add: tcp_inv_def tcp_started_def)
next
  case (tcp_own s s')
  then show ?case using tcp_inv_local by blast
next
  case (tcp_recv s s')
  have "ts_stopper s \<noteq> SDone" using tcp_done_quiet tcp_recv by blast
  with tcp_recv(2,3) show ?case by (cases rule: tcp_net.cases) (auto simp: tcp_inv_def)
next
  case (tcp_other s s')
  from tcp_other(2,3) show ?case by (cases rule: tcp_outside.cases) (auto simp: tcp_inv_def)
qed

interpretation tcp_transport: transport "tcp_local (recv_cap b)" tcp_net tcp_outside "tcp_reach (recv_cap b)" tcp_started ts_ch
    "recv_cap b" "\<lambda>s. ts_stopper s = SDone" for b
proof
  show "tcp_reach (recv_cap b) tcp_started" by (rule tcp_begin)
  show "ts_ch tcp_started = []" "\<not> ts_stopper tcp_started = SDone" by (simp_all add: tcp_started_def)
next
  fix s s' :: "'a tcp_state"
  show "tcp_reach (recv_cap b) s'" if "tcp_reach (recv_cap b) s" "tcp_local (recv_cap b) s s' \<or> tcp_net s s' \<or> tcp_outside s s'"
    using that by (auto intro: tcp_reach.intros)
  show "length (ts_ch s) \<le> recv_cap b" if "tcp_reach (recv_cap b) s"
    using tcp_inv_reach [OF that] by (simp add: tcp_inv_def)
  show "\<not> tcp_local (recv_cap b) s s' \<and> \<not> tcp_net s s'" if "tcp_reach (recv_cap b) s" "ts_stopper s = SDone"
    using tcp_done_quiet [OF tcp_inv_reach [OF that(1)] that(2)] .
  show "(ts_stopper s' = SDone) = (ts_stopper s = SDone) \<and> (ts_ch s' = ts_ch s \<or> (\<exists>m. ts_ch s = m # ts_ch s'))" if "tcp_outside s s'"
    using that by (auto elim!: tcp_outside.cases)
qed

section \<open>Properties\<close>

text \<open>
  C30. After \<open>Stop\<close> nothing new arrives: once \<open>Stop\<close> of a UDP or TCP transport has returned, whatever
  the network sends and however often the channel is read, the reader only gets messages that were
  in the channel at that moment, in their order, and so no more than the channel can hold.
\<close>

theorem nothing_new_after_stop:
  assumes "udp_reach (recv_cap b) s" and "us_stopper s = SDone"
    and "(\<lambda>u v. udp_local (recv_cap b) u v \<or> udp_net u v \<or> udp_outside u v)\<^sup>*\<^sup>* s s'"
    and "tcp_reach (recv_cap d) t" and "ts_stopper t = SDone"
    and "(\<lambda>u v. tcp_local (recv_cap d) u v \<or> tcp_net u v \<or> tcp_outside u v)\<^sup>*\<^sup>* t t'"
  shows "(\<exists>got. us_ch s = got @ us_ch s' \<and> length got \<le> recv_cap b) \<and>
    (\<exists>got. ts_ch t = got @ ts_ch t' \<and> length got \<le> recv_cap d)"
proof -
  have "(udp_transport.step b)\<^sup>*\<^sup>* s s'" using assms(3) by (simp add: udp_transport.step_def [abs_def])
  with udp_transport.after_stop assms(1,2) have "\<exists>got. us_ch s = got @ us_ch s' \<and> length got \<le> recv_cap b" by blast
  moreover have "(tcp_transport.step d)\<^sup>*\<^sup>* t t'" using assms(6) by (simp add: tcp_transport.step_def [abs_def])
  with tcp_transport.after_stop assms(4,5) have "\<exists>got. ts_ch t = got @ ts_ch t' \<and> length got \<le> recv_cap d" by blast
  ultimately show ?thesis ..
qed

text \<open>A UDP transport stopped with one message in its channel, and a TCP transport stopped without connections.\<close>

definition udp_left :: "nat udp_state" where
  "udp_left = \<lparr>us_stop = True, us_closed = True, us_ch = [7], us_loop = PExit, us_stopper = SDone\<rparr>"

definition tcp_left :: "nat tcp_state" where
  "tcp_left = \<lparr>ts_stop = True, ts_closed = True, ts_ch = [], ts_accept = AExit, ts_conns = [], ts_stopper = SDone\<rparr>"

lemma udp_left_reach: "udp_reach (recv_cap 1) udp_left"
proof -
  let ?st = "\<lambda>pc ch. udp_started\<lparr>us_loop := pc, us_ch := ch\<rparr> :: nat udp_state"
  have pump: "udp_reach (recv_cap 1) (s\<lparr>us_loop := pc, us_ch := ch\<rparr>)"
    if "udp_reach (recv_cap 1) s" "pump_step (recv_cap 1) (us_stop s) (us_loop s, us_ch s) (pc, ch)" for s :: "nat udp_state" and pc ch
    using udp_own [OF that(1) udp_pump [OF that(2)]] .
  have "udp_reach (recv_cap 1) (?st PRead [])"
    by (rule pump [OF udp_begin]) (simp add: udp_started_def pump_step_simps)
  then have "udp_reach (recv_cap 1) (?st (PTry 7) [])"
    using udp_recv [OF _ udp_read, of "recv_cap 1" "?st PRead []" "ReadMsg 7"] by (simp add: udp_started_def udp_after_read_def)
  from pump [OF this, of PCheck "[7]"] have "udp_reach (recv_cap 1) (?st PCheck [7])"
    by (simp add: udp_started_def pump_step_simps recv_cap_pos)
  from udp_other [OF this udp_stop] have "udp_reach (recv_cap 1) ((?st PCheck [7])\<lparr>us_stop := True, us_stopper := SStop\<rparr>)"
    by (simp add: udp_started_def)
  from pump [OF this, of PExit "[7]"] have "udp_reach (recv_cap 1) ((?st PExit [7])\<lparr>us_stop := True, us_stopper := SStop\<rparr>)"
    by (simp add: udp_started_def pump_step_simps)
  from udp_own [OF this udp_stop_close] have
    "udp_reach (recv_cap 1) ((?st PExit [7])\<lparr>us_stop := True, us_closed := True, us_stopper := SWait\<rparr>)" by (simp add: udp_started_def)
  from udp_own [OF this udp_stop_return] show ?thesis by (simp add: udp_started_def udp_left_def)
qed

lemma tcp_left_reach: "tcp_reach (recv_cap 1) tcp_left"
proof -
  have "tcp_reach (recv_cap 1) (tcp_started\<lparr>ts_stop := True, ts_stopper := SStop\<rparr> :: nat tcp_state)"
    by (rule tcp_other [OF tcp_begin tcp_stop]) (simp add: tcp_started_def)
  from tcp_own [OF this tcp_stop_close] have
    "tcp_reach (recv_cap 1) (tcp_started\<lparr>ts_stop := True, ts_closed := True, ts_stopper := SWait\<rparr> :: nat tcp_state)" by (simp add: tcp_started_def)
  from tcp_own [OF this tcp_accept_closed] have
    "tcp_reach (recv_cap 1) (tcp_started\<lparr>ts_stop := True, ts_closed := True, ts_accept := AExit, ts_stopper := SWait\<rparr> :: nat tcp_state)"
    by (simp add: tcp_started_def)
  from tcp_own [OF this tcp_stop_return] show ?thesis by (simp add: tcp_started_def tcp_left_def)
qed

theorem nothing_new_after_stop_witness:
  "udp_reach (recv_cap 1) udp_left \<and> udp_outside udp_left (udp_left\<lparr>us_ch := []\<rparr>) \<and>
   (\<exists>got. us_ch udp_left = got @ us_ch (udp_left\<lparr>us_ch := []\<rparr>) \<and> length got \<le> recv_cap 1)"
proof -
  have c: "udp_outside udp_left (udp_left\<lparr>us_ch := []\<rparr>)" by (rule udp_consume [of _ 7]) (simp add: udp_left_def)
  then have "(\<lambda>u v. udp_local (recv_cap 1) u v \<or> udp_net u v \<or> udp_outside u v)\<^sup>*\<^sup>* udp_left (udp_left\<lparr>us_ch := []\<rparr>)" by blast
  from nothing_new_after_stop [OF udp_left_reach _ this tcp_left_reach _ rtranclp.rtrancl_refl] c udp_left_reach show ?thesis
    by (simp add: udp_left_def tcp_left_def)
qed

end
