(* ===== verification/Node_Api.thy ===== *)
theory Node_Api
  imports Wire_Message
begin

text \<open>
  \<open>node/algorithm/algorithm.go\<close>: the interface between the framework and the algorithms. A handler
  of an algorithm (\<open>Start\<close>, \<open>OnMessage\<close>, \<open>OnTick\<close>) reads the node through an \<open>api_env\<close> and acts on
  it by a list of calls, in the order it makes them. No handler uses the error \<open>Send\<close> returns, so the
  calls can be executed after the handler (\<open>SendCritical\<close> of Weaknet, which does use it, asks instead
  whether the peer is known, the only reason for which \<open>Send\<close> fails).
\<close>

record api_env =
  env_ID :: u16
  env_Peers :: "u16 list"
  env_Now :: go_time

datatype api_call =
    ApiSend u16 Message
  | ApiBroadcast Message
  | ApiSetTimer string duration
  | ApiCancelTimer string

type_synonym 's handled = "('s \<times> api_call list) go"

text \<open>The messages a list of calls sends to a given peer, and the peers it sends to.\<close>

definition sends_to :: "u16 \<Rightarrow> api_call list \<Rightarrow> Message list" where
  "sends_to p cs = concat (map (\<lambda>c. case c of ApiSend q m \<Rightarrow> (if q = p then [m] else []) | _ \<Rightarrow> []) cs)"

definition send_targets :: "api_call list \<Rightarrow> u16 list" where
  "send_targets cs = concat (map (\<lambda>c. case c of ApiSend q _ \<Rightarrow> [q] | _ \<Rightarrow> []) cs)"

lemma send_targets_simps [effect_simps]:
  "send_targets [] = []"
  "send_targets (ApiSend p m # cs) = p # send_targets cs"
  "send_targets (ApiBroadcast m # cs) = send_targets cs"
  "send_targets (ApiSetTimer n d # cs) = send_targets cs"
  "send_targets (ApiCancelTimer n # cs) = send_targets cs"
  "send_targets (as @ bs) = send_targets as @ send_targets bs"
  by (simp_all add: send_targets_def)

end
