(* ===== verification/Lww_Store.thy ===== *)
theory Lww_Store
  imports Node_Api
begin

text \<open>
  What the two state-replication algorithms share: last-write-wins stores of versioned entries, and
  the random choice of the peers to talk to (\<open>sampleN\<close>, the same code in both packages).

  The locale \<open>lww_store\<close> is the contract of a merge operation. Its lemmas show that merging computes,
  for every key, an entry of the highest version offered, so that replicas that have merged the same
  states agree, in whatever order and however often they did it, as long as no two states hold
  different entries of the same version.
\<close>

section \<open>Newest entries\<close>

definition newer :: "('e \<Rightarrow> u64) \<Rightarrow> 'e option \<Rightarrow> 'e option \<Rightarrow> 'e option" where
  "newer ver a b = (case b of None \<Rightarrow> a | Some e \<Rightarrow>
     (case a of None \<Rightarrow> Some e | Some l \<Rightarrow> (if ver e > ver l then Some e else Some l)))"

text \<open>The loop over the entries of the remote state.\<close>

definition lww_put :: "('e \<Rightarrow> u64) \<Rightarrow> ('k, 'e) gomap \<Rightarrow> 'k \<times> 'e \<Rightarrow> ('k, 'e) gomap" where
  "lww_put ver m kre = (case gm_lookup m (fst kre) of
     None \<Rightarrow> gm_set (fst kre) (snd kre) m
   | Some local \<Rightarrow> (if ver (snd kre) > ver local then gm_set (fst kre) (snd kre) m else m))"

definition lww_merge :: "('e \<Rightarrow> u64) \<Rightarrow> ('k, 'e) gomap \<Rightarrow> ('k, 'e) gomap \<Rightarrow> ('k, 'e) gomap" where
  "lww_merge ver m remote = foldl (lww_put ver) m remote"

lemma gm_ok_put: "gm_ok m \<Longrightarrow> gm_ok (lww_put ver m kre)"
  by (auto simp: lww_put_def split: option.splits)

lemma lookup_put: "gm_lookup (lww_put ver m (k, e)) k' = (if k' = k then newer ver (gm_lookup m k) (Some e) else gm_lookup m k')"
  by (auto simp: lww_put_def newer_def split: option.splits)

lemma gm_ok_lww_merge: "gm_ok m \<Longrightarrow> gm_ok (lww_merge ver m r)"
  unfolding lww_merge_def by (induction r arbitrary: m) (auto intro: gm_ok_put)

lemma lookup_lww_merge:
  "gm_ok r \<Longrightarrow> gm_lookup (lww_merge ver m r) k = newer ver (gm_lookup m k) (gm_lookup r k)"
  unfolding lww_merge_def
proof (induction r arbitrary: m)
  case Nil
  then show ?case by (simp add: newer_def)
next
  case (Cons x r)
  obtain k' e where x: "x = (k', e)" by fastforce
  have "k' \<in> fst ` set r \<Longrightarrow> False" using Cons.prems by (simp add: x)
  then have "gm_lookup r k' = None" by (metis map_of_eq_None_iff)
  moreover have "gm_lookup (foldl (lww_put ver) (lww_put ver m x) r) k =
      newer ver (gm_lookup (lww_put ver m x) k) (gm_lookup r k)" using Cons by simp
  ultimately show ?case by (cases "k = k'") (simp_all add: x lookup_put newer_def)
qed

section \<open>The contract of a merge\<close>

locale lww_store =
  fixes merge :: "('k, 'e) gomap \<Rightarrow> ('k, 'e) gomap \<Rightarrow> ('k, 'e) gomap"
    and ver :: "'e \<Rightarrow> u64"
  assumes merge_ok: "gm_ok l \<Longrightarrow> gm_ok (merge l r)"
    and lookup_merge: "gm_ok r \<Longrightarrow> gm_lookup (merge l r) k = newer ver (gm_lookup l k) (gm_lookup r k)"
begin

definition merge_all :: "('k, 'e) gomap \<Rightarrow> ('k, 'e) gomap list \<Rightarrow> ('k, 'e) gomap" where
  "merge_all l rs = foldl merge l rs"

text \<open>\<open>e\<close> is a newest entry for \<open>k\<close> among the states \<open>S\<close>.\<close>

definition newest_in :: "('k, 'e) gomap set \<Rightarrow> 'k \<Rightarrow> 'e option \<Rightarrow> bool" where
  "newest_in S k x \<longleftrightarrow> (case x of
     None \<Rightarrow> (\<forall>s \<in> S. gm_lookup s k = None)
   | Some e \<Rightarrow> (\<exists>s \<in> S. gm_lookup s k = Some e) \<and> (\<forall>s \<in> S. \<forall>e'. gm_lookup s k = Some e' \<longrightarrow> ver e' \<le> ver e))"

definition conflict_free :: "('k, 'e) gomap set \<Rightarrow> bool" where
  "conflict_free S \<longleftrightarrow> (\<forall>s \<in> S. \<forall>s' \<in> S. \<forall>k e e'.
     gm_lookup s k = Some e \<longrightarrow> gm_lookup s' k = Some e' \<longrightarrow> ver e = ver e' \<longrightarrow> e = e')"

lemma newest_in_step:
  assumes "newest_in S k x"
  shows "newest_in (insert r S) k (newer ver x (gm_lookup r k))"
proof (cases "gm_lookup r k")
  case None
  with assms show ?thesis by (cases x) (simp_all add: newest_in_def newer_def)
next
  case r: (Some e)
  show ?thesis
  proof (cases x)
    case None
    with assms r show ?thesis by (simp add: newest_in_def newer_def del: map_of_eq_Some_iff)
  next
    case (Some l)
    from assms have in_S: "\<exists>s \<in> S. gm_lookup s k = Some l"
      and max: "\<And>s e'. s \<in> S \<Longrightarrow> gm_lookup s k = Some e' \<Longrightarrow> ver e' \<le> ver l"
      unfolding newest_in_def Some option.case by blast+
    show ?thesis
    proof (cases "ver e > ver l")
      case True
      then have "newer ver x (gm_lookup r k) = Some e" by (simp add: newer_def r Some)
      moreover have "ver e' \<le> ver e" if "s \<in> insert r S" "gm_lookup s k = Some e'" for s e'
        using that r True max [of s e'] by (auto simp del: map_of_eq_Some_iff)
      ultimately show ?thesis unfolding newest_in_def using r by (auto simp del: map_of_eq_Some_iff)
    next
      case False
      then have "newer ver x (gm_lookup r k) = Some l" by (simp add: newer_def r Some)
      moreover have "ver e' \<le> ver l" if "s \<in> insert r S" "gm_lookup s k = Some e'" for s e'
        using that r False max [of s e'] by (auto simp: not_less simp del: map_of_eq_Some_iff)
      ultimately show ?thesis unfolding newest_in_def using in_S by (auto simp del: map_of_eq_Some_iff)
    qed
  qed
qed

lemma merge_all_newest:
  "newest_in S k (gm_lookup l k) \<Longrightarrow> \<forall>r \<in> set rs. gm_ok r \<Longrightarrow> newest_in (S \<union> set rs) k (gm_lookup (merge_all l rs) k)"
proof (induction rs arbitrary: l S)
  case Nil
  then show ?case by (simp add: merge_all_def)
next
  case (Cons r rs)
  have "newest_in (insert r S) k (gm_lookup (merge l r) k)"
    using newest_in_step [OF Cons.prems(1), of r] Cons.prems(2) by (simp add: lookup_merge)
  from Cons.IH [OF this] Cons.prems(2) show ?case by (simp add: merge_all_def)
qed

lemma newest_in_single: "newest_in {l} k (gm_lookup l k)"
  unfolding newest_in_def by (auto split: option.splits)

lemma newest_unique:
  assumes "conflict_free S" and "newest_in S k x" and "newest_in S k y"
  shows "x = y"
proof (cases x; cases y)
  fix e e' assume xy: "x = Some e" "y = Some e'"
  from assms(2) xy(1) obtain s where s: "s \<in> S" "gm_lookup s k = Some e" by (auto simp: newest_in_def)
  from assms(3) xy(2) obtain s' where s': "s' \<in> S" "gm_lookup s' k = Some e'" by (auto simp: newest_in_def)
  have "ver e' \<le> ver e" using assms(2) s' unfolding newest_in_def xy(1) option.case by blast
  moreover have "ver e \<le> ver e'" using assms(3) s unfolding newest_in_def xy(2) option.case by blast
  ultimately have "ver e = ver e'" by simp
  with assms(1) s s' show "x = y" unfolding conflict_free_def xy by blast
qed (use assms in \<open>auto simp: newest_in_def\<close>)

text \<open>Replicas that merged the same states agree on every key.\<close>

lemma convergence:
  assumes "conflict_free (insert l (set rs))" and "insert l (set rs) = insert l' (set rs')"
    and "\<forall>r \<in> set rs \<union> set rs'. gm_ok r"
  shows "gm_lookup (merge_all l rs) k = gm_lookup (merge_all l' rs') k"
proof -
  have "newest_in (insert l (set rs)) k (gm_lookup (merge_all l rs) k)"
    using merge_all_newest [OF newest_in_single [of l k], of rs] assms(3) by auto
  moreover have "newest_in (insert l (set rs)) k (gm_lookup (merge_all l' rs') k)"
    using merge_all_newest [OF newest_in_single [of l' k], of rs'] assms(2,3) by auto
  ultimately show ?thesis by (rule newest_unique [OF assms(1)])
qed

text \<open>Merging is idempotent, and loses no version.\<close>

lemma merge_idem: "gm_ok l \<Longrightarrow> gm_lookup (merge l l) k = gm_lookup l k"
  by (simp add: lookup_merge newer_def split: option.split)

lemma merge_version_mono:
  assumes "gm_ok r" and "gm_lookup l k = Some e"
  shows "\<exists>e'. gm_lookup (merge l r) k = Some e' \<and> ver e \<le> ver e'"
  using assms by (auto simp: lookup_merge newer_def simp del: map_of_eq_Some_iff split: option.splits intro: less_imp_le)

end

section \<open>Sampling peers\<close>

definition sampleN :: "rng \<Rightarrow> u16 list \<Rightarrow> int \<Rightarrow> (u16 list \<times> rng) go" where
  "sampleN r peers n =
     (if n \<ge> int (length peers) then Inr (peers, r)
      else let (perm, r') = Perm r (length peers)
           in if n < 0 then Inl NegativeMakeLen
              else Inr (map (\<lambda>i. peers ! (perm ! i)) [0..<nat n], r'))"

lemma sampleN_cases:
  assumes "0 \<le> n"
  obtains ts r' where "sampleN r peers n = Inr (ts, r')"
    "length ts = min (nat n) (length peers)" "set ts \<subseteq> set peers" "distinct peers \<Longrightarrow> distinct ts"
proof (cases "n \<ge> int (length peers)")
  case True
  then show thesis by (intro that [of peers r]) (auto simp: sampleN_def)
next
  case False
  obtain perm r' where p: "Perm r (length peers) = (perm, r')" by fastforce
  note pp = Perm_props [of r "length peers", unfolded p fst_conv]
  let ?ts = "map (\<lambda>i. peers ! (perm ! i)) [0..<nat n]"
  have lt: "i < length perm" if "i < nat n" for i using that False pp(1) by simp
  have in_range: "perm ! i < length peers" if "i < nat n" for i
    using nth_mem [OF lt [OF that]] pp(3) by simp
  show thesis
  proof (rule that [of ?ts r'])
    show "sampleN r peers n = Inr (?ts, r')" using False assms by (simp add: sampleN_def p)
    show "length ?ts = min (nat n) (length peers)" using False by simp
    show "set ?ts \<subseteq> set peers" using in_range by auto
    show "distinct ?ts" if "distinct peers"
      using that in_range lt pp(2) by (auto simp: distinct_map inj_on_def nth_eq_iff_index_eq)
  qed
qed

end
