(* ===== verification/Go_Text.thy ===== *)
theory Go_Text
  imports Uav_Prelude "HOL-Library.Char_ord" "HOL-Library.List_Lexorder"
begin

text \<open>
  What the program uses of Go's \<open>strconv\<close> and \<open>strings\<close>, and of conversions between strings and bytes. A Go string is
  the list of its bytes, each a character; strings are ordered byte by byte, as Go compares them.
\<close>

section \<open>Characters\<close>

abbreviation byte :: "char \<Rightarrow> nat" where
  "byte c \<equiv> of_char c"

definition chars :: "nat list \<Rightarrow> string" where
  "chars ns = map char_of ns"

definition is_digit :: "char \<Rightarrow> bool" where
  "is_digit c \<longleftrightarrow> 48 \<le> byte c \<and> byte c \<le> 57"

definition is_space :: "char \<Rightarrow> bool" where
  "is_space c \<longleftrightarrow> of_char c \<in> {9, 10, 11, 12, 13, 32 :: nat}"

section \<open>Splitting\<close>

text \<open>\<open>strings.Split\<close> at a one-character separator.\<close>

fun split_on :: "char \<Rightarrow> string \<Rightarrow> string list" where
  "split_on c [] = [[]]"
| "split_on c (x # xs) =
     (case split_on c xs of
        [] \<Rightarrow> []
      | p # ps \<Rightarrow> if x = c then [] # p # ps else (x # p) # ps)"

lemma split_on_nonempty: "split_on c s \<noteq> []"
  by (induction s) (auto split: list.splits)

lemma split_on_none: "c \<notin> set s \<Longrightarrow> split_on c s = [s]"
  by (induction s) auto

lemma split_on_append: "c \<notin> set s \<Longrightarrow> split_on c (s @ c # t) = s # split_on c t"
  using split_on_nonempty [of c t] by (induction s) (auto split: list.splits)

section \<open>Decimal numbers\<close>

text \<open>Decimal printing (\<open>%d\<close>).\<close>

fun show_nat :: "nat \<Rightarrow> string" where
  "show_nat n = (if n < 10 then [char_of (48 + n)] else show_nat (n div 10) @ [char_of (48 + n mod 10)])"

declare show_nat.simps [simp del]

datatype num_error = ErrSyntax | ErrRange

text \<open>The loop of \<open>strconv.ParseUint\<close> in base 10.\<close>

fun parse_digits :: "nat \<Rightarrow> nat \<Rightarrow> string \<Rightarrow> num_error + nat" where
  "parse_digits maxVal n [] = Inr n"
| "parse_digits maxVal n (c # cs) =
     (let d = of_char c
      in if d < 48 \<or> 57 < d then Inl ErrSyntax
         else let n1 = 10 * n + (d - 48)
              in if n1 > maxVal then Inl ErrRange else parse_digits maxVal n1 cs)"

definition ParseUint :: "nat \<Rightarrow> string \<Rightarrow> num_error + nat" where
  "ParseUint bitSize s = (if s = [] then Inl ErrSyntax else parse_digits (2 ^ bitSize - 1) 0 s)"

lemma digit_char: "m < 10 \<Longrightarrow> of_char (char_of (48 + m) :: char) = 48 + m"
  for m :: nat by (simp add: of_char_of)

lemma show_nat_nonempty [simp]: "show_nat n \<noteq> []"
  by (subst show_nat.simps) simp

lemma show_nat_chars: "c \<in> set (show_nat n) \<Longrightarrow> 48 \<le> (of_char c :: nat) \<and> of_char c \<le> (57 :: nat)"
proof (induction n rule: show_nat.induct)
  case (1 n)
  then show ?case
    using digit_char [of n] digit_char [of "n mod 10"] by (cases "n < 10") (auto simp: show_nat.simps [of n])
qed

text \<open>Printed numbers are read back.\<close>

lemma parse_digits_append:
  "parse_digits mx n (xs @ ys) = (case parse_digits mx n xs of Inl e \<Rightarrow> Inl e | Inr m \<Rightarrow> parse_digits mx m ys)"
  by (induction mx n xs rule: parse_digits.induct) (auto simp: Let_def)

lemma parse_show: "n \<le> mx \<Longrightarrow> parse_digits mx 0 (show_nat n) = Inr n"
proof (induction n rule: show_nat.induct)
  case (1 n)
  show ?case
  proof (cases "n < 10")
    case True
    then show ?thesis using digit_char [of n] "1.prems" by (subst show_nat.simps) (simp add: Let_def)
  next
    case False
    have "parse_digits mx 0 (show_nat (n div 10)) = Inr (n div 10)" using 1 False by simp
    moreover have "10 * (n div 10) + n mod 10 = n" by simp
    ultimately show ?thesis using False "1.prems" digit_char [of "n mod 10"]
      by (subst show_nat.simps) (simp add: parse_digits_append Let_def)
  qed
qed

lemma ParseUint_show: "n < 2 ^ b \<Longrightarrow> ParseUint b (show_nat n) = Inr n"
  by (simp add: ParseUint_def parse_show)

lemma show_nat_inj: "show_nat m = show_nat n \<Longrightarrow> m = n"
  using parse_show [of m "max m n", OF max.cobounded1] parse_show [of n "max m n", OF max.cobounded2]
  by (metis sum.inject(2))

text \<open>No leading zero, except in zero itself.\<close>

lemma show_nat_hd: "0 < n \<Longrightarrow> 49 \<le> (of_char (hd (show_nat n)) :: nat)"
proof (induction n rule: show_nat.induct)
  case (1 n)
  show ?case
  proof (cases "n < 10")
    case True
    then show ?thesis using 1 digit_char [of n] by (simp add: show_nat.simps [of n])
  next
    case False
    with 1 show ?thesis by (simp add: show_nat.simps [of n])
  qed
qed

lemma show_nat_0: "show_nat 0 = ''0''"
  by (simp add: show_nat.simps [of 0] char_of_def bit_simps)

section \<open>Strings and bytes\<close>

text \<open>The conversions \<open>[]byte(s)\<close> and \<open>string(b)\<close>.\<close>

definition string_bytes :: "string \<Rightarrow> bytes" where
  "string_bytes s = map of_char s"

definition bytes_string :: "bytes \<Rightarrow> string" where
  "bytes_string bs = map (\<lambda>b. char_of (unat b)) bs"

lemma of_char_u8: "unat (of_char c :: u8) = of_char c"
  by (simp add: of_char_def unat_of_nat flip: of_nat_of_char)

lemma bytes_string_bytes [simp]: "bytes_string (string_bytes s) = s"
  by (induction s) (simp_all add: bytes_string_def string_bytes_def of_char_u8)

lemma length_string_bytes [simp]: "length (string_bytes s) = length s"
  by (simp add: string_bytes_def)

lemma string_bytes_inj: "string_bytes s = string_bytes t \<longleftrightarrow> s = t"
  by (metis bytes_string_bytes)

end
