(* ===== verification/Gossip.thy ===== *)
theory Gossip
  imports Lww_Store Go_Text
begin

text \<open>
  \<open>node/algorithm/gossip/gossip.go\<close>: push gossip of a key-value store. The JSON encoder and decoder of
  the payload are the arguments \<open>marshal\<close> (\<open>None\<close> is its error) and \<open>unmarshal\<close>,
  which \<open>Gossip_Json\<close> provides.
\<close>

section \<open>State\<close>

definition timerGossip :: string where "timerGossip = ''gossip''"

record Entry =
  Value :: string
  Version :: u64

type_synonym gossip_State = "(string, Entry) gomap"

record Gossip =
  gs_state :: gossip_State
  gs_seen :: "(string, go_time) gomap"
  gs_seenTTL :: duration
  gs_fanout :: int
  gs_interval :: duration
  gs_rng :: rng

definition gossip_New :: "rng \<Rightarrow> int \<Rightarrow> duration \<Rightarrow> Gossip" where
  "gossip_New r fanout interval =
     \<lparr>gs_state = [], gs_seen = [], gs_seenTTL = 5 * Second,
      gs_fanout = (if fanout \<le> 0 then 3 else fanout),
      gs_interval = (if interval \<le> 0 then 200 * Millisecond else interval), gs_rng = r\<rparr>"

section \<open>Operations\<close>

definition gossip_Set :: "string \<Rightarrow> string \<Rightarrow> Gossip \<Rightarrow> Gossip" where
  "gossip_Set key val a =
     (let ver = (case gm_lookup (gs_state a) key of Some e \<Rightarrow> Version e + 1 | None \<Rightarrow> 1)
      in a\<lparr>gs_state := gm_set key \<lparr>Value = val, Version = ver\<rparr> (gs_state a)\<rparr>)"

definition gossip_Get :: "string \<Rightarrow> Gossip \<Rightarrow> Entry option" where
  "gossip_Get key a = gm_lookup (gs_state a) key"

definition gossip_Start :: "Gossip \<Rightarrow> Gossip handled" where
  "gossip_Start a = Inr (a, [ApiSetTimer timerGossip (gs_interval a)])"

definition gossip_Stop :: "Gossip \<Rightarrow> Gossip handled" where
  "gossip_Stop a = Inr (a, [ApiCancelTimer timerGossip])"

text \<open>The key of the seen cache.\<close>

definition seenKey :: "u16 \<Rightarrow> u32 \<Rightarrow> string" where
  "seenKey from seq = show_nat (unat from) @ '':'' @ show_nat (unat seq)"

definition gossip_merge :: "gossip_State \<Rightarrow> Gossip \<Rightarrow> Gossip" where
  "gossip_merge remote a = a\<lparr>gs_state := lww_merge Version (gs_state a) remote\<rparr>"

definition gossip_OnMessage ::
    "(bytes \<Rightarrow> gossip_State option) \<Rightarrow> api_env \<Rightarrow> Message \<Rightarrow> Gossip \<Rightarrow> Gossip handled" where
  "gossip_OnMessage unmarshal env msg a =
     (if Type msg \<noteq> TypeState then Inr (a, [])
      else let key = seenKey (From msg) (Seq msg)
           in if gm_lookup (gs_seen a) key \<noteq> None then Inr (a, [])
              else let a = a\<lparr>gs_seen := gm_set key (env_Now env) (gs_seen a)\<rparr>
                   in case unmarshal (Payload msg) of
                        None \<Rightarrow> Inr (a, [])
                      | Some st \<Rightarrow> Inr (gossip_merge st a, []))"

definition evictSeen :: "go_time \<Rightarrow> Gossip \<Rightarrow> Gossip" where
  "evictSeen now a = a\<lparr>gs_seen := filter (\<lambda>(k, t). \<not> time_Sub now t > gs_seenTTL a) (gs_seen a)\<rparr>"

definition gossip_msg :: "go_time \<Rightarrow> bytes \<Rightarrow> Message" where
  "gossip_msg now payload = zero_Message\<lparr>Type := TypeState, TTL := TTLState, Priority := PriorityState,
     Timestamp := UnixMilli now, Payload := payload\<rparr>"

definition gossipRound :: "(gossip_State \<Rightarrow> bytes option) \<Rightarrow> api_env \<Rightarrow> Gossip \<Rightarrow> Gossip handled" where
  "gossipRound marshal env a =
     (if env_Peers env = [] then Inr (a, [])
      else case marshal (gs_state a) of
        None \<Rightarrow> Inr (a, [])
      | Some payload \<Rightarrow>
          (case sampleN (gs_rng a) (env_Peers env) (gs_fanout a) of
             Inl e \<Rightarrow> Inl e
           | Inr (targets, r) \<Rightarrow>
               Inr (a\<lparr>gs_rng := r\<rparr>, map (\<lambda>p. ApiSend p (gossip_msg (env_Now env) payload)) targets)))"

definition gossip_OnTick :: "(gossip_State \<Rightarrow> bytes option) \<Rightarrow> api_env \<Rightarrow> string \<Rightarrow> Gossip \<Rightarrow> Gossip handled" where
  "gossip_OnTick marshal env name a =
     (if name \<noteq> timerGossip then Inr (a, [])
      else gossipRound marshal env (evictSeen (env_Now env) a))"

section \<open>The store\<close>

interpretation gossip_store: lww_store "lww_merge Version" Version
  by unfold_locales (simp_all add: gm_ok_lww_merge lookup_lww_merge)

lemma gossip_merges: "gs_state (foldl (\<lambda>a r. gossip_merge r a) a rs) = gossip_store.merge_all (gs_state a) rs"
  unfolding gossip_store.merge_all_def by (induction rs arbitrary: a) (simp_all add: gossip_merge_def)

section \<open>The seen key\<close>

lemma append_sep_inj:
  "as @ c # bs = as' @ c # bs' \<Longrightarrow> c \<notin> set as \<Longrightarrow> c \<notin> set as' \<Longrightarrow> as = as' \<and> bs = bs'"
proof (induction as arbitrary: as')
  case Nil
  then show ?case by (cases as') auto
next
  case (Cons a as)
  then show ?case by (cases as') auto
qed

lemma seenKey_inj: "seenKey f s = seenKey f' s' \<longleftrightarrow> f = f' \<and> s = s'"
proof
  assume eq: "seenKey f s = seenKey f' s'"
  have colon: "CHR '':'' \<notin> set (show_nat n)" for n using show_nat_chars [of "CHR '':''" n] by auto
  from eq have "show_nat (unat f) = show_nat (unat f') \<and> show_nat (unat s) = show_nat (unat s')"
    unfolding seenKey_def append_Cons append_Nil by (rule append_sep_inj) (rule colon)+
  then show "f = f' \<and> s = s'" by (auto dest!: show_nat_inj simp: word_unat_eq_iff)
qed simp

section \<open>Properties\<close>

text \<open>
  C10. Convergence: two nodes that start with states \<open>l\<close> and \<open>l'\<close> and merge the gossiped states \<open>rs\<close>
  and \<open>rs'\<close>, in any order and any number of times, answer every \<open>Get\<close> alike as soon as the same states
  have reached both, provided no two of those states hold different values under the same key and
  version.
\<close>

theorem gossip_convergence:
  assumes "insert (gs_state a) (set rs) = insert (gs_state b) (set rs')"
    and "\<forall>r \<in> insert (gs_state a) (set rs). gm_ok r"
    and "\<forall>s \<in> insert (gs_state a) (set rs). \<forall>s' \<in> insert (gs_state a) (set rs). \<forall>k e e'.
      gm_lookup s k = Some e \<longrightarrow> gm_lookup s' k = Some e' \<longrightarrow> Version e = Version e' \<longrightarrow> e = e'"
  shows "gossip_Get k (foldl (\<lambda>a r. gossip_merge r a) a rs) = gossip_Get k (foldl (\<lambda>a r. gossip_merge r a) b rs')"
  unfolding gossip_Get_def gossip_merges
proof (rule gossip_store.convergence)
  show "gossip_store.conflict_free (insert (gs_state a) (set rs))"
    using assms(3) unfolding gossip_store.conflict_free_def by blast
  show "insert (gs_state a) (set rs) = insert (gs_state b) (set rs')" by (rule assms(1))
  show "\<forall>r \<in> set rs \<union> set rs'. gm_ok r" using assms(1,2) by blast
qed

definition gossip_of :: "gossip_State \<Rightarrow> Gossip" where
  "gossip_of st = (gossip_New (\<lambda>_. 0) 3 0)\<lparr>gs_state := st\<rparr>"

definition st_x :: gossip_State where "st_x = [(''x'', \<lparr>Value = ''1'', Version = 1\<rparr>)]"
definition st_y :: gossip_State where "st_y = [(''x'', \<lparr>Value = ''2'', Version = 2\<rparr>)]"

theorem gossip_convergence_witness:
  "gossip_Get ''x'' (foldl (\<lambda>a r. gossip_merge r a) (gossip_of st_x) [st_y]) =
   gossip_Get ''x'' (foldl (\<lambda>a r. gossip_merge r a) (gossip_of st_y) [st_x, st_y, st_x])"
  by (rule gossip_convergence) (auto simp: gossip_of_def st_x_def st_y_def split: if_splits)

text \<open>
  C36. Concurrent writes do not converge: when two nodes write different values under a key at the
  same version, each rejects the other's state, however often they gossip.
\<close>

theorem gossip_conflict_persists:
  assumes "gossip_Get k a = Some x" and "gossip_Get k b = Some y" and "Version x = Version y"
    and "gm_ok (gs_state a)" and "gm_ok (gs_state b)"
  shows "gossip_Get k (foldl (\<lambda>a r. gossip_merge r a) a (replicate n (gs_state b))) = Some x \<and>
    gossip_Get k (foldl (\<lambda>a r. gossip_merge r a) b (replicate n (gs_state a))) = Some y"
proof -
  have keep: "gossip_Get k (foldl (\<lambda>a r. gossip_merge r a) c (replicate n st)) = Some e"
    if "gossip_Get k c = Some e" "gm_lookup st k = Some e'" "Version e' = Version e" "gm_ok st" for c st e e'
    using that(1)
  proof (induction n arbitrary: c)
    case (Suc n)
    have "gossip_Get k (gossip_merge st c) = Some e"
      using Suc.prems that(2-4)
      by (simp add: gossip_Get_def gossip_merge_def lookup_lww_merge newer_def del: map_of_eq_Some_iff)
    with Suc.IH show ?case by simp
  qed simp
  have "gossip_Get k (foldl (\<lambda>a r. gossip_merge r a) a (replicate n (gs_state b))) = Some x"
    using keep [OF assms(1), of "gs_state b" y] assms by (simp add: gossip_Get_def del: map_of_eq_Some_iff)
  moreover have "gossip_Get k (foldl (\<lambda>a r. gossip_merge r a) b (replicate n (gs_state a))) = Some y"
    using keep [OF assms(2), of "gs_state a" x] assms by (simp add: gossip_Get_def del: map_of_eq_Some_iff)
  ultimately show ?thesis ..
qed

definition st_z :: gossip_State where "st_z = [(''x'', \<lparr>Value = ''3'', Version = 1\<rparr>)]"

theorem gossip_conflict_persists_witness:
  "gossip_Get ''x'' (foldl (\<lambda>a r. gossip_merge r a) (gossip_of st_x) (replicate 5 (gs_state (gossip_of st_z)))) =
     Some \<lparr>Value = ''1'', Version = 1\<rparr>"
proof -
  have "gossip_Get ''x'' (gossip_of st_x) = Some \<lparr>Value = ''1'', Version = 1\<rparr>"
    "gossip_Get ''x'' (gossip_of st_z) = Some \<lparr>Value = ''3'', Version = 1\<rparr>"
    by (simp_all add: gossip_Get_def gossip_of_def st_x_def st_z_def)
  from gossip_conflict_persists [OF this, of 5] show ?thesis by (simp add: gossip_of_def st_x_def st_z_def)
qed

text \<open>
  A gossip round sends the whole state to \<open>min(fanout, number of peers)\<close> different peers, and to
  no one else; it changes nothing but the random generator.
\<close>

lemma gossipRound_targets:
  assumes "0 \<le> gs_fanout a" and "marshal (gs_state a) = Some payload" and "distinct (env_Peers env)"
  shows "\<exists>r ts. gossipRound marshal env a =
      Inr (a\<lparr>gs_rng := r\<rparr>, map (\<lambda>p. ApiSend p (gossip_msg (env_Now env) payload)) ts) \<and>
    distinct ts \<and> set ts \<subseteq> set (env_Peers env) \<and> length ts = min (nat (gs_fanout a)) (length (env_Peers env))"
proof (cases "env_Peers env = []")
  case True
  then show ?thesis by (intro exI [of _ "gs_rng a"] exI [of _ "[]"]) (simp add: gossipRound_def)
next
  case False
  obtain ts r where "sampleN (gs_rng a) (env_Peers env) (gs_fanout a) = Inr (ts, r)"
    "length ts = min (nat (gs_fanout a)) (length (env_Peers env))" "set ts \<subseteq> set (env_Peers env)" "distinct ts"
    using sampleN_cases [OF assms(1), of "gs_rng a" "env_Peers env"] assms(3) by metis
  with False assms(2) show ?thesis by (auto simp: gossipRound_def)
qed

definition env5 :: api_env where
  "env5 = \<lparr>env_ID = 1, env_Peers = [2, 3, 4, 5], env_Now = unix_epoch\<rparr>"

lemma gossipRound_targets_witness:
  "\<exists>r ts. gossipRound (\<lambda>_. Some [1]) env5 (gossip_of st_x) =
      Inr ((gossip_of st_x)\<lparr>gs_rng := r\<rparr>, map (\<lambda>p. ApiSend p (gossip_msg (env_Now env5) [1])) ts) \<and>
    distinct ts \<and> set ts \<subseteq> set (env_Peers env5) \<and>
    length ts = min (nat (gs_fanout (gossip_of st_x))) (length (env_Peers env5))"
  by (rule gossipRound_targets) (simp_all add: gossip_of_def gossip_New_def env5_def)

text \<open>
  Each gossip message takes effect at most once while it is in the seen cache: handling a message
  with the sender and sequence number of one handled before changes nothing, and messages that
  differ in either are never confused (the printed key is injective).
\<close>

lemma gossip_at_most_once:
  assumes "gossip_OnMessage unmarshal env m a = Inr (a', cs)" and "Type m = TypeState" and "Type m' = TypeState"
    and "unmarshal (Payload m') = Some st"
  shows "gossip_OnMessage unmarshal env' m' a' =
    (if (From m', Seq m') = (From m, Seq m) \<or> gm_lookup (gs_seen a) (seenKey (From m') (Seq m')) \<noteq> None
     then Inr (a', [])
     else Inr (gossip_merge st (a'\<lparr>gs_seen := gm_set (seenKey (From m') (Seq m')) (env_Now env') (gs_seen a')\<rparr>), []))"
proof -
  have "gm_lookup (gs_seen a') (seenKey (From m') (Seq m')) \<noteq> None \<longleftrightarrow>
      (From m', Seq m') = (From m, Seq m) \<or> gm_lookup (gs_seen a) (seenKey (From m') (Seq m')) \<noteq> None"
    using assms(1,2) by (auto simp: gossip_OnMessage_def Let_def gossip_merge_def seenKey_inj split: if_splits option.splits)
  with assms(3,4) show ?thesis by (simp add: gossip_OnMessage_def Let_def)
qed

definition gossip_in :: "u16 \<Rightarrow> u32 \<Rightarrow> Message" where
  "gossip_in f s = zero_Message\<lparr>Type := TypeState, From := f, Seq := s, Payload := [1]\<rparr>"

lemma gossip_at_most_once_witness:
  "\<exists>a' cs. gossip_OnMessage (\<lambda>_. Some st_y) env5 (gossip_in 1 23) (gossip_of st_x) = Inr (a', cs) \<and>
     gossip_OnMessage (\<lambda>_. Some st_y) env5 (gossip_in 1 23) a' = Inr (a', [])"
proof -
  obtain a' cs where r: "gossip_OnMessage (\<lambda>_. Some st_y) env5 (gossip_in 1 23) (gossip_of st_x) = Inr (a', cs)"
    by (simp add: gossip_OnMessage_def gossip_in_def gossip_of_def gossip_New_def Let_def)
  have t: "Type (gossip_in 1 23) = TypeState" by (simp add: gossip_in_def)
  from gossip_at_most_once [OF r t t refl, of env5] r show ?thesis by simp
qed

end
