(* ===== verification/Weaknet.thy ===== *)
theory Weaknet
  imports Lww_Store
begin

text \<open>
  \<open>node/algorithm/weaknet/weaknet.go\<close>: push-pull delta synchronisation. As in the model of Raft, a
  handler's calls carry the payload as a value, and \<open>wn_render\<close> marshals it; the JSON functions of the
  Go library are the argument \<open>J\<close>, which \<open>Weaknet_Json\<close> provides. The code reads the clock several times within a handler; here one
  handler sees one time.
\<close>

section \<open>State\<close>

definition timerSync :: string where "timerSync = ''wn_sync''"
definition timerRetx :: string where "timerRetx = ''wn_retx''"
definition timerPurge :: string where "timerPurge = ''wn_purge''"

definition kindPushPull :: u8 where "kindPushPull = 1"
definition kindAck :: u8 where "kindAck = 2"

record StateEntry =
  se_Value :: bytes
  se_Version :: u64

type_synonym wn_State = "(string, StateEntry) gomap"

record pushPullPayload =
  pp_IsReply :: bool
  pp_PeerID :: u16
  pp_Delta :: wn_State
  pp_KnownVer :: u64

record pendingMsg =
  pm_msg :: Message
  pm_peerID :: u16
  pm_deadline :: go_time

record peerStats =
  ps_knownVer :: u64
  ps_lastSeen :: go_time
  ps_active :: bool

record wn_Config =
  SyncInterval :: duration
  Fanout :: int
  RetransmitTimeout :: duration
  PeerStaleDuration :: duration

definition wn_DefaultConfig :: wn_Config where
  "wn_DefaultConfig = \<lparr>SyncInterval = 150 * Millisecond, Fanout = 3, RetransmitTimeout = 200 * Millisecond,
     PeerStaleDuration = 2 * Second\<rparr>"

record Weaknet =
  wn_cfg :: wn_Config
  wn_state :: wn_State
  wn_peers :: "(u16, peerStats) gomap"
  wn_pending :: "(u32, pendingMsg) gomap"
  wn_rng :: rng

definition wn_New :: "wn_Config \<Rightarrow> rng \<Rightarrow> Weaknet" where
  "wn_New c r = \<lparr>wn_cfg = c, wn_state = [], wn_peers = [], wn_pending = [], wn_rng = r\<rparr>"

datatype wn_call =
    WPushPull u16 pushPullPayload
  | WSend u16 Message
  | WSetTimer string duration
  | WCancelTimer string

type_synonym wn_result = "(Weaknet \<times> wn_call list) go"

section \<open>The store and the peers\<close>

definition wn_Set :: "string \<Rightarrow> bytes \<Rightarrow> Weaknet \<Rightarrow> Weaknet" where
  "wn_Set key val a =
     (let ver = (case gm_lookup (wn_state a) key of Some e \<Rightarrow> se_Version e + 1 | None \<Rightarrow> 1)
      in a\<lparr>wn_state := gm_set key \<lparr>se_Value = val, se_Version = ver\<rparr> (wn_state a)\<rparr>)"

definition wn_Get :: "string \<Rightarrow> Weaknet \<Rightarrow> StateEntry option" where
  "wn_Get key a = gm_lookup (wn_state a) key"

text \<open>\<open>mergeState\<close>, with the highest version of the remote state as its result.\<close>

definition mergeState :: "wn_State \<Rightarrow> Weaknet \<Rightarrow> u64 \<times> Weaknet" where
  "mergeState remote a =
     (foldl (\<lambda>m kre. if se_Version (snd kre) > m then se_Version (snd kre) else m) 0 remote,
      a\<lparr>wn_state := lww_merge se_Version (wn_state a) remote\<rparr>)"

definition deltaFor :: "u64 \<Rightarrow> Weaknet \<Rightarrow> wn_State" where
  "deltaFor sinceVer a = filter (\<lambda>(k, e). se_Version e > sinceVer) (wn_state a)"

definition getPeerStats :: "u16 \<Rightarrow> Weaknet \<Rightarrow> peerStats \<times> Weaknet" where
  "getPeerStats peerID a =
     (case gm_lookup (wn_peers a) peerID of
        Some ps \<Rightarrow> (ps, a)
      | None \<Rightarrow>
          let ps = \<lparr>ps_knownVer = 0, ps_lastSeen = 0, ps_active = True\<rparr>
          in (ps, a\<lparr>wn_peers := gm_set peerID ps (wn_peers a)\<rparr>))"

section \<open>Push-pull\<close>

definition sendPushPull :: "api_env \<Rightarrow> u16 \<Rightarrow> bool \<Rightarrow> Weaknet \<Rightarrow> Weaknet \<times> wn_call list" where
  "sendPushPull env peerID isReply a =
     (let (ps, a) = getPeerStats peerID a;
          delta = deltaFor (ps_knownVer ps) a
      in (a, [WPushPull peerID \<lparr>pp_IsReply = isReply, pp_PeerID = env_ID env, pp_Delta = delta,
                pp_KnownVer = ps_knownVer ps\<rparr>]))"

definition handlePushPull :: "api_env \<Rightarrow> u16 \<Rightarrow> pushPullPayload \<Rightarrow> Weaknet \<Rightarrow> wn_result" where
  "handlePushPull env from pp a =
     (let (maxVer, a) = mergeState (pp_Delta pp) a;
          (ps, a) = getPeerStats from a;
          ps = (if pp_KnownVer pp > ps_knownVer ps then ps\<lparr>ps_knownVer := pp_KnownVer pp\<rparr> else ps);
          ps = ps\<lparr>ps_lastSeen := env_Now env\<rparr>;
          a = a\<lparr>wn_peers := gm_set from ps (wn_peers a)\<rparr>
      in if \<not> pp_IsReply pp then Inr (sendPushPull env from True a) else Inr (a, []))"

definition activePeers :: "go_time \<Rightarrow> u16 list \<Rightarrow> Weaknet \<Rightarrow> u16 list" where
  "activePeers now all a =
     (let cutoff = now + i64 (- PeerStaleDuration (wn_cfg a));
          out = filter (\<lambda>i. case gm_lookup (wn_peers a) i of Some ps \<Rightarrow> ps_lastSeen ps > cutoff | None \<Rightarrow> False) all
      in if out = [] then all else out)"

fun push_loop :: "api_env \<Rightarrow> u16 list \<Rightarrow> Weaknet \<Rightarrow> Weaknet \<times> wn_call list" where
  "push_loop env [] a = (a, [])"
| "push_loop env (p # ps) a =
     (let (a1, cs1) = sendPushPull env p False a; (a2, cs2) = push_loop env ps a1 in (a2, cs1 @ cs2))"

definition syncRound :: "api_env \<Rightarrow> Weaknet \<Rightarrow> wn_result" where
  "syncRound env a =
     (if env_Peers env = [] then Inr (a, [])
      else case sampleN (wn_rng a) (activePeers (env_Now env) (env_Peers env) a) (Fanout (wn_cfg a)) of
        Inl e \<Rightarrow> Inl e
      | Inr (targets, r) \<Rightarrow> Inr (push_loop env targets (a\<lparr>wn_rng := r\<rparr>)))"

section \<open>Critical messages and housekeeping\<close>

text \<open>\<open>SendCritical\<close>: the error of \<open>Send\<close> is returned when the peer is unknown.\<close>

definition critical_msg :: "go_time \<Rightarrow> bytes \<Rightarrow> Message" where
  "critical_msg now payload = zero_Message\<lparr>Type := TypeControl, TTL := TTLCollision, Priority := PriorityCollision,
     Timestamp := UnixMilli now, Payload := payload\<rparr>"

definition SendCritical :: "api_env \<Rightarrow> u16 \<Rightarrow> bytes \<Rightarrow> Weaknet \<Rightarrow> bool \<times> wn_result" where
  "SendCritical env peerID payload a =
     (let msg = critical_msg (env_Now env) payload
      in if peerID \<notin> set (env_Peers env) then (False, Inr (a, [WSend peerID msg]))
         else (True, Inr (a\<lparr>wn_pending := gm_set (ucast (UnixNano (env_Now env)))
                 \<lparr>pm_msg = msg, pm_peerID = peerID,
                  pm_deadline = env_Now env + int (unat (TTL msg)) * Millisecond\<rparr> (wn_pending a)\<rparr>,
               [WSend peerID msg])))"

definition retransmitCheck :: "go_time \<Rightarrow> Weaknet \<Rightarrow> Weaknet \<times> wn_call list" where
  "retransmitCheck now a =
     (let live = filter (\<lambda>(seq, pm). \<not> now > pm_deadline pm) (wn_pending a);
          live = map (\<lambda>(seq, pm). (seq, pm\<lparr>pm_msg := (pm_msg pm)\<lparr>Timestamp := UnixMilli now\<rparr>\<rparr>)) live
      in (a\<lparr>wn_pending := live\<rparr>, map (\<lambda>(seq, pm). WSend (pm_peerID pm) (pm_msg pm)) live))"

definition purgeStalePeers :: "go_time \<Rightarrow> Weaknet \<Rightarrow> Weaknet" where
  "purgeStalePeers now a =
     (let cutoff = now + i64 (- PeerStaleDuration (wn_cfg a) * 3)
      in a\<lparr>wn_peers := filter (\<lambda>(i, ps). \<not> (ps_lastSeen ps \<noteq> 0 \<and> ps_lastSeen ps < cutoff)) (wn_peers a)\<rparr>)"

section \<open>The algorithm interface\<close>

definition wn_Start :: "Weaknet \<Rightarrow> wn_result" where
  "wn_Start a = Inr (a, [WSetTimer timerSync (SyncInterval (wn_cfg a)),
     WSetTimer timerRetx (go_quot (RetransmitTimeout (wn_cfg a)) 2), WSetTimer timerPurge (go_quot (PeerStaleDuration (wn_cfg a)) 2)])"

definition wn_Stop :: "Weaknet \<Rightarrow> wn_result" where
  "wn_Stop a = Inr (a, [WCancelTimer timerSync, WCancelTimer timerRetx, WCancelTimer timerPurge])"

definition wn_OnTick :: "api_env \<Rightarrow> string \<Rightarrow> Weaknet \<Rightarrow> wn_result" where
  "wn_OnTick env name a =
     (if name = timerSync then syncRound env a
      else if name = timerRetx then Inr (retransmitCheck (env_Now env) a)
      else if name = timerPurge then Inr (purgeStalePeers (env_Now env) a, [])
      else Inr (a, []))"

record wn_json =
  wj_pushPull :: "pushPullPayload \<Rightarrow> bytes option"
  wj_kind :: "bytes \<Rightarrow> u8 option"
  wj_un_pushPull :: "bytes \<Rightarrow> pushPullPayload option"
  wj_un_ack :: "bytes \<Rightarrow> u32 option"

definition wn_OnMessage :: "wn_json \<Rightarrow> api_env \<Rightarrow> Message \<Rightarrow> Weaknet \<Rightarrow> wn_result" where
  "wn_OnMessage J env msg a =
     (if Payload msg = [] then Inr (a, [])
      else case wj_kind J (Payload msg) of
        None \<Rightarrow> Inr (a, [])
      | Some k \<Rightarrow>
          if k = kindPushPull
          then (case wj_un_pushPull J (Payload msg) of
                  None \<Rightarrow> Inr (a, []) | Some pp \<Rightarrow> handlePushPull env (From msg) pp a)
          else if k = kindAck
          then (case wj_un_ack J (Payload msg) of
                  None \<Rightarrow> Inr (a, []) | Some seq \<Rightarrow> Inr (a\<lparr>wn_pending := gm_delete seq (wn_pending a)\<rparr>, []))
          else Inr (a, []))"

fun wn_render :: "wn_json \<Rightarrow> go_time \<Rightarrow> wn_call list \<Rightarrow> api_call list" where
  "wn_render J now [] = []"
| "wn_render J now (WPushPull p pp # cs) =
     (case wj_pushPull J pp of
        None \<Rightarrow> []
      | Some bs \<Rightarrow> [ApiSend p (zero_Message\<lparr>Type := TypeState, TTL := TTLState, Priority := PriorityState,
          Timestamp := UnixMilli now, Payload := bs\<rparr>)]) @ wn_render J now cs"
| "wn_render J now (WSend p m # cs) = ApiSend p m # wn_render J now cs"
| "wn_render J now (WSetTimer n d # cs) = ApiSetTimer n d # wn_render J now cs"
| "wn_render J now (WCancelTimer n # cs) = ApiCancelTimer n # wn_render J now cs"

section \<open>The store satisfies the contract\<close>

interpretation wn_store: lww_store "lww_merge se_Version" se_Version
  by unfold_locales (simp_all add: gm_ok_lww_merge lookup_lww_merge)

section \<open>Known versions\<close>

text \<open>All recorded versions are zero.\<close>

definition all_zero :: "Weaknet \<Rightarrow> bool" where
  "all_zero a \<longleftrightarrow> (\<forall>(p, ps) \<in> set (wn_peers a). ps_knownVer ps = 0)"

text \<open>A push-pull message that carries all of the state \<open>st\<close> and claims to know nothing.\<close>

definition full_delta :: "wn_State \<Rightarrow> pushPullPayload \<Rightarrow> bool" where
  "full_delta st pp \<longleftrightarrow> pp_KnownVer pp = 0 \<and> pp_Delta pp = filter (\<lambda>(k, e). 0 < se_Version e) st"

fun call_full :: "wn_State \<Rightarrow> wn_call \<Rightarrow> bool" where
  "call_full st (WPushPull _ pp) = full_delta st pp"
| "call_full st _ = True"

lemma all_zero_set: "all_zero a \<Longrightarrow> ps_knownVer ps = 0 \<Longrightarrow> all_zero (a\<lparr>wn_peers := gm_set p ps (wn_peers a)\<rparr>)"
  using set_gm_set [of p ps "wn_peers a"] by (fastforce simp: all_zero_def)

lemma getPeerStats_zero:
  assumes "all_zero a" and "getPeerStats p a = (ps, a')"
  shows "ps_knownVer ps = 0" and "all_zero a'" and "wn_state a' = wn_state a"
proof -
  have "ps_knownVer ps = 0 \<and> all_zero a' \<and> wn_state a' = wn_state a"
  proof (cases "gm_lookup (wn_peers a) p")
    case None
    with assms all_zero_set [OF assms(1), of ps p] show ?thesis by (auto simp: getPeerStats_def Let_def)
  next
    case (Some q)
    then have "(p, q) \<in> set (wn_peers a)" by (rule map_of_SomeD)
    with Some assms show ?thesis by (auto simp: getPeerStats_def all_zero_def)
  qed
  then show "ps_knownVer ps = 0" "all_zero a'" "wn_state a' = wn_state a" by blast+
qed

lemma sendPushPull_zero:
  assumes "all_zero a" and "sendPushPull env p r a = (a', cs)"
  shows "all_zero a' \<and> wn_state a' = wn_state a \<and>
    cs = [WPushPull p \<lparr>pp_IsReply = r, pp_PeerID = env_ID env,
      pp_Delta = filter (\<lambda>(k, e). 0 < se_Version e) (wn_state a), pp_KnownVer = 0\<rparr>]"
proof -
  obtain ps a1 where g: "getPeerStats p a = (ps, a1)" by fastforce
  from getPeerStats_zero [OF assms(1) g] assms(2) show ?thesis
    by (auto simp: sendPushPull_def g deltaFor_def)
qed

lemma handlePushPull_zero:
  assumes "all_zero a" and "pp_KnownVer pp = 0" and "handlePushPull env from pp a = Inr (a', cs)"
  shows "all_zero a' \<and> list_all (call_full (wn_state a')) cs \<and> wn_state a' = lww_merge se_Version (wn_state a) (pp_Delta pp)"
proof -
  let ?a1 = "a\<lparr>wn_state := lww_merge se_Version (wn_state a) (pp_Delta pp)\<rparr>"
  have z1: "all_zero ?a1" using assms(1) by (simp add: all_zero_def)
  obtain ps a2 where g: "getPeerStats from ?a1 = (ps, a2)" by fastforce
  note gz = getPeerStats_zero [OF z1 g]
  let ?a3 = "a2\<lparr>wn_peers := gm_set from (ps\<lparr>ps_lastSeen := env_Now env\<rparr>) (wn_peers a2)\<rparr>"
  have z3: "all_zero ?a3" using all_zero_set [OF gz(2)] gz(1) by simp
  have run: "handlePushPull env from pp a = (if pp_IsReply pp then Inr (?a3, []) else Inr (sendPushPull env from True ?a3))"
    using assms(2) gz(1) by (simp add: handlePushPull_def mergeState_def g Let_def)
  show ?thesis
  proof (cases "pp_IsReply pp")
    case True
    with run assms(3) z3 gz(3) show ?thesis by auto
  next
    case False
    with run assms(3) have "sendPushPull env from True ?a3 = (a', cs)" by simp
    from sendPushPull_zero [OF z3 this] gz(3) show ?thesis by (simp add: full_delta_def)
  qed
qed

lemma push_loop_zero: "all_zero a \<Longrightarrow> push_loop env ps a = (a', cs) \<Longrightarrow>
    all_zero a' \<and> list_all (call_full (wn_state a)) cs \<and> wn_state a' = wn_state a"
proof (induction ps arbitrary: a cs)
  case (Cons p ps)
  obtain a1 cs1 where s: "sendPushPull env p False a = (a1, cs1)" by fastforce
  from Cons.prems(2) obtain cs2 where l: "push_loop env ps a1 = (a', cs2)" "cs = cs1 @ cs2"
    by (cases "push_loop env ps a1") (auto simp: s)
  from sendPushPull_zero [OF Cons.prems(1) s] Cons.IH [OF _ l(1)] show ?case by (simp add: l full_delta_def)
qed simp

lemma OnTick_zero:
  assumes "all_zero a" and "wn_OnTick env name a = Inr (a', cs)"
  shows "all_zero a' \<and> list_all (call_full (wn_state a')) cs \<and> wn_state a' = wn_state a"
proof -
  have rest: "all_zero (purgeStalePeers now a)" "all_zero (fst (retransmitCheck now a))"
    "list_all (call_full st) (snd (retransmitCheck now a))" "all_zero (a\<lparr>wn_rng := r\<rparr>)"
    "wn_state (purgeStalePeers now a) = wn_state a" "wn_state (fst (retransmitCheck now a)) = wn_state a" for now r st
    using assms(1) by (auto simp: all_zero_def purgeStalePeers_def retransmitCheck_def Let_def list_all_iff)
  have sync: "all_zero a' \<and> list_all (call_full (wn_state a')) cs \<and> wn_state a' = wn_state a" if "syncRound env a = Inr (a', cs)"
    using that assms(1) by (auto simp: syncRound_def split: if_splits sum.splits prod.splits dest!: push_loop_zero [OF rest(4)])
  show ?thesis
    using assms sync rest(1,5) rest(2,3,6) [where now = "env_Now env"]
    by (cases "retransmitCheck (env_Now env) a") (auto simp: wn_OnTick_def split: if_splits)
qed

section \<open>A network of nodes\<close>

datatype wn_event =
    WnTick string
  | WnDeliver u16 pushPullPayload
  | WnSet string bytes
  | WnCritical u16 bytes
  | WnAck u32

fun wn_step :: "api_env \<Rightarrow> wn_event \<Rightarrow> Weaknet \<Rightarrow> wn_result" where
  "wn_step env (WnTick name) a = wn_OnTick env name a"
| "wn_step env (WnDeliver f pp) a = handlePushPull env f pp a"
| "wn_step env (WnSet k v) a = Inr (wn_Set k v a, [])"
| "wn_step env (WnCritical p bs) a = snd (SendCritical env p bs a)"
| "wn_step env (WnAck seq) a = Inr (a\<lparr>wn_pending := gm_delete seq (wn_pending a)\<rparr>, [])"

text \<open>Nodes that start without peer records; a push-pull message may be delivered any number of times.\<close>

inductive wn_reach :: "(u16 \<Rightarrow> Weaknet) \<Rightarrow> pushPullPayload set \<Rightarrow> bool" where
  wn_begin: "(\<And>i. wn_peers (N i) = []) \<Longrightarrow> wn_reach N {}"
| wn_act: "wn_reach N net \<Longrightarrow> (\<And>f pp. ev = WnDeliver f pp \<Longrightarrow> pp \<in> net) \<Longrightarrow> wn_step env ev (N i) = Inr (a', cs) \<Longrightarrow>
     wn_reach (N(i := a')) (net \<union> {pp. \<exists>p. WPushPull p pp \<in> set cs})"

lemma step_zero:
  assumes "all_zero a" and "\<And>f pp. ev = WnDeliver f pp \<Longrightarrow> pp_KnownVer pp = 0" and "wn_step env ev a = Inr (a', cs)"
  shows "all_zero a' \<and> list_all (call_full (wn_state a')) cs"
proof (cases ev)
  case (WnTick name)
  with assms OnTick_zero [of a env name a' cs] show ?thesis by fastforce
next
  case (WnDeliver f pp)
  with assms handlePushPull_zero [of a pp env f a' cs] show ?thesis by fastforce
qed (use assms in \<open>auto simp: wn_Set_def SendCritical_def all_zero_def Let_def split: if_splits\<close>)

lemma reach_zero: "wn_reach N net \<Longrightarrow> (\<forall>i. all_zero (N i)) \<and> (\<forall>pp \<in> net. pp_KnownVer pp = 0)"
proof (induction rule: wn_reach.induct)
  case (wn_begin N)
  then show ?case by (simp add: all_zero_def)
next
  case (wn_act N net ev env i a' cs)
  from step_zero [of "N i" ev env a' cs] wn_act have s: "all_zero a' \<and> list_all (call_full (wn_state a')) cs" by blast
  then have "pp_KnownVer pp = 0" if "WPushPull p pp \<in> set cs" for p pp
    using that by (fastforce simp: list_all_iff full_delta_def)
  with s wn_act.IH show ?case by auto
qed

section \<open>One exchange\<close>

lemma lookup_positive:
  "gm_ok m \<Longrightarrow> \<forall>e. gm_lookup m k = Some e \<longrightarrow> 0 < se_Version e \<Longrightarrow>
     gm_lookup (filter (\<lambda>(k, e). 0 < se_Version e) m) k = gm_lookup m k"
  by (auto simp: map_of_filter_ok simp del: map_of_eq_Some_iff split: option.splits)

lemma newer_exchange:
  assumes "\<forall>e e'. x = Some e \<and> y = Some e' \<and> ver e = ver e' \<longrightarrow> e = e'"
  shows "newer ver x (newer ver y x) = newer ver x y" and "newer ver y x = newer ver x y"
  using assms by (cases x; cases y; fastforce simp: newer_def)+

lemma handlePushPull_request: "\<not> pp_IsReply pp \<Longrightarrow>
    \<exists>a' pp'. handlePushPull env from pp a = Inr (a', [WPushPull from pp']) \<and> pp_IsReply pp'"
  by (auto simp: handlePushPull_def mergeState_def sendPushPull_def Let_def split: prod.splits)

lemma handlePushPull_reply: "pp_IsReply pp \<Longrightarrow> \<exists>a'. handlePushPull env from pp a = Inr (a', [])"
  by (auto simp: handlePushPull_def mergeState_def Let_def split: prod.splits)

section \<open>Retransmissions\<close>

fun retx_run :: "go_time list \<Rightarrow> Weaknet \<Rightarrow> Weaknet \<times> wn_call list" where
  "retx_run [] a = (a, [])"
| "retx_run (t # ts) a =
     (let (a1, cs1) = retransmitCheck t a; (a2, cs2) = retx_run ts a1 in (a2, cs1 @ cs2))"

lemma retx_run_none: "wn_pending a = [] \<Longrightarrow> retx_run ts a = (a', cs) \<Longrightarrow> wn_pending a' = [] \<and> cs = []"
proof (induction ts arbitrary: a cs)
  case (Cons t ts)
  then have "retransmitCheck t a = (a\<lparr>wn_pending := []\<rparr>, [])" by (simp add: retransmitCheck_def)
  with Cons.prems(2) Cons.IH [of "a\<lparr>wn_pending := []\<rparr>"] show ?case by (auto split: prod.splits)
qed simp

text \<open>A single pending message is sent at each check until its deadline.\<close>

lemma retx_run_single:
  assumes "wn_pending a = [(q, \<lparr>pm_msg = critical_msg t0 bs, pm_peerID = p, pm_deadline = d\<rparr>)]"
    and "sorted ts" and "retx_run ts a = (a', cs)"
  shows "cs = map (\<lambda>t. WSend p (critical_msg t bs)) (filter (\<lambda>t. t \<le> d) ts) \<and>
    (wn_pending a' = [] \<longleftrightarrow> (\<exists>t \<in> set ts. d < t))"
  using assms
proof (induction ts arbitrary: a t0 cs)
  case (Cons t ts)
  obtain cs2 where r: "retx_run ts (fst (retransmitCheck t a)) = (a', cs2)" and cs: "cs = snd (retransmitCheck t a) @ cs2"
    using Cons.prems(3) by (auto split: prod.splits)
  show ?case
  proof (cases "t \<le> d")
    case True
    with Cons.prems(1) have c: "snd (retransmitCheck t a) = [WSend p (critical_msg t bs)]"
      and n: "wn_pending (fst (retransmitCheck t a)) = [(q, \<lparr>pm_msg = critical_msg t bs, pm_peerID = p, pm_deadline = d\<rparr>)]"
      by (simp_all add: retransmitCheck_def critical_msg_def)
    from Cons.IH [OF n _ r] Cons.prems(2) True show ?thesis by (auto simp: cs c)
  next
    case False
    with Cons.prems(1) have "wn_pending (fst (retransmitCheck t a)) = []" "snd (retransmitCheck t a) = []"
      by (simp_all add: retransmitCheck_def)
    with retx_run_none [OF _ r] cs have "wn_pending a' = []" "cs = []" by simp_all
    moreover have "filter (\<lambda>t. t \<le> d) (t # ts) = []" using False Cons.prems(2) by (auto simp: filter_empty_conv)
    ultimately show ?thesis using False by (auto simp del: filter.simps)
  qed
qed simp

section \<open>Properties\<close>

text \<open>
  C35. The delta is never a delta: in every run, whatever the nodes write, exchange, lose and repeat,
  every push-pull message claims to know version 0 and carries every entry of its sender's state (all
  versions above 0), because nothing ever raises the known versions that start at 0.
\<close>

theorem weaknet_sends_full_state:
  assumes "wn_reach N net" and "\<forall>f pp. ev = WnDeliver f pp \<longrightarrow> pp \<in> net"
    and "wn_step env ev (N i) = Inr (a', cs)" and "WPushPull p pp \<in> set cs"
  shows "pp_KnownVer pp = 0 \<and> pp_Delta pp = filter (\<lambda>(k, e). 0 < se_Version e) (wn_state a')"
proof -
  have "list_all (call_full (wn_state a')) cs"
    using reach_zero [OF assms(1)] assms(2,3) step_zero [of "N i" ev env a' cs] by blast
  with assms(4) show ?thesis by (fastforce simp: list_all_iff full_delta_def)
qed

definition wn_env2 :: api_env where
  "wn_env2 = \<lparr>env_ID = 1, env_Peers = [2], env_Now = unix_epoch\<rparr>"

definition wn_env1 :: api_env where
  "wn_env1 = \<lparr>env_ID = 2, env_Peers = [1], env_Now = unix_epoch\<rparr>"

definition wn_nodes :: "u16 \<Rightarrow> Weaknet" where
  "wn_nodes i = wn_New wn_DefaultConfig (\<lambda>_. 0)"

definition wn_written :: Weaknet where
  "wn_written = wn_Set ''x'' [1] (wn_New wn_DefaultConfig (\<lambda>_. 0))"

lemma wn_written_reach: "wn_reach (wn_nodes(1 := wn_written)) {}"
proof -
  have r0: "wn_reach wn_nodes {}" by (rule wn_begin) (simp add: wn_nodes_def wn_New_def)
  have "wn_step wn_env2 (WnSet ''x'' [1]) (wn_nodes 1) = Inr (wn_written, [])"
    by (simp add: wn_nodes_def wn_written_def)
  from wn_act [OF r0 _ this] show ?thesis by simp
qed

theorem weaknet_sends_full_state_witness:
  "\<exists>a' pp. wn_step wn_env2 (WnTick ''wn_sync'') wn_written = Inr (a', [WPushPull 2 pp]) \<and>
     pp_KnownVer pp = 0 \<and> pp_Delta pp = filter (\<lambda>(k, e). 0 < se_Version e) (wn_state a')"
proof -
  obtain a' pp where s: "wn_step wn_env2 (WnTick ''wn_sync'') wn_written = Inr (a', [WPushPull 2 pp])"
    by (simp add: wn_OnTick_def timerSync_def syncRound_def activePeers_def wn_env2_def sampleN_def wn_written_def
        wn_Set_def wn_New_def wn_DefaultConfig_def sendPushPull_def getPeerStats_def Let_def)
  from weaknet_sends_full_state [OF wn_written_reach, of "WnTick ''wn_sync''" wn_env2 1 a' "[WPushPull 2 pp]" 2 pp] s show ?thesis by simp
qed

lemma wn_written_Get: "wn_Get k wn_written = (if k = ''x'' then Some \<lparr>se_Value = [1], se_Version = 1\<rparr> else None)"
  by (simp add: wn_Get_def wn_written_def wn_Set_def wn_New_def)



end
