(* ===== verification/Raft_Node.thy ===== *)
theory Raft_Node
  imports Node_Api
begin

text \<open>
  \<open>node/algorithm/raft/raft.go\<close>: one Raft node. A handler takes the state and returns a panic or the
  new state with the calls it made, in order. A call carries the payload as a value; \<open>raft_render\<close>
  marshals it into the message that \<open>NodeAPI.Send\<close> gets, and \<open>raft_OnMessage\<close> unmarshals what arrives.
  The JSON encoder and decoder of the Go library are the argument \<open>J\<close> of those two functions, which
  \<open>Raft_Json\<close> provides.

  The kind byte of a payload is the constructor of \<open>raft_payload\<close>; \<open>votesReceived\<close> and the counts of
  replicas are Go \<open>int\<close>s that stay far below their range and are natural numbers here.
\<close>

section \<open>Constants and types\<close>

definition timerElection :: string where "timerElection = ''raft_election''"
definition timerHeartbeat :: string where "timerHeartbeat = ''raft_heartbeat''"

definition kindRequestVote :: u8 where "kindRequestVote = 1"
definition kindRequestVoteReply :: u8 where "kindRequestVoteReply = 2"
definition kindAppendEntries :: u8 where "kindAppendEntries = 3"
definition kindAppendReply :: u8 where "kindAppendReply = 4"

datatype nodeState = stateFollower | stateCandidate | stateLeader

record LogEntry =
  le_Term :: u32
  Command :: bytes

record requestVote =
  rv_Term :: u32
  rv_CandidateID :: u16
  rv_LastLogIndex :: u32
  rv_LastLogTerm :: u32

record requestVoteReply =
  rvr_Term :: u32
  rvr_VoteGranted :: bool

record appendEntries =
  ae_Term :: u32
  ae_LeaderID :: u16
  ae_PrevLogIndex :: u32
  ae_PrevLogTerm :: u32
  ae_Entries :: "LogEntry list"
  ae_LeaderCommit :: u32

record appendReply =
  ar_Term :: u32
  ar_Success :: bool
  ar_MatchIndex :: u32

datatype raft_payload =
    PRequestVote requestVote
  | PRequestVoteReply requestVoteReply
  | PAppendEntries appendEntries
  | PAppendReply appendReply

record RaftConfig =
  ElectionTimeoutMin :: duration
  ElectionTimeoutMax :: duration
  HeartbeatInterval :: duration

definition raft_DefaultConfig :: RaftConfig where
  "raft_DefaultConfig = \<lparr>ElectionTimeoutMin = 150 * Millisecond, ElectionTimeoutMax = 300 * Millisecond,
     HeartbeatInterval = 50 * Millisecond\<rparr>"

record Raft =
  cfg :: RaftConfig
  currentTerm :: u32
  votedFor :: u16
  rlog :: "LogEntry list"
  rstate :: nodeState
  commitIndex :: u32
  lastApplied :: u32
  leaderID :: u16
  nextIndex :: "(u16, u32) gomap"
  matchIndex :: "(u16, u32) gomap"
  votesReceived :: nat
  rrng :: rng
  applyCb :: bool

text \<open>The calls of a handler: to the node, and to the apply callback.\<close>

datatype raft_call =
    RSend u16 u16 u8 raft_payload  \<comment> \<open>peer, TTL, priority, payload\<close>
  | RSetTimer string duration
  | RCancelTimer string
  | RApply u32 bytes

type_synonym raft_result = "(Raft \<times> raft_call list) go"

definition raft_New :: "RaftConfig \<Rightarrow> rng \<Rightarrow> bool \<Rightarrow> Raft" where
  "raft_New c r cb = \<lparr>cfg = c, currentTerm = 0, votedFor = 0, rlog = [], rstate = stateFollower, commitIndex = 0,
     lastApplied = 0, leaderID = 0, nextIndex = [], matchIndex = [], votesReceived = 0, rrng = r, applyCb = cb\<rparr>"

text \<open>Sequential composition of handler parts: calls accumulate, a panic ends everything.\<close>

definition andThen :: "('s \<times> 'c list) go \<Rightarrow> ('s \<Rightarrow> ('s \<times> 'c list) go) \<Rightarrow> ('s \<times> 'c list) go" where
  "andThen r f =
     (case r of
        Inl e \<Rightarrow> Inl e
      | Inr (s, cs) \<Rightarrow> (case f s of Inl e \<Rightarrow> Inl e | Inr (s', cs') \<Rightarrow> Inr (s', cs @ cs')))"

section \<open>Timers, terms and the log\<close>

definition resetElectionTimer :: "Raft \<Rightarrow> raft_result" where
  "resetElectionTimer a =
     (case Int63n (rrng a) (i64 (ElectionTimeoutMax (cfg a) - ElectionTimeoutMin (cfg a))) of
        Inl e \<Rightarrow> Inl e
      | Inr (x, r) \<Rightarrow>
          Inr (a\<lparr>rrng := r\<rparr>, [RSetTimer timerElection (i64 (ElectionTimeoutMin (cfg a) + x))]))"

definition stepDown :: "u32 \<Rightarrow> Raft \<Rightarrow> raft_result" where
  "stepDown term a =
     andThen (Inr (a\<lparr>currentTerm := term, rstate := stateFollower, votedFor := 0\<rparr>, [RCancelTimer timerHeartbeat]))
       resetElectionTimer"

definition lastLogInfo :: "Raft \<Rightarrow> u32 \<times> u32" where
  "lastLogInfo a =
     (if rlog a = [] then (0, 0)
      else (of_nat (length (rlog a)), le_Term (rlog a ! (length (rlog a) - 1))))"

definition sendToAll :: "api_env \<Rightarrow> u16 \<Rightarrow> u8 \<Rightarrow> raft_payload \<Rightarrow> raft_call list" where
  "sendToAll env ttl pri payload = map (\<lambda>p. RSend p ttl pri payload) (env_Peers env)"

definition startElection :: "api_env \<Rightarrow> Raft \<Rightarrow> raft_result" where
  "startElection env a =
     andThen
       (resetElectionTimer
          (a\<lparr>rstate := stateCandidate, currentTerm := currentTerm a + 1, votedFor := env_ID env, votesReceived := 1\<rparr>))
       (\<lambda>a. let (lastIdx, lastTerm) = lastLogInfo a
            in Inr (a, sendToAll env TTLDefault PriorityState
                 (PRequestVote \<lparr>rv_Term = currentTerm a, rv_CandidateID = env_ID env,
                    rv_LastLogIndex = lastIdx, rv_LastLogTerm = lastTerm\<rparr>)))"

section \<open>Replication\<close>

definition sendAppendEntries :: "api_env \<Rightarrow> u16 \<Rightarrow> Raft \<Rightarrow> raft_result" where
  "sendAppendEntries env peerID a =
     (let nextIdx = gm_get0 (nextIndex a) peerID;
          prevIdx = (if nextIdx > 1 then nextIdx - 1 else 0);
          prevTerm = (if nextIdx > 1 \<and> unat prevIdx \<le> length (rlog a)
                      then go_index (map le_Term (rlog a)) (unat (prevIdx - 1)) else Inr 0);
          entries = (if int (unat nextIdx) - 1 < int (length (rlog a))
                     then go_slice_from (rlog a) (unat (nextIdx - 1)) else Inr [])
      in case prevTerm of
           Inl e \<Rightarrow> Inl e
         | Inr pt \<Rightarrow>
             (case entries of
                Inl e \<Rightarrow> Inl e
              | Inr es \<Rightarrow>
                  Inr (a, [RSend peerID TTLDefault PriorityState
                    (PAppendEntries \<lparr>ae_Term = currentTerm a, ae_LeaderID = env_ID env,
                       ae_PrevLogIndex = prevIdx, ae_PrevLogTerm = pt, ae_Entries = es,
                       ae_LeaderCommit = commitIndex a\<rparr>)])))"

fun send_ae_loop :: "api_env \<Rightarrow> u16 list \<Rightarrow> Raft \<Rightarrow> raft_result" where
  "send_ae_loop env [] a = Inr (a, [])"
| "send_ae_loop env (p # ps) a = andThen (sendAppendEntries env p a) (send_ae_loop env ps)"

definition broadcastAppendEntries :: "api_env \<Rightarrow> Raft \<Rightarrow> raft_result" where
  "broadcastAppendEntries env a = send_ae_loop env (env_Peers env) a"

definition becomeLeader :: "api_env \<Rightarrow> Raft \<Rightarrow> raft_result" where
  "becomeLeader env a =
     (let nextIdx = of_nat (length (rlog a) + 1);
          a = a\<lparr>rstate := stateLeader, leaderID := env_ID env,
                nextIndex := foldl (\<lambda>m p. gm_set p nextIdx m) (nextIndex a) (env_Peers env),
                matchIndex := foldl (\<lambda>m p. gm_set p 0 m) (matchIndex a) (env_Peers env)\<rparr>
      in andThen (Inr (a, [RCancelTimer timerElection, RSetTimer timerHeartbeat (HeartbeatInterval (cfg a))]))
           (broadcastAppendEntries env))"

text \<open>\<open>applyCommitted\<close>: without a callback the log is not read.\<close>

function applyCommitted :: "Raft \<Rightarrow> raft_result" where
  "applyCommitted a =
     (if lastApplied a < commitIndex a
      then let a = a\<lparr>lastApplied := lastApplied a + 1\<rparr>
           in andThen
                (if applyCb a
                 then (case go_index (rlog a) (unat (lastApplied a - 1)) of
                         Inl e \<Rightarrow> Inl e
                       | Inr entry \<Rightarrow> Inr (a, [RApply (lastApplied a) (Command entry)]))
                 else Inr (a, []))
                (\<lambda>_. applyCommitted a)
      else Inr (a, []))"
  by pat_completeness auto
termination
proof (relation "measure (\<lambda>a. unat (commitIndex a) - unat (lastApplied a))")
  fix a x :: Raft
  assume lt: "lastApplied a < commitIndex a" and x: "x = a\<lparr>lastApplied := lastApplied a + 1\<rparr>"
  have "lastApplied a \<noteq> - 1" using lt by (metis word_order.extremum_strict word_n1_ge not_less)
  then have "unat (lastApplied a + 1) = unat (lastApplied a) + 1" by (rule unat_plus_one_u32)
  with lt show "(x, a) \<in> measure (\<lambda>a. unat (commitIndex a) - unat (lastApplied a))"
    by (simp add: x word_less_nat_alt)
qed simp

declare applyCommitted.simps [simp del]

text \<open>The loop of \<open>maybeCommit\<close> from \<open>n\<close> downwards; the count includes the leader itself.\<close>

function maybeCommit_loop :: "api_env \<Rightarrow> u32 \<Rightarrow> Raft \<Rightarrow> raft_result" where
  "maybeCommit_loop env n a =
     (if n > commitIndex a
      then (case go_index (rlog a) (unat (n - 1)) of
              Inl e \<Rightarrow> Inl e
            | Inr entry \<Rightarrow>
                if le_Term entry \<noteq> currentTerm a then Inr (a, [])
                else let count = 1 + length (filter (\<lambda>(_, mi). mi \<ge> n) (matchIndex a))
                     in if count > (length (env_Peers env) + 1) div 2
                        then applyCommitted (a\<lparr>commitIndex := n\<rparr>)
                        else maybeCommit_loop env (n - 1) a)
      else Inr (a, []))"
  by pat_completeness auto
termination
proof (relation "measure (\<lambda>(env, n, a). unat n)")
  fix env :: api_env and n :: u32 and a :: Raft
  assume "n > commitIndex a"
  then have "n \<noteq> 0" by auto
  then show "((env, n - 1, a), env, n, a) \<in> measure (\<lambda>(env, n, a). unat n)"
    by (simp add: unat_minus_one_u32 word_gt_0 flip: word_neq_0_conv) (simp add: unat_gt_0)
qed simp

declare maybeCommit_loop.simps [simp del]

definition maybeCommit :: "api_env \<Rightarrow> Raft \<Rightarrow> raft_result" where
  "maybeCommit env a = maybeCommit_loop env (of_nat (length (rlog a))) a"

text \<open>The loop that appends entries, \<open>idx\<close> being \<open>insertIdx + i\<close>.\<close>

fun append_loop :: "u32 \<Rightarrow> LogEntry list \<Rightarrow> LogEntry list \<Rightarrow> LogEntry list go" where
  "append_loop idx [] log = Inr log"
| "append_loop idx (entry # es) log =
     (if of_nat (length log) > idx
      then (case go_index log (unat idx) of
              Inl e \<Rightarrow> Inl e
            | Inr old \<Rightarrow>
                if le_Term old \<noteq> le_Term entry
                then append_loop (idx + 1) es (take (unat idx) log @ [entry])
                else append_loop (idx + 1) es log)
      else append_loop (idx + 1) es (log @ [entry]))"

section \<open>Handlers of messages\<close>

definition handleRequestVote :: "api_env \<Rightarrow> u16 \<Rightarrow> requestVote \<Rightarrow> Raft \<Rightarrow> raft_result" where
  "handleRequestVote env from rv a =
     andThen (if rv_Term rv > currentTerm a then stepDown (rv_Term rv) a else Inr (a, []))
       (\<lambda>a. let replyTerm = currentTerm a;
                (lastIdx, lastTerm) = lastLogInfo a;
                logOK = (rv_LastLogTerm rv > lastTerm \<or> (rv_LastLogTerm rv = lastTerm \<and> rv_LastLogIndex rv \<ge> lastIdx));
                termOK = (rv_Term rv = currentTerm a);
                notVoted = (votedFor a = 0 \<or> votedFor a = rv_CandidateID rv);
                granted = (termOK \<and> logOK \<and> notVoted)
            in andThen (if granted then resetElectionTimer (a\<lparr>votedFor := rv_CandidateID rv\<rparr>) else Inr (a, []))
                 (\<lambda>a. Inr (a, [RSend from TTLDefault PriorityState
                        (PRequestVoteReply \<lparr>rvr_Term = replyTerm, rvr_VoteGranted = granted\<rparr>)])))"

definition handleRequestVoteReply :: "api_env \<Rightarrow> requestVoteReply \<Rightarrow> Raft \<Rightarrow> raft_result" where
  "handleRequestVoteReply env rvr a =
     (if rvr_Term rvr > currentTerm a then stepDown (rvr_Term rvr) a
      else if rstate a \<noteq> stateCandidate \<or> rvr_Term rvr \<noteq> currentTerm a then Inr (a, [])
      else if rvr_VoteGranted rvr
      then let a = a\<lparr>votesReceived := votesReceived a + 1\<rparr>;
               majority = length (env_Peers env) div 2 + 1
           in if votesReceived a \<ge> majority then becomeLeader env a else Inr (a, [])
      else Inr (a, []))"

text \<open>Replies to append requests leave TTL and priority at zero.\<close>

definition send_reply :: "u16 \<Rightarrow> appendReply \<Rightarrow> raft_call" where
  "send_reply from r = RSend from 0 0 (PAppendReply r)"

text \<open>The log consistency check.\<close>

definition prev_check :: "appendEntries \<Rightarrow> LogEntry list \<Rightarrow> bool go" where
  "prev_check ae log =
     (if ae_PrevLogIndex ae > 0
      then if of_nat (length log) < ae_PrevLogIndex ae then Inr False
           else (case go_index log (unat (ae_PrevLogIndex ae - 1)) of
                   Inl e \<Rightarrow> Inl e
                 | Inr prev \<Rightarrow> Inr (le_Term prev = ae_PrevLogTerm ae))
      else Inr True)"

definition handleAppendEntries :: "api_env \<Rightarrow> u16 \<Rightarrow> appendEntries \<Rightarrow> Raft \<Rightarrow> raft_result" where
  "handleAppendEntries env from ae a =
     (let reply = \<lparr>ar_Term = currentTerm a, ar_Success = False, ar_MatchIndex = 0\<rparr>
      in if ae_Term ae < currentTerm a then Inr (a, [send_reply from reply])
         else andThen
           (if ae_Term ae > currentTerm a then stepDown (ae_Term ae) a
            else resetElectionTimer (a\<lparr>rstate := stateFollower\<rparr>))
           (\<lambda>a. let a = a\<lparr>leaderID := ae_LeaderID ae\<rparr>
                in case prev_check ae (rlog a) of
                     Inl e \<Rightarrow> Inl e
                   | Inr False \<Rightarrow> Inr (a, [send_reply from reply])
                   | Inr True \<Rightarrow>
                       (case append_loop (ae_PrevLogIndex ae) (ae_Entries ae) (rlog a) of
                          Inl e \<Rightarrow> Inl e
                        | Inr log' \<Rightarrow>
                            let a = a\<lparr>rlog := log'\<rparr>
                            in andThen
                                 (if ae_LeaderCommit ae > commitIndex a
                                  then applyCommitted
                                    (a\<lparr>commitIndex := (if ae_LeaderCommit ae < of_nat (length log')
                                        then ae_LeaderCommit ae else of_nat (length log'))\<rparr>)
                                  else Inr (a, []))
                                 (\<lambda>a. Inr (a, [send_reply from
                                    (reply\<lparr>ar_Success := True, ar_MatchIndex := of_nat (length (rlog a))\<rparr>)])))))"

definition handleAppendReply :: "api_env \<Rightarrow> u16 \<Rightarrow> appendReply \<Rightarrow> Raft \<Rightarrow> raft_result" where
  "handleAppendReply env from ar a =
     (if ar_Term ar > currentTerm a then stepDown (ar_Term ar) a
      else if rstate a \<noteq> stateLeader then Inr (a, [])
      else if ar_Success ar
      then maybeCommit env (a\<lparr>matchIndex := gm_set from (ar_MatchIndex ar) (matchIndex a),
                              nextIndex := gm_set from (ar_MatchIndex ar + 1) (nextIndex a)\<rparr>)
      else sendAppendEntries env from
             (if gm_get0 (nextIndex a) from > 1
              then a\<lparr>nextIndex := gm_set from (gm_get0 (nextIndex a) from - 1) (nextIndex a)\<rparr>
              else a))"

definition raft_handle :: "api_env \<Rightarrow> u16 \<Rightarrow> raft_payload \<Rightarrow> Raft \<Rightarrow> raft_result" where
  "raft_handle env from p a =
     (case p of
        PRequestVote rv \<Rightarrow> handleRequestVote env from rv a
      | PRequestVoteReply rvr \<Rightarrow> handleRequestVoteReply env rvr a
      | PAppendEntries ae \<Rightarrow> handleAppendEntries env from ae a
      | PAppendReply ar \<Rightarrow> handleAppendReply env from ar a)"

section \<open>The algorithm interface\<close>

text \<open>The encoder, and the decoders: of the kind alone and of each payload.\<close>

record raft_json =
  js_marshal :: "raft_payload \<Rightarrow> bytes"
  js_kind :: "bytes \<Rightarrow> u8 option"
  js_requestVote :: "bytes \<Rightarrow> requestVote option"
  js_requestVoteReply :: "bytes \<Rightarrow> requestVoteReply option"
  js_appendEntries :: "bytes \<Rightarrow> appendEntries option"
  js_appendReply :: "bytes \<Rightarrow> appendReply option"

definition raft_OnMessage :: "raft_json \<Rightarrow> api_env \<Rightarrow> Message \<Rightarrow> Raft \<Rightarrow> raft_result" where
  "raft_OnMessage J env msg a =
     (if Type msg \<noteq> TypeConsensus \<or> Payload msg = [] then Inr (a, [])
      else case js_kind J (Payload msg) of
        None \<Rightarrow> Inr (a, [])
      | Some k \<Rightarrow>
          if k = kindRequestVote
          then (case js_requestVote J (Payload msg) of
                  None \<Rightarrow> Inr (a, []) | Some rv \<Rightarrow> handleRequestVote env (From msg) rv a)
          else if k = kindRequestVoteReply
          then (case js_requestVoteReply J (Payload msg) of
                  None \<Rightarrow> Inr (a, []) | Some rvr \<Rightarrow> handleRequestVoteReply env rvr a)
          else if k = kindAppendEntries
          then (case js_appendEntries J (Payload msg) of
                  None \<Rightarrow> Inr (a, []) | Some ae \<Rightarrow> handleAppendEntries env (From msg) ae a)
          else if k = kindAppendReply
          then (case js_appendReply J (Payload msg) of
                  None \<Rightarrow> Inr (a, []) | Some ar \<Rightarrow> handleAppendReply env (From msg) ar a)
          else Inr (a, []))"

definition raft_OnTick :: "api_env \<Rightarrow> string \<Rightarrow> Raft \<Rightarrow> raft_result" where
  "raft_OnTick env name a =
     (if name = timerElection then startElection env a
      else if name = timerHeartbeat
      then (if rstate a = stateLeader then broadcastAppendEntries env a else Inr (a, []))
      else Inr (a, []))"

definition raft_Start :: "Raft \<Rightarrow> raft_result" where
  "raft_Start a = resetElectionTimer a"

definition raft_Stop :: "Raft \<Rightarrow> raft_result" where
  "raft_Stop a = Inr (a, [RCancelTimer timerElection, RCancelTimer timerHeartbeat])"

text \<open>\<open>Propose\<close> also returns whether this node is the leader.\<close>

definition Propose :: "api_env \<Rightarrow> bytes \<Rightarrow> Raft \<Rightarrow> bool \<times> raft_result" where
  "Propose env cmd a =
     (if rstate a \<noteq> stateLeader then (False, Inr (a, []))
      else (True, broadcastAppendEntries env
                    (a\<lparr>rlog := rlog a @ [\<lparr>le_Term = currentTerm a, Command = cmd\<rparr>]\<rparr>)))"

definition IsLeader :: "Raft \<Rightarrow> bool" where
  "IsLeader a \<longleftrightarrow> rstate a = stateLeader"

definition raft_LeaderID :: "Raft \<Rightarrow> u16" where
  "raft_LeaderID a = leaderID a"

definition raft_CommitIndex :: "Raft \<Rightarrow> u32" where
  "raft_CommitIndex a = commitIndex a"

definition raft_LogLen :: "Raft \<Rightarrow> nat" where
  "raft_LogLen a = length (rlog a)"

record RaftStatus =
  Role :: string
  st_Term :: u32
  st_LeaderID :: u16
  LogLen :: nat
  st_CommitIndex :: u32
  st_LastApplied :: u32

definition StatusSnapshot :: "Raft \<Rightarrow> RaftStatus" where
  "StatusSnapshot a =
     \<lparr>Role = (case rstate a of stateFollower \<Rightarrow> ''follower'' | stateCandidate \<Rightarrow> ''candidate'' | stateLeader \<Rightarrow> ''leader''),
      st_Term = currentTerm a, st_LeaderID = leaderID a, LogLen = length (rlog a),
      st_CommitIndex = commitIndex a, st_LastApplied = lastApplied a\<rparr>"

lemma StatusSnapshot_getters:
  "st_LeaderID (StatusSnapshot a) = raft_LeaderID a" "st_CommitIndex (StatusSnapshot a) = raft_CommitIndex a"
  "LogLen (StatusSnapshot a) = raft_LogLen a" "Role (StatusSnapshot a) = ''leader'' \<longleftrightarrow> IsLeader a"
  by (simp_all add: StatusSnapshot_def raft_LeaderID_def raft_CommitIndex_def raft_LogLen_def IsLeader_def split: nodeState.splits)

text \<open>The message \<open>NodeAPI.Send\<close> gets.\<close>

definition raft_message :: "raft_json \<Rightarrow> go_time \<Rightarrow> u16 \<Rightarrow> u8 \<Rightarrow> raft_payload \<Rightarrow> Message" where
  "raft_message J now ttl pri p =
     zero_Message\<lparr>Type := TypeConsensus, TTL := ttl, Priority := pri, Timestamp := UnixMilli now, Payload := js_marshal J p\<rparr>"

fun raft_render :: "raft_json \<Rightarrow> go_time \<Rightarrow> raft_call list \<Rightarrow> api_call list" where
  "raft_render J now [] = []"
| "raft_render J now (RSend p ttl pri x # cs) = ApiSend p (raft_message J now ttl pri x) # raft_render J now cs"
| "raft_render J now (RSetTimer n d # cs) = ApiSetTimer n d # raft_render J now cs"
| "raft_render J now (RCancelTimer n # cs) = ApiCancelTimer n # raft_render J now cs"
| "raft_render J now (RApply i c # cs) = raft_render J now cs"

end
