(* ===== verification/Metrics_Collector.thy ===== *)
theory Metrics_Collector
  imports Wire_Message
begin

text \<open>
  \<open>node/metrics/collector.go\<close>: the counters and the ring buffer of latencies. A \<open>Record\<close> method is
  one step on the collector's state (each counter is atomic, the ring buffer is behind a mutex);
  counters are 64-bit words and wrap. Latencies are signed 64-bit milliseconds.
\<close>

section \<open>State\<close>

definition latencyRingSize :: nat where
  "latencyRingSize = 4096"

record Collector =
  nodeID :: u16
  startTime :: go_time
  msgSent :: u64
  msgRecv :: u64
  bytesSent :: u64
  bytesRecv :: u64
  msgSentByType :: "u64 list"
  msgRecvByType :: "u64 list"
  dedupDropped :: u64
  ttlExpiredDropped :: u64
  queueOverflowDrop :: u64
  sendErrors :: u64
  compressedBytes :: u64
  uncompressedBytes :: u64
  latBuf :: "u64 list"
  latPos :: nat
  latFull :: bool

definition NewCollector :: "go_time \<Rightarrow> u16 \<Rightarrow> Collector" where
  "NewCollector now nid =
     \<lparr>nodeID = nid, startTime = now, msgSent = 0, msgRecv = 0, bytesSent = 0, bytesRecv = 0,
      msgSentByType = replicate 5 0, msgRecvByType = replicate 5 0, dedupDropped = 0,
      ttlExpiredDropped = 0, queueOverflowDrop = 0, sendErrors = 0, compressedBytes = 0,
      uncompressedBytes = 0, latBuf = replicate latencyRingSize 0, latPos = 0, latFull = False\<rparr>"

section \<open>Recording\<close>

text \<open>\<open>if int(t) < len(counts) { counts[t].Add(1) }\<close>\<close>

definition bump_type :: "u8 \<Rightarrow> u64 list \<Rightarrow> u64 list" where
  "bump_type t counts =
     (if unat t < length counts then counts[unat t := counts ! unat t + 1] else counts)"

definition RecordSend :: "Message \<Rightarrow> nat \<Rightarrow> Collector \<Rightarrow> Collector" where
  "RecordSend msg wireBytes c =
     c\<lparr>msgSent := msgSent c + 1,
       bytesSent := bytesSent c + of_nat wireBytes,
       msgSentByType := bump_type (Type msg) (msgSentByType c)\<rparr>"

definition recordLatency :: "u64 \<Rightarrow> Collector \<Rightarrow> Collector" where
  "recordLatency ms c =
     (let c = c\<lparr>latBuf := (latBuf c)[latPos c := ms], latPos := Suc (latPos c)\<rparr>
      in if latPos c \<ge> latencyRingSize then c\<lparr>latPos := 0, latFull := True\<rparr> else c)"

definition RecordRecv :: "go_time \<Rightarrow> Message \<Rightarrow> nat \<Rightarrow> Collector \<Rightarrow> Collector" where
  "RecordRecv now msg wireBytes c =
     (let c = c\<lparr>msgRecv := msgRecv c + 1,
                bytesRecv := bytesRecv c + of_nat wireBytes,
                msgRecvByType := bump_type (Type msg) (msgRecvByType c)\<rparr>
      in if sint (Timestamp msg) > 0
         then let latency = UnixMilli now - Timestamp msg
              in if sint latency \<ge> 0 then recordLatency latency c else c
         else c)"

definition RecordDedupDrop :: "Collector \<Rightarrow> Collector" where
  "RecordDedupDrop c = c\<lparr>dedupDropped := dedupDropped c + 1\<rparr>"

definition RecordTTLDrop :: "Collector \<Rightarrow> Collector" where
  "RecordTTLDrop c = c\<lparr>ttlExpiredDropped := ttlExpiredDropped c + 1\<rparr>"

definition RecordQueueDrop :: "Collector \<Rightarrow> Collector" where
  "RecordQueueDrop c = c\<lparr>queueOverflowDrop := queueOverflowDrop c + 1\<rparr>"

definition RecordSendError :: "Collector \<Rightarrow> Collector" where
  "RecordSendError c = c\<lparr>sendErrors := sendErrors c + 1\<rparr>"

definition RecordCompression :: "nat \<Rightarrow> nat \<Rightarrow> Collector \<Rightarrow> Collector" where
  "RecordCompression uncompressed compressed c =
     c\<lparr>uncompressedBytes := uncompressedBytes c + of_nat uncompressed,
       compressedBytes := compressedBytes c + of_nat compressed\<rparr>"

text \<open>\<open>latencies\<close>: the samples in the order they were recorded.\<close>

definition latencies :: "Collector \<Rightarrow> u64 list" where
  "latencies c =
     (let n = (if latFull c then latencyRingSize else latPos c)
      in if n = 0 then []
         else let out = replicate n 0
              in if latFull c
                 then let k = min n (length (drop (latPos c) (latBuf c)));
                          out = copy_at out 0 (drop (latPos c) (latBuf c))
                      in copy_at out k (take (latPos c) (latBuf c))
                 else copy_at out 0 (take (latPos c) (latBuf c)))"

definition Reset :: "go_time \<Rightarrow> Collector \<Rightarrow> Collector" where
  "Reset now c =
     c\<lparr>startTime := now, msgSent := 0, msgRecv := 0, bytesSent := 0, bytesRecv := 0,
       msgSentByType := replicate (length (msgSentByType c)) 0,
       msgRecvByType := replicate (length (msgRecvByType c)) 0,
       dedupDropped := 0, ttlExpiredDropped := 0, queueOverflowDrop := 0, sendErrors := 0,
       compressedBytes := 0, uncompressedBytes := 0, latPos := 0, latFull := False\<rparr>"

definition Uptime :: "go_time \<Rightarrow> Collector \<Rightarrow> duration" where
  "Uptime now c = time_Sub now (startTime c)"

section \<open>The ring buffer refines a list\<close>

text \<open>
  \<open>ring_of c xs\<close>: the buffer of \<open>c\<close> stands for the sequence \<open>xs\<close> of all samples recorded since the
  last reset, of which it can still give the newest \<open>latencyRingSize\<close>.
\<close>

definition ring_of :: "Collector \<Rightarrow> u64 list \<Rightarrow> bool" where
  "ring_of c xs \<longleftrightarrow>
     length (latBuf c) = latencyRingSize \<and> latPos c < latencyRingSize \<and>
     (if latFull c
      then latencyRingSize \<le> length xs \<and>
           drop (latPos c) (latBuf c) @ take (latPos c) (latBuf c) = newest latencyRingSize xs
      else take (latPos c) (latBuf c) = xs)"

lemma latencyRingSize_pos: "0 < latencyRingSize"
  by (simp add: latencyRingSize_def)

lemma ring_of_New: "ring_of (NewCollector now nid) []"
  by (simp add: ring_of_def NewCollector_def latencyRingSize_pos)

lemma ring_of_Reset: "ring_of c xs \<Longrightarrow> ring_of (Reset now c) []"
  by (simp add: ring_of_def Reset_def latencyRingSize_pos)

lemma rotate_update:
  assumes "p < length b"
  shows "drop (Suc p) (b[p := x]) @ take (Suc p) (b[p := x]) = tl (drop p b @ take p b) @ [x]"
  using assms by (simp add: take_Suc_conv_app_nth tl_drop drop_Suc [symmetric] Cons_nth_drop_Suc [symmetric])

lemma ring_of_record:
  assumes "ring_of c xs"
  shows "ring_of (recordLatency ms c) (xs @ [ms])"
proof -
  let ?N = latencyRingSize and ?p = "latPos c" and ?b = "latBuf c"
  let ?b' = "?b[?p := ms]"
  from assms have len: "length ?b = ?N" and p: "?p < ?N" by (simp_all add: ring_of_def)
  show ?thesis
  proof (cases "latFull c")
    case True
    with assms have N: "?N \<le> length xs" and rot: "drop ?p ?b @ take ?p ?b = newest ?N xs"
      by (simp_all add: ring_of_def)
    have "drop (Suc ?p) ?b' @ take (Suc ?p) ?b' = newest ?N (xs @ [ms])"
      using rotate_update [of ?p ?b ms] len p N rot by (simp add: newest_snoc_full latencyRingSize_pos)
    with True N len p show ?thesis
      by (auto simp: ring_of_def recordLatency_def Let_def latencyRingSize_pos)
  next
    case False
    with assms have xs: "take ?p ?b = xs" by (simp add: ring_of_def)
    then have "take (Suc ?p) ?b' = xs @ [ms]" using len p by (simp add: take_Suc_conv_app_nth)
    moreover from xs len p have "length xs = ?p" by auto
    ultimately show ?thesis using False len p
      by (auto simp: ring_of_def recordLatency_def Let_def latencyRingSize_pos newest_all
          Suc_le_eq not_less_eq_eq)
  qed
qed

lemma latencies_ring_of:
  assumes "ring_of c xs"
  shows "latencies c = newest latencyRingSize xs"
proof (cases "latFull c")
  case True
  with assms have "length (latBuf c) = latencyRingSize" "latPos c < latencyRingSize"
    "drop (latPos c) (latBuf c) @ take (latPos c) (latBuf c) = newest latencyRingSize xs"
    by (simp_all add: ring_of_def)
  then show ?thesis using True latencyRingSize_pos
    by (cases "latPos c = 0") (auto simp: latencies_def Let_def copy_at_def min_def)
next
  case False
  with assms have "length (latBuf c) = latencyRingSize" "latPos c < latencyRingSize"
    "take (latPos c) (latBuf c) = xs" by (simp_all add: ring_of_def)
  then show ?thesis using False
    by (auto simp: latencies_def Let_def copy_at_def newest_all)
qed

section \<open>Properties\<close>

text \<open>
  The latency ring buffer refines a list: after any sequence of samples recorded on a fresh
  collector, \<open>latencies\<close> returns exactly the newest 4096 samples (all of them when there are
  fewer), in the order in which they were recorded; and no write is ever out of the buffer's range.
\<close>

lemma latencies_newest:
  "latencies (foldl (\<lambda>c ms. recordLatency ms c) (NewCollector now nid) xs) =
     newest latencyRingSize xs \<and>
   latPos (foldl (\<lambda>c ms. recordLatency ms c) (NewCollector now nid) xs)
     < length (latBuf (foldl (\<lambda>c ms. recordLatency ms c) (NewCollector now nid) xs))"
proof -
  have "ring_of (foldl (\<lambda>c ms. recordLatency ms c) (NewCollector now nid) xs) xs"
    by (induction xs rule: rev_induct) (simp_all add: ring_of_New ring_of_record)
  then show ?thesis by (auto simp: latencies_ring_of ring_of_def)
qed

end
