(* ===== verification/Dedup_Router.thy ===== *)
theory Dedup_Router
  imports Metrics_Collector
begin

text \<open>
  \<open>node/runtime/router.go\<close>, second half: the per-peer deduplication window and the router that
  drops expired and duplicate messages before they reach the algorithm.

  A Go array indexed by a \<open>uint8\<close> is a function on 8-bit words: no index is out of range. The
  handler is the algorithm's callback; \<open>Dispatch\<close> returns the message it is called with, or
  \<open>None\<close> when it is not called.
\<close>

section \<open>Peer windows\<close>

definition dedupWindowSize :: u32 where
  "dedupWindowSize = 256"

record peerDedup =
  highest :: "u8 \<Rightarrow> u32"
  windows :: "u8 \<Rightarrow> u32 set"
  inited :: "u8 \<Rightarrow> bool"

definition newPeerDedup :: peerDedup where
  "newPeerDedup = \<lparr>highest = \<lambda>_. 0, windows = \<lambda>_. {}, inited = \<lambda>_. False\<rparr>"

text \<open>The result and the new state, one branch per branch of the code.\<close>

definition IsDuplicate :: "u8 \<Rightarrow> u32 \<Rightarrow> peerDedup \<Rightarrow> bool \<times> peerDedup" where
  "IsDuplicate streamID seq d =
     (let record_seen = (\<lambda>d. if seq \<in> windows d streamID then (True, d)
        else (False, d\<lparr>windows := (windows d)(streamID := insert seq (windows d streamID))\<rparr>))
      in if \<not> inited d streamID
         then (False, d\<lparr>highest := (highest d)(streamID := seq),
                        inited := (inited d)(streamID := True),
                        windows := (windows d)(streamID := insert seq (windows d streamID))\<rparr>)
         else if seq > highest d streamID
         then let cutoff = seq - dedupWindowSize + 1;
                  d = (if seq \<ge> dedupWindowSize
                       then d\<lparr>windows := (windows d)(streamID := Set.filter (\<lambda>k. \<not> k < cutoff) (windows d streamID))\<rparr>
                       else d)
              in record_seen (d\<lparr>highest := (highest d)(streamID := seq)\<rparr>)
         else if highest d streamID - seq \<ge> dedupWindowSize
         then (True, d)
         else record_seen d)"

section \<open>Router\<close>

record Router =
  rt_nodeID :: u16
  rt_dups :: "(u16, peerDedup) gomap"
  rt_mc :: "Collector option"

definition NewRouter :: "u16 \<Rightarrow> Collector option \<Rightarrow> Router" where
  "NewRouter nid mc = \<lparr>rt_nodeID = nid, rt_dups = [], rt_mc = mc\<rparr>"

definition router_isDuplicate :: "u16 \<Rightarrow> u8 \<Rightarrow> u32 \<Rightarrow> Router \<Rightarrow> bool \<times> Router" where
  "router_isDuplicate from streamID seq r =
     (let d = (case gm_lookup (rt_dups r) from of Some d \<Rightarrow> d | None \<Rightarrow> newPeerDedup);
          (dup, d') = IsDuplicate streamID seq d
      in (dup, r\<lparr>rt_dups := gm_set from d' (rt_dups r)\<rparr>))"

definition Dispatch :: "go_time \<Rightarrow> Message \<Rightarrow> Router \<Rightarrow> Message option \<times> Router" where
  "Dispatch now msg r =
     (if IsExpired now msg then (None, r\<lparr>rt_mc := map_option RecordTTLDrop (rt_mc r)\<rparr>)
      else let (dup, r1) = router_isDuplicate (From msg) (StreamID msg) (Seq msg) r
           in if dup then (None, r1\<lparr>rt_mc := map_option RecordDedupDrop (rt_mc r1)\<rparr>)
              else (Some msg, r1))"

section \<open>The contract of a duplicate filter\<close>

text \<open>
  A filter with state \<open>'s\<close> over keys \<open>'k\<close> promises to decide from the keys it was offered before:
  \<open>tracks s h\<close> says that the state \<open>s\<close> stands for the history \<open>h\<close>, \<open>blocked h k\<close> is the decision
  specified for \<open>k\<close> after \<open>h\<close>. Its clients only use that keys of the history are blocked.
\<close>

fun run_filter :: "('k \<Rightarrow> 's \<Rightarrow> bool \<times> 's) \<Rightarrow> 'k list \<Rightarrow> 's \<Rightarrow> 'k list \<times> 's" where
  "run_filter chk [] s = ([], s)"
| "run_filter chk (k # ks) s =
     (let (dup, s1) = chk k s; (acc, s2) = run_filter chk ks s1
      in (if dup then acc else k # acc, s2))"

fun fresh_keys :: "('k list \<Rightarrow> 'k \<Rightarrow> bool) \<Rightarrow> 'k list \<Rightarrow> 'k list \<Rightarrow> 'k list" where
  "fresh_keys blocked h [] = []"
| "fresh_keys blocked h (k # ks) =
     (if blocked h k then fresh_keys blocked (h @ [k]) ks else k # fresh_keys blocked (h @ [k]) ks)"

locale dedup_filter =
  fixes chk :: "'k \<Rightarrow> 's \<Rightarrow> bool \<times> 's"
    and tracks :: "'s \<Rightarrow> 'k list \<Rightarrow> bool"
    and blocked :: "'k list \<Rightarrow> 'k \<Rightarrow> bool"
  assumes chk_decides: "tracks s h \<Longrightarrow> fst (chk k s) = blocked h k"
    and chk_tracks: "tracks s h \<Longrightarrow> tracks (snd (chk k s)) (h @ [k])"
    and blocked_seen: "k \<in> set h \<Longrightarrow> blocked h k"
begin

lemma run_refines:
  "tracks s h \<Longrightarrow> fst (run_filter chk ks s) = fresh_keys blocked h ks
     \<and> tracks (snd (run_filter chk ks s)) (h @ ks)"
proof (induction ks arbitrary: s h)
  case Nil
  then show ?case by simp
next
  case (Cons k ks)
  from Cons.IH [OF chk_tracks [OF Cons.prems]] chk_decides [OF Cons.prems] show ?case
    by (simp add: case_prod_beta Let_def)
qed

lemma fresh_disjoint: "set (fresh_keys blocked h ks) \<inter> set h = {}"
proof (induction ks arbitrary: h)
  case Nil
  then show ?case by simp
next
  case (Cons k ks)
  from Cons.IH [of "h @ [k]"] blocked_seen [of k h] show ?case by auto
qed

lemma fresh_distinct: "distinct (fresh_keys blocked h ks)"
proof (induction ks arbitrary: h)
  case Nil
  then show ?case by simp
next
  case (Cons k ks)
  with fresh_disjoint [of "h @ [k]" ks] show ?case by auto
qed

text \<open>Among keys that are only blocked by their own repetition, every key gets through.\<close>

lemma fresh_complete:
  assumes "\<And>h k. set h \<subseteq> K \<Longrightarrow> k \<in> K \<Longrightarrow> blocked h k \<Longrightarrow> k \<in> set h"
  shows "set h \<subseteq> K \<Longrightarrow> set ks \<subseteq> K \<Longrightarrow> set (fresh_keys blocked h ks) = set ks - set h"
proof (induction ks arbitrary: h)
  case Nil
  then show ?case by simp
next
  case (Cons k ks)
  have "blocked h k \<longleftrightarrow> k \<in> set h" using assms [of h k] blocked_seen [of k h] Cons.prems by auto
  with Cons.IH [of "h @ [k]"] Cons.prems show ?case by auto
qed

lemma run_at_most_once: "tracks s h \<Longrightarrow> distinct (fst (run_filter chk ks s))"
  using run_refines [of s h ks] fresh_distinct by simp

end

section \<open>The peer window implements the contract\<close>

text \<open>
  A sequence number of a stream is to be dropped when it was offered before, or when a number at
  least 256 ahead of it was offered before.
\<close>

definition peer_blocked :: "(u8 \<times> u32) list \<Rightarrow> u8 \<times> u32 \<Rightarrow> bool" where
  "peer_blocked h k \<longleftrightarrow> k \<in> set h \<or>
     (\<exists>k' \<in> set h. fst k' = fst k \<and> unat (snd k) + 256 \<le> unat (snd k'))"

definition stream_seqs :: "u8 \<Rightarrow> (u8 \<times> u32) list \<Rightarrow> u32 set" where
  "stream_seqs sid h = {seq. (sid, seq) \<in> set h}"

text \<open>The window of a stream holds the offered numbers less than 256 behind the highest one.\<close>

definition stream_ok :: "bool \<Rightarrow> u32 \<Rightarrow> u32 set \<Rightarrow> u32 set \<Rightarrow> bool" where
  "stream_ok ini hi win S \<longleftrightarrow>
     (if ini then hi \<in> S \<and> (\<forall>x \<in> S. x \<le> hi) \<and> win = {k \<in> S. unat hi < unat k + 256}
      else S = {} \<and> win = {})"

definition peer_tracks :: "peerDedup \<Rightarrow> (u8 \<times> u32) list \<Rightarrow> bool" where
  "peer_tracks d h \<longleftrightarrow>
     (\<forall>sid. stream_ok (inited d sid) (highest d sid) (windows d sid) (stream_seqs sid h))"

lemma stream_seqs_simps [simp]:
  "stream_seqs sid [] = {}"
  "stream_seqs sid (h @ [(s, q)]) = (if sid = s then insert q (stream_seqs sid h) else stream_seqs sid h)"
  by (auto simp: stream_seqs_def)

lemma peer_blocked_stream:
  "peer_blocked h (sid, seq) \<longleftrightarrow>
     seq \<in> stream_seqs sid h \<or> (\<exists>x \<in> stream_seqs sid h. unat seq + 256 \<le> unat x)"
  by (force simp: peer_blocked_def stream_seqs_def)

lemma unat_window: "unat dedupWindowSize = 256"
  by (simp add: dedupWindowSize_def)

lemma unat_cutoff:
  assumes "dedupWindowSize \<le> seq"
  shows "unat (seq - dedupWindowSize + 1) = unat seq - 255"
proof -
  have "256 \<le> unat seq" using assms by (simp add: word_le_nat_alt unat_window)
  moreover have "unat (seq - dedupWindowSize) = unat seq - 256"
    using unat_sub [OF assms] by (simp add: unat_window)
  moreover have "unat seq < 2 ^ 32" by (rule unat_u32_bound)
  moreover have "unat (seq - dedupWindowSize + 1) = (unat (seq - dedupWindowSize) + 1) mod 2 ^ 32"
    by (simp only: unat_word_ariths(1) unat_1) simp
  ultimately show ?thesis by simp
qed

text \<open>Sliding the window up to a new highest number.\<close>

lemma stream_ok_advance:
  assumes "stream_ok True hi win S" and "hi < seq"
    and "win' = (if seq \<ge> dedupWindowSize then Set.filter (\<lambda>k. \<not> k < seq - dedupWindowSize + 1) win else win)"
  shows "seq \<notin> win'" and "seq \<notin> S" and "\<not> (\<exists>x \<in> S. unat seq + 256 \<le> unat x)"
    and "stream_ok True seq (insert seq win') (insert seq S)"
proof -
  from assms(1) have hi: "hi \<in> S" "\<forall>x \<in> S. unat x \<le> unat hi" and win: "win = {k \<in> S. unat hi < unat k + 256}"
    by (auto simp: stream_ok_def word_le_nat_alt)
  have lt: "unat hi < unat seq" using assms(2) by (simp add: word_less_nat_alt)
  show nS: "seq \<notin> S" and "\<not> (\<exists>x \<in> S. unat seq + 256 \<le> unat x)" using hi lt by force+
  have w': "win' = {k \<in> S. unat seq < unat k + 256}"
  proof (cases "dedupWindowSize \<le> seq")
    case True
    then have "256 \<le> unat seq" by (simp add: word_le_nat_alt unat_window)
    then have "win' = {k \<in> win. unat seq < unat k + 256}"
      using True assms(3) by (auto simp: word_less_nat_alt unat_cutoff [OF True])
    then show ?thesis using win lt by auto
  next
    case False
    then have "unat seq < 256" by (simp add: word_le_nat_alt unat_window)
    then show ?thesis using False assms(3) win lt by auto
  qed
  then show "seq \<notin> win'" using nS by simp
  show "stream_ok True seq (insert seq win') (insert seq S)"
    using hi lt w' by (auto simp: stream_ok_def word_le_nat_alt)
qed

lemma stream_ok_within:
  assumes "stream_ok True hi win S" and "\<not> hi < seq"
  shows "dedupWindowSize \<le> hi - seq \<Longrightarrow> (\<exists>x \<in> S. unat seq + 256 \<le> unat x) \<and> stream_ok True hi win (insert seq S)"
    and "\<not> dedupWindowSize \<le> hi - seq \<Longrightarrow>
      (seq \<in> win \<longleftrightarrow> seq \<in> S \<or> (\<exists>x \<in> S. unat seq + 256 \<le> unat x)) \<and>
      stream_ok True hi (insert seq win) (insert seq S)"
proof -
  from assms(1) have hi: "hi \<in> S" "\<forall>x \<in> S. unat x \<le> unat hi" and win: "win = {k \<in> S. unat hi < unat k + 256}"
    by (auto simp: stream_ok_def word_le_nat_alt)
  have le: "seq \<le> hi" using assms(2) by simp
  then have nle: "unat seq \<le> unat hi" by (simp add: word_le_nat_alt)
  have d: "dedupWindowSize \<le> hi - seq \<longleftrightarrow> unat seq + 256 \<le> unat hi"
    using unat_sub [OF le] nle by (auto simp: word_le_nat_alt unat_window)
  show "(\<exists>x \<in> S. unat seq + 256 \<le> unat x) \<and> stream_ok True hi win (insert seq S)"
    if "dedupWindowSize \<le> hi - seq"
    using that d hi nle win by (auto simp: stream_ok_def word_le_nat_alt)
  show "(seq \<in> win \<longleftrightarrow> seq \<in> S \<or> (\<exists>x \<in> S. unat seq + 256 \<le> unat x)) \<and>
      stream_ok True hi (insert seq win) (insert seq S)"
    if "\<not> dedupWindowSize \<le> hi - seq"
    using that d hi nle win by (auto simp: stream_ok_def word_le_nat_alt)
qed

text \<open>What one call does to the window of its own stream; other streams are untouched.\<close>

lemma IsDuplicate_stream:
  assumes "stream_ok (inited d sid) (highest d sid) (windows d sid) S" and "IsDuplicate sid seq d = (dup, d')"
  shows "dup \<longleftrightarrow> seq \<in> S \<or> (\<exists>x \<in> S. unat seq + 256 \<le> unat x)"
    and "stream_ok (inited d' sid) (highest d' sid) (windows d' sid) (insert seq S)"
    and "sid' \<noteq> sid \<Longrightarrow> inited d' sid' = inited d sid' \<and> highest d' sid' = highest d sid' \<and> windows d' sid' = windows d sid'"
proof -
  show "dup \<longleftrightarrow> seq \<in> S \<or> (\<exists>x \<in> S. unat seq + 256 \<le> unat x)"
    and "stream_ok (inited d' sid) (highest d' sid) (windows d' sid) (insert seq S)"
  proof (atomize (full), cases "inited d sid")
    case False
    with assms show "(dup \<longleftrightarrow> seq \<in> S \<or> (\<exists>x \<in> S. unat seq + 256 \<le> unat x)) \<and>
        stream_ok (inited d' sid) (highest d' sid) (windows d' sid) (insert seq S)"
      by (auto simp: IsDuplicate_def stream_ok_def Let_def)
  next
    case True
    with assms(1) have ok: "stream_ok True (highest d sid) (windows d sid) S" by simp
    show "(dup \<longleftrightarrow> seq \<in> S \<or> (\<exists>x \<in> S. unat seq + 256 \<le> unat x)) \<and>
        stream_ok (inited d' sid) (highest d' sid) (windows d' sid) (insert seq S)"
    proof (cases "highest d sid < seq")
      case gt: True
      note a = stream_ok_advance [OF ok gt refl]
      with True gt assms(2) show ?thesis
        by (cases "dedupWindowSize \<le> seq") (auto simp: IsDuplicate_def Let_def)
    next
      case False
      note w = stream_ok_within [OF ok False]
      show ?thesis
      proof (cases "dedupWindowSize \<le> highest d sid - seq")
        case old: True
        with True False assms(2) w(1) show ?thesis by (auto simp: IsDuplicate_def Let_def)
      next
        case old: False
        with True False assms(2) w(2) show ?thesis
          by (cases "seq \<in> windows d sid") (auto simp: IsDuplicate_def Let_def insert_absorb)
      qed
    qed
  qed
  show "sid' \<noteq> sid \<Longrightarrow> inited d' sid' = inited d sid' \<and> highest d' sid' = highest d sid' \<and> windows d' sid' = windows d sid'"
    using assms(2) by (auto simp: IsDuplicate_def Let_def split: if_splits)
qed

lemma peer_tracks_new: "peer_tracks newPeerDedup []"
  by (simp add: peer_tracks_def newPeerDedup_def stream_ok_def)

interpretation peer: dedup_filter "\<lambda>(sid, seq). IsDuplicate sid seq" peer_tracks peer_blocked
proof
  fix s h and k :: "u8 \<times> u32"
  assume t: "peer_tracks s h"
  obtain sid seq where k: "k = (sid, seq)" by fastforce
  obtain dup d' where c: "IsDuplicate sid seq s = (dup, d')" by fastforce
  from t have ok: "stream_ok (inited s sid) (highest s sid) (windows s sid) (stream_seqs sid h)"
    by (simp add: peer_tracks_def)
  note r = IsDuplicate_stream [OF ok c]
  show "fst ((case k of (sid, seq) \<Rightarrow> IsDuplicate sid seq) s) = peer_blocked h k"
    using r(1) by (simp add: k c peer_blocked_stream)
  show "peer_tracks (snd ((case k of (sid, seq) \<Rightarrow> IsDuplicate sid seq) s)) (h @ [k])"
    using r(2,3) t by (simp add: k c peer_tracks_def)
qed (simp add: peer_blocked_def)

section \<open>The router implements the contract\<close>

type_synonym router_key = "u16 \<times> u8 \<times> u32"

definition router_blocked :: "router_key list \<Rightarrow> router_key \<Rightarrow> bool" where
  "router_blocked h k \<longleftrightarrow> k \<in> set h \<or>
     (\<exists>(f, sid, seq) \<in> set h. f = fst k \<and> sid = fst (snd k) \<and> unat (snd (snd k)) + 256 \<le> unat seq)"

definition peer_of :: "Router \<Rightarrow> u16 \<Rightarrow> peerDedup" where
  "peer_of r f = (case gm_lookup (rt_dups r) f of Some d \<Rightarrow> d | None \<Rightarrow> newPeerDedup)"

definition keys_from :: "u16 \<Rightarrow> router_key list \<Rightarrow> (u8 \<times> u32) list" where
  "keys_from f h = map snd (filter (\<lambda>k. fst k = f) h)"

definition router_tracks :: "Router \<Rightarrow> router_key list \<Rightarrow> bool" where
  "router_tracks r h \<longleftrightarrow> (\<forall>f. peer_tracks (peer_of r f) (keys_from f h))"

lemma keys_from_snoc [simp]:
  "keys_from f (h @ [(g, k)]) = (if f = g then keys_from f h @ [k] else keys_from f h)"
  by (simp add: keys_from_def)

lemma router_blocked_peer: "router_blocked h (f, k) = peer_blocked (keys_from f h) k"
  by (cases k) (force simp: router_blocked_def peer_blocked_def keys_from_def)

lemma router_tracks_new: "router_tracks (NewRouter nid mc) []"
  by (simp add: router_tracks_def NewRouter_def peer_of_def keys_from_def peer_tracks_new)

lemma router_isDuplicate_peer:
  "router_isDuplicate f sid seq r =
     (fst (IsDuplicate sid seq (peer_of r f)),
      r\<lparr>rt_dups := gm_set f (snd (IsDuplicate sid seq (peer_of r f))) (rt_dups r)\<rparr>)"
  by (simp add: router_isDuplicate_def peer_of_def Let_def case_prod_beta)

lemma peer_of_set: "peer_of (r\<lparr>rt_dups := gm_set f d (rt_dups r)\<rparr>) g = (if g = f then d else peer_of r g)"
  by (simp add: peer_of_def)

interpretation router: dedup_filter "\<lambda>(f, sid, seq). router_isDuplicate f sid seq" router_tracks router_blocked
proof
  fix s h and k :: router_key
  assume t: "router_tracks s h"
  obtain f sid seq where k: "k = (f, sid, seq)" by (cases k) auto
  from t have p: "peer_tracks (peer_of s f) (keys_from f h)" by (simp add: router_tracks_def)
  show "fst ((case k of (f, sid, seq) \<Rightarrow> router_isDuplicate f sid seq) s) = router_blocked h k"
    using peer.chk_decides [OF p, of "(sid, seq)"] by (simp add: k router_isDuplicate_peer router_blocked_peer)
  show "router_tracks (snd ((case k of (f, sid, seq) \<Rightarrow> router_isDuplicate f sid seq) s)) (h @ [k])"
    using peer.chk_tracks [OF p, of "(sid, seq)"] t
    by (simp add: k router_isDuplicate_peer router_tracks_def peer_of_set)
qed (simp add: router_blocked_def)

section \<open>Dispatching a sequence of messages\<close>

text \<open>Messages arrive one after the other, each with the time of its arrival.\<close>

fun dispatch_all :: "(go_time \<times> Message) list \<Rightarrow> Router \<Rightarrow> Message list \<times> Router" where
  "dispatch_all [] r = ([], r)"
| "dispatch_all ((now, msg) # evs) r =
     (let (out, r1) = Dispatch now msg r; (outs, r2) = dispatch_all evs r1
      in (case out of None \<Rightarrow> outs | Some m \<Rightarrow> m # outs, r2))"

definition msg_key :: "Message \<Rightarrow> router_key" where
  "msg_key m = (From m, StreamID m, Seq m)"

text \<open>What the router is specified to deliver: unexpired messages whose key is not blocked by the
  keys of the unexpired messages before.\<close>

fun deliverable :: "router_key list \<Rightarrow> (go_time \<times> Message) list \<Rightarrow> Message list" where
  "deliverable h [] = []"
| "deliverable h ((now, m) # evs) =
     (if IsExpired now m then deliverable h evs
      else (if router_blocked h (msg_key m) then [] else [m]) @ deliverable (h @ [msg_key m]) evs)"

lemma router_tracks_mc: "router_tracks (r\<lparr>rt_mc := x\<rparr>) h = router_tracks r h"
  by (simp add: router_tracks_def peer_of_def)

lemma Dispatch_spec:
  assumes "router_tracks r h" and "Dispatch now m r = (out, r')"
  shows "out = (if IsExpired now m \<or> router_blocked h (msg_key m) then None else Some m)"
    and "router_tracks r' (if IsExpired now m then h else h @ [msg_key m])"
    and "rt_mc r' = (if IsExpired now m then map_option RecordTTLDrop (rt_mc r)
          else if router_blocked h (msg_key m) then map_option RecordDedupDrop (rt_mc r) else rt_mc r)"
proof -
  obtain dup r1 where c: "router_isDuplicate (From m) (StreamID m) (Seq m) r = (dup, r1)" by fastforce
  have dup: "dup = router_blocked h (msg_key m)" and t: "router_tracks r1 (h @ [msg_key m])"
    using router.chk_decides [OF assms(1), of "msg_key m"] router.chk_tracks [OF assms(1), of "msg_key m"]
    by (simp_all add: msg_key_def c)
  have mc: "rt_mc r1 = rt_mc r" using c by (auto simp: router_isDuplicate_peer)
  show "out = (if IsExpired now m \<or> router_blocked h (msg_key m) then None else Some m)"
    "router_tracks r' (if IsExpired now m then h else h @ [msg_key m])"
    "rt_mc r' = (if IsExpired now m then map_option RecordTTLDrop (rt_mc r)
          else if router_blocked h (msg_key m) then map_option RecordDedupDrop (rt_mc r) else rt_mc r)"
    using assms t mc by (auto simp: Dispatch_def c dup router_tracks_mc split: if_splits)
qed

lemma dispatch_all_refines: "router_tracks r h \<Longrightarrow> fst (dispatch_all evs r) = deliverable h evs"
proof (induction evs arbitrary: r h)
  case Nil
  then show ?case by simp
next
  case (Cons e evs)
  obtain now m where e: "e = (now, m)" by fastforce
  obtain out r1 where d: "Dispatch now m r = (out, r1)" by fastforce
  note s = Dispatch_spec [OF Cons.prems d]
  from Cons.IH [OF s(2)] show ?case
    using s(1) by (simp add: e d case_prod_beta Let_def)
qed

lemma dispatch_all_new: "fst (dispatch_all evs (NewRouter nid mc)) = deliverable [] evs"
  by (rule dispatch_all_refines [OF router_tracks_new])

lemma deliverable_keys:
  "map msg_key (deliverable h evs) =
     fresh_keys router_blocked h (map (msg_key \<circ> snd) (filter (\<lambda>(now, m). \<not> IsExpired now m) evs))"
  by (induction h evs rule: deliverable.induct) simp_all

lemma deliverable_sub: "set (deliverable h evs) \<subseteq> snd ` set evs"
  by (induction h evs rule: deliverable.induct) auto

text \<open>
  Unexpired messages whose keys identify them and whose sequence numbers lie within one window are
  all delivered, each once, in whatever order and however often they arrive.
\<close>

lemma deliverable_once:
  assumes fresh: "\<forall>(t, m) \<in> set evs. \<not> IsExpired t m" and arrived: "snd ` set evs = set ms"
    and keys: "distinct (map msg_key ms)"
    and near: "\<And>m m'. m \<in> set ms \<Longrightarrow> m' \<in> set ms \<Longrightarrow> unat (Seq m') < unat (Seq m) + 256"
  shows "mset (deliverable [] evs) = mset ms"
proof -
  let ?ks = "map (msg_key \<circ> snd) evs"
  have all: "filter (\<lambda>(t, m). \<not> IsExpired t m) evs = evs" using fresh by (auto simp: filter_id_conv)
  have ks: "set ?ks = msg_key ` set ms" unfolding arrived [symmetric] by (simp add: image_image)
  have "set (fresh_keys router_blocked [] ?ks) = set ?ks - set []"
  proof (rule router.fresh_complete [of "msg_key ` set ms"])
    fix h k assume "set h \<subseteq> msg_key ` set ms" "k \<in> msg_key ` set ms" "router_blocked h k"
    with near show "k \<in> set h" by (fastforce simp: router_blocked_def msg_key_def dest: subsetD)
  qed (simp_all only: ks order_refl set_empty2 list.set empty_subsetI)
  then have "msg_key ` set (deliverable [] evs) = msg_key ` set ms"
    using arg_cong [OF deliverable_keys [of "[]" evs], of set] unfolding all set_map [of msg_key] ks
    by (simp only: list.set Diff_empty)
  moreover have "inj_on msg_key (set ms)" using keys by (simp add: distinct_map)
  ultimately have "set (deliverable [] evs) = set ms"
    using deliverable_sub [of "[]" evs] arrived by (simp add: inj_on_image_eq_iff)
  moreover have "distinct (map msg_key (deliverable [] evs))" unfolding deliverable_keys by (rule router.fresh_distinct)
  then have "distinct (deliverable [] evs)" by (simp add: distinct_map)
  ultimately show ?thesis using keys by (simp add: set_eq_iff_mset_eq_distinct distinct_map)
qed

text \<open>The memory of a stream stays within the window.\<close>

lemma stream_ok_card:
  assumes "stream_ok ini hi win S"
  shows "finite win" and "card win \<le> 256"
proof -
  have "unat ` win \<subseteq> {unat hi - 255..unat hi}"
    using assms by (auto simp: stream_ok_def word_le_nat_alt split: if_splits)
  then have "card (unat ` win) \<le> card {unat hi - 255..unat hi}" by (intro card_mono) simp_all
  moreover have "card (unat ` win) = card win" by (intro card_image inj_onI) (simp add: word_unat_eq_iff)
  ultimately show "card win \<le> 256" by simp
  show "finite win" by simp
qed

section \<open>Properties\<close>

text \<open>
  At-most-once delivery: whatever messages arrive and whenever they do, the messages the router
  hands to the algorithm have pairwise different (sender, stream, sequence number) keys.
\<close>

lemma router_at_most_once:
  "distinct (map msg_key (fst (dispatch_all evs (NewRouter nid mc))))"
  by (simp add: dispatch_all_new deliverable_keys router.fresh_distinct)

text \<open>
  C6. The router is exact: it delivers a message precisely when the message is not expired on
  arrival, no unexpired message with its key arrived before, and no unexpired message of the same
  sender and stream with a sequence number at least 256 ahead arrived before. The bounded window of
  the code therefore never forgets a number it still has to recognise and never drops a fresh one.
\<close>

theorem router_delivers_exactly:
  "fst (dispatch_all (evs @ [(now, m)]) (NewRouter nid mc)) =
     fst (dispatch_all evs (NewRouter nid mc)) @
     (if \<not> IsExpired now m \<and>
         \<not> (\<exists>(t, m') \<in> set evs. \<not> IsExpired t m' \<and> From m' = From m \<and> StreamID m' = StreamID m \<and>
              (Seq m' = Seq m \<or> unat (Seq m) + 256 \<le> unat (Seq m')))
      then [m] else [])"
proof -
  let ?ks = "\<lambda>evs. map (msg_key \<circ> snd) (filter (\<lambda>(now, m). \<not> IsExpired now m) evs)"
  have app: "deliverable h (evs @ [(now, m)]) =
      deliverable h evs @ deliverable (h @ ?ks evs) [(now, m)]" for h
    by (induction h evs rule: deliverable.induct) simp_all
  have "router_blocked (?ks evs) (msg_key m) \<longleftrightarrow>
      (\<exists>(t, m') \<in> set evs. \<not> IsExpired t m' \<and> From m' = From m \<and> StreamID m' = StreamID m \<and>
         (Seq m' = Seq m \<or> unat (Seq m) + 256 \<le> unat (Seq m')))"
    by (force simp: router_blocked_def msg_key_def)
  with app [of "[]"] show ?thesis
    by (simp add: dispatch_all_new)
qed

text \<open>
  Bounded memory: after any sequence of calls, every stream of a peer remembers at most 256
  sequence numbers.
\<close>

lemma dedup_window_bounded:
  "card (windows (snd (run_filter (\<lambda>(sid, seq). IsDuplicate sid seq) ks newPeerDedup)) sid) \<le> 256"
proof -
  have "peer_tracks (snd (run_filter (\<lambda>(sid, seq). IsDuplicate sid seq) ks newPeerDedup)) ([] @ ks)"
    using peer.run_refines [OF peer_tracks_new] by blast
  then show ?thesis unfolding peer_tracks_def by (blast intro: stream_ok_card(2))
qed

text \<open>
  C19. Accounting: with a collector attached, every dispatched message is either delivered or counted
  in exactly one of the two drop counters, which change in no other way.
\<close>

theorem router_accounting:
  assumes "router_tracks r h" and "rt_mc r = Some c" and "dispatch_all evs r = (outs, r')"
  shows "\<exists>c'. rt_mc r' = Some c' \<and>
    of_nat (length evs) = of_nat (length outs) +
      (dedupDropped c' - dedupDropped c) + (ttlExpiredDropped c' - ttlExpiredDropped c) \<and>
    c' = c\<lparr>dedupDropped := dedupDropped c', ttlExpiredDropped := ttlExpiredDropped c'\<rparr>"
  using assms
proof (induction evs arbitrary: r h c outs)
  case Nil
  then show ?case by simp
next
  case (Cons e evs)
  obtain now m where e: "e = (now, m)" by fastforce
  obtain out r1 where d: "Dispatch now m r = (out, r1)" by fastforce
  obtain outs2 where rest: "dispatch_all evs r1 = (outs2, r')" and outs: "outs = (case out of None \<Rightarrow> outs2 | Some x \<Rightarrow> x # outs2)"
    using Cons.prems(3) by (cases "dispatch_all evs r1") (auto simp: e d)
  note s = Dispatch_spec [OF Cons.prems(1) d]
  obtain c1 where c1: "rt_mc r1 = Some c1" "c1 = (if IsExpired now m then RecordTTLDrop c
      else if router_blocked h (msg_key m) then RecordDedupDrop c else c)"
    using s(3) Cons.prems(2) by (simp split: if_splits)
  from Cons.IH [OF s(2) c1(1) rest] obtain c' where c': "rt_mc r' = Some c'"
    "of_nat (length evs) = of_nat (length outs2) +
      (dedupDropped c' - dedupDropped c1) + (ttlExpiredDropped c' - ttlExpiredDropped c1)"
    "c' = c1\<lparr>dedupDropped := dedupDropped c', ttlExpiredDropped := ttlExpiredDropped c'\<rparr>" by blast
  show ?case
    using c' s(1) c1(2) by (intro exI [of _ c']) (auto simp: outs RecordTTLDrop_def RecordDedupDrop_def algebra_simps split: if_splits)
qed

text \<open>A burst with a duplicate, an overtaken message and a stale one, for the witness.\<close>

definition dedup_msg :: "u32 \<Rightarrow> Message" where
  "dedup_msg s = zero_Message\<lparr>From := 7, StreamID := 1, Seq := s\<rparr>"

theorem router_accounting_witness:
  "\<exists>c'. rt_mc (snd (dispatch_all [(0, dedup_msg 300), (0, dedup_msg 300), (0, dedup_msg 44), (0, dedup_msg 45)]
      (NewRouter 1 (Some (NewCollector 0 1))))) = Some c' \<and> dedupDropped c' + ttlExpiredDropped c' = 2"
proof -
  let ?evs = "[(0 :: go_time, dedup_msg 300), (0, dedup_msg 300), (0, dedup_msg 44), (0, dedup_msg 45)]"
  let ?r = "NewRouter 1 (Some (NewCollector 0 1))"
  have outs: "fst (dispatch_all ?evs ?r) = [dedup_msg 300, dedup_msg 45]"
    unfolding dispatch_all_new
    by (simp add: router_blocked_def msg_key_def dedup_msg_def zero_Message_def IsExpired_def)
  have mc: "rt_mc ?r = Some (NewCollector 0 1)" by (simp add: NewRouter_def)
  from router_accounting [OF router_tracks_new mc prod.collapse [of "dispatch_all ?evs ?r", symmetric]]
  obtain c' where c': "rt_mc (snd (dispatch_all ?evs ?r)) = Some c'"
    "of_nat (length ?evs) = of_nat (length (fst (dispatch_all ?evs ?r))) +
      (dedupDropped c' - dedupDropped (NewCollector 0 1)) + (ttlExpiredDropped c' - ttlExpiredDropped (NewCollector 0 1))"
    by (elim exE conjE) (rule that; assumption)
  from c'(2) have "(4 :: u64) = 2 + (dedupDropped c' + ttlExpiredDropped c')"
    unfolding outs by (simp add: NewCollector_def algebra_simps)
  then have "2 + (dedupDropped c' + ttlExpiredDropped c') = 2 + 2" by simp
  then have "dedupDropped c' + ttlExpiredDropped c' = 2" by (simp only: add_left_cancel)
  with c'(1) show ?thesis by blast
qed

text \<open>
  C34. A sender that restarts and numbers its messages from 1 again is silenced: once a number of at
  least 256 + n was seen on a stream, the first n messages of the restarted sender are all dropped.
\<close>

theorem restarted_sender_silenced:
  assumes "\<not> IsExpired t0 m0" and "n + 256 \<le> unat (Seq m0)"
    and "\<forall>(t, m) \<in> set evs. From m = From m0 \<and> StreamID m = StreamID m0 \<and> unat (Seq m) \<le> n"
  shows "fst (dispatch_all ((t0, m0) # evs) (NewRouter nid mc)) = [m0]"
proof -
  have "deliverable h evs = []" if "msg_key m0 \<in> set h" for h
    using that assms(3)
  proof (induction h evs rule: deliverable.induct)
    case (2 h now m evs)
    have "router_blocked h (msg_key m)"
      using 2(3,4) assms(2) by (force simp: router_blocked_def msg_key_def)
    with 2 show ?case by simp
  qed simp
  from this [of "[msg_key m0]"] assms(1) show ?thesis
    unfolding dispatch_all_new by (simp add: router_blocked_def)
qed

theorem restarted_sender_silenced_witness:
  "fst (dispatch_all [(0, dedup_msg 300), (0, dedup_msg 1), (0, dedup_msg 2), (0, dedup_msg 3)]
     (NewRouter 1 None)) = [dedup_msg 300]"
  by (rule restarted_sender_silenced [where n = 3])
    (simp_all add: dedup_msg_def zero_Message_def IsExpired_def)

end
