(* ===== verification/Heap_Order.thy ===== *)
theory Heap_Order
  imports Uav_Prelude
begin

text \<open>
  The order of an array heap, stated on the function from positions to keys, and what one exchange
  of a parent and a child does to it. \<open>Send_Queue\<close> uses these lemmas for the sift loops of
  \<open>container/heap\<close>. A key is a pair of a priority and an insertion number, ordered lexicographically.
\<close>

section \<open>Keys\<close>

datatype prio_key = PrioKey (pk_prio: u8) (pk_seq: u64)

instantiation prio_key :: linorder
begin

definition less_prio_key :: "prio_key \<Rightarrow> prio_key \<Rightarrow> bool" where
  "less_prio_key a b \<longleftrightarrow> pk_prio a < pk_prio b \<or> (pk_prio a = pk_prio b \<and> pk_seq a < pk_seq b)"

definition less_eq_prio_key :: "prio_key \<Rightarrow> prio_key \<Rightarrow> bool" where
  "less_eq_prio_key a b \<longleftrightarrow> pk_prio a < pk_prio b \<or> (pk_prio a = pk_prio b \<and> pk_seq a \<le> pk_seq b)"

instance
  by standard (auto simp: less_prio_key_def less_eq_prio_key_def prio_key.expand)

end

lemma less_PrioKey [simp]:
  "PrioKey p s < PrioKey p' s' \<longleftrightarrow> p < p' \<or> (p = p' \<and> s < s')"
  "PrioKey p s \<le> PrioKey p' s' \<longleftrightarrow> p < p' \<or> (p = p' \<and> s \<le> s')"
  by (simp_all add: less_prio_key_def less_eq_prio_key_def)

section \<open>Positions\<close>

definition par :: "nat \<Rightarrow> nat" where
  "par k = (k - 1) div 2"

lemma par_less: "0 < k \<Longrightarrow> par k < k"
  by (auto simp: par_def)

lemma par_le: "par k \<le> k"
  by (auto simp: par_def)

lemma par_child_iff: "0 < k \<Longrightarrow> par k = i \<longleftrightarrow> k = 2 * i + 1 \<or> k = 2 * i + 2"
  unfolding par_def by presburger

lemma left_child_le: "0 < k \<Longrightarrow> Suc (2 * par k) \<le> k"
  unfolding par_def by presburger

section \<open>Heap order and its exceptions\<close>

definition heap_ord :: "(nat \<Rightarrow> 'k::linorder) \<Rightarrow> nat \<Rightarrow> bool" where
  "heap_ord f n \<longleftrightarrow> (\<forall>k. 0 < k \<and> k < n \<longrightarrow> f (par k) \<le> f k)"

text \<open>The order holds except between \<open>i\<close> and its parent and between \<open>i\<close> and its children.\<close>

definition heap_exc :: "(nat \<Rightarrow> 'k::linorder) \<Rightarrow> nat \<Rightarrow> nat \<Rightarrow> bool" where
  "heap_exc f i n \<longleftrightarrow>
     (\<forall>k. 0 < k \<and> k < n \<and> k \<noteq> i \<and> par k \<noteq> i \<longrightarrow> f (par k) \<le> f k) \<and>
     (\<forall>k. 0 < k \<and> k < n \<and> par k = i \<and> 0 < i \<longrightarrow> f (par i) \<le> f k)"

definition kids_ok :: "(nat \<Rightarrow> 'k::linorder) \<Rightarrow> nat \<Rightarrow> nat \<Rightarrow> bool" where
  "kids_ok f i n \<longleftrightarrow> (\<forall>k. 0 < k \<and> k < n \<and> par k = i \<longrightarrow> f i \<le> f k)"

definition parent_ok :: "(nat \<Rightarrow> 'k::linorder) \<Rightarrow> nat \<Rightarrow> bool" where
  "parent_ok f i \<longleftrightarrow> (0 < i \<longrightarrow> f (par i) \<le> f i)"

lemma heap_ord_from_exc:
  "heap_exc f i n \<Longrightarrow> kids_ok f i n \<Longrightarrow> parent_ok f i \<Longrightarrow> heap_ord f n"
  unfolding heap_ord_def heap_exc_def kids_ok_def parent_ok_def by metis

lemma heap_ord_min:
  assumes "heap_ord f n" and "k < n"
  shows "f 0 \<le> f k"
  using assms(2)
proof (induction k rule: less_induct)
  case (less k)
  show ?case
  proof (cases "k = 0")
    case False
    then have "f 0 \<le> f (par k)" using less par_less [of k] by simp
    also have "\<dots> \<le> f k" using assms(1) less.prems False by (simp add: heap_ord_def)
    finally show ?thesis .
  qed simp
qed

lemma heap_exc_replace:
  assumes "heap_ord f n" and "\<And>k. k < n \<Longrightarrow> k \<noteq> i \<Longrightarrow> g k = f k"
  shows "heap_exc g i n"
proof -
  have "f (par i) \<le> f k" if "0 < k" "k < n" "par k = i" "0 < i" for k
  proof -
    have "f (par i) \<le> f i" using assms(1) that par_less [of k] by (simp add: heap_ord_def)
    also have "f i \<le> f k" using assms(1) that by (auto simp: heap_ord_def)
    finally show ?thesis .
  qed
  moreover have "par k < n" if "k < n" for k using that par_le [of k] by simp
  moreover have "par i \<noteq> i" if "0 < i" using par_less [OF that] by simp
  moreover have "k \<noteq> i" if "par k = i" "0 < k" for k using that par_less [of k] by auto
  moreover have "i < n" if "par k = i" "0 < k" "k < n" for k using that par_less [of k] by simp
  ultimately show ?thesis
    using assms unfolding heap_exc_def heap_ord_def by metis
qed

lemma heap_ord_cong: "(\<And>k. k < n \<Longrightarrow> f k = g k) \<Longrightarrow> heap_ord f n = heap_ord g n"
  unfolding heap_ord_def by (metis le_less_trans par_le)

lemma heap_exc_append:
  assumes "heap_ord f m" and "\<And>k. k < m \<Longrightarrow> g k = f k"
  shows "heap_exc g m (Suc m)" and "kids_ok g m (Suc m)"
proof -
  have no: "\<not> (0 < k \<and> k < Suc m \<and> par k = m)" for k using par_less [of k] by auto
  then show "kids_ok g m (Suc m)" by (auto simp: kids_ok_def)
  have "g (par k) \<le> g k" if "0 < k" "k < m" for k
    using assms that par_less [of k] by (simp add: heap_ord_def)
  moreover have "g (par m) \<le> g k" if "0 < k \<and> k < Suc m \<and> par k = m \<and> 0 < m" for k
    using no [of k] that by simp
  ultimately show "heap_exc g m (Suc m)" unfolding heap_exc_def less_Suc_eq by blast
qed

text \<open>Exchanging \<open>j\<close> with its larger parent moves the exception up.\<close>

lemma sift_up_step:
  fixes f :: "nat \<Rightarrow> 'k::linorder"
  defines "g j \<equiv> f(par j := f j, j := f (par j))"
  assumes exc: "heap_exc f j n" and kids: "kids_ok f j n" and j: "0 < j" "j < n"
    and lt: "f j < f (par j)"
  shows "heap_exc (g j) (par j) n" and "kids_ok (g j) (par j) n"
proof -
  let ?i = "par j"
  have ij: "?i < j" using j(1) by (rule par_less)
  have sib: "f ?i \<le> f k" if "0 < k" "k < n" "par k = ?i" "k \<noteq> j" for k
    using exc that ij by (auto simp: heap_exc_def)
  show "kids_ok (g j) ?i n"
    unfolding kids_ok_def g_def
  proof (intro allI impI)
    fix k assume k: "0 < k \<and> k < n \<and> par k = ?i"
    then have "k \<noteq> ?i" using par_less [of k] by auto
    then show "(f(?i := f j, j := f ?i)) ?i \<le> (f(?i := f j, j := f ?i)) k"
      using sib [of k] k lt ij by auto
  qed
  show "heap_exc (g j) ?i n"
    unfolding heap_exc_def g_def
  proof (intro conjI allI impI)
    fix k assume k: "0 < k \<and> k < n \<and> k \<noteq> ?i \<and> par k \<noteq> ?i"
    then have "k \<noteq> j" by auto
    then show "(f(?i := f j, j := f ?i)) (par k) \<le> (f(?i := f j, j := f ?i)) k"
      using exc j k by (auto simp: heap_exc_def)
  next
    fix k assume k: "0 < k \<and> k < n \<and> par k = ?i \<and> 0 < ?i"
    have pi: "par ?i < ?i" using k by (simp add: par_less)
    have top: "f (par ?i) \<le> f ?i"
      using exc ij j pi k unfolding heap_exc_def by (metis less_not_refl less_trans)
    have "k \<noteq> ?i" using k par_less [of k] by auto
    then show "(f(?i := f j, j := f ?i)) (par ?i) \<le> (f(?i := f j, j := f ?i)) k"
      using top sib [of k] k ij pi by auto
  qed
qed

text \<open>Exchanging \<open>i\<close> with its smaller child \<open>j\<close> moves the exception down.\<close>

lemma sift_down_step:
  fixes f :: "nat \<Rightarrow> 'k::linorder"
  defines "g i j \<equiv> f(i := f j, j := f i)"
  assumes exc: "heap_exc f i n" and j: "0 < j" "j < n" "par j = i"
    and least: "\<And>k. 0 < k \<Longrightarrow> k < n \<Longrightarrow> par k = i \<Longrightarrow> f j \<le> f k" and lt: "f j < f i"
  shows "heap_exc (g i j) j n" and "parent_ok (g i j) j"
proof -
  have ij: "i < j" using j par_less [of j] by simp
  show "parent_ok (g i j) j" using lt j ij by (simp add: parent_ok_def g_def)
  show "heap_exc (g i j) j n"
    unfolding heap_exc_def g_def
  proof (intro conjI allI impI)
    fix k assume k: "0 < k \<and> k < n \<and> k \<noteq> j \<and> par k \<noteq> j"
    have "k \<noteq> i \<or> f (par i) \<le> f j" using exc j k by (auto simp: heap_exc_def)
    moreover have "par k \<noteq> i \<Longrightarrow> k \<noteq> i \<Longrightarrow> f (par k) \<le> f k"
      using exc k by (auto simp: heap_exc_def)
    moreover have "par k = i \<Longrightarrow> f j \<le> f k \<and> k \<noteq> i" using least k par_less [of k] by auto
    moreover have "par i \<noteq> i \<or> i = 0" using par_less [of i] by (cases "i = 0") auto
    ultimately show "(f(i := f j, j := f i)) (par k) \<le> (f(i := f j, j := f i)) k"
      using k by auto
  next
    fix k assume k: "0 < k \<and> k < n \<and> par k = j \<and> 0 < j"
    have "k \<noteq> i" "k \<noteq> j" using k par_less [of k] ij by auto
    then show "(f(i := f j, j := f i)) (par j) \<le> (f(i := f j, j := f i)) k"
      using exc k j ij by (auto simp: heap_exc_def)
  qed
qed

end
