(* ===== verification/Send_Queue.thy ===== *)
theory Send_Queue
  imports Heap_Order Metrics_Collector
begin

text \<open>
  \<open>node/runtime/router.go\<close>, the outbound priority queue: \<open>msgHeap\<close> with the loops of
  \<open>container/heap\<close> that the code calls (\<open>up\<close>, \<open>down\<close>, \<open>Push\<close>, \<open>Pop\<close>, \<open>Remove\<close>), and \<open>SendQueue\<close>
  with its eviction. The optional collector is threaded through as \<open>Collector option\<close>.
\<close>

section \<open>The heap\<close>

record queueItem =
  qi_msg :: Message
  qi_seq :: u64
  qi_index :: nat

type_synonym msgHeap = "queueItem list"

definition Less :: "msgHeap \<Rightarrow> nat \<Rightarrow> nat \<Rightarrow> bool" where
  "Less h i j =
     (if Priority (qi_msg (h ! i)) \<noteq> Priority (qi_msg (h ! j))
      then Priority (qi_msg (h ! i)) < Priority (qi_msg (h ! j))
      else qi_seq (h ! i) < qi_seq (h ! j))"

definition Swap :: "msgHeap \<Rightarrow> nat \<Rightarrow> nat \<Rightarrow> msgHeap" where
  "Swap h i j =
     (let a = h ! i; b = h ! j in h[i := b\<lparr>qi_index := i\<rparr>, j := a\<lparr>qi_index := j\<rparr>])"

definition msgHeap_Push :: "msgHeap \<Rightarrow> queueItem \<Rightarrow> msgHeap" where
  "msgHeap_Push h item = h @ [item\<lparr>qi_index := length h\<rparr>]"

definition msgHeap_Pop :: "msgHeap \<Rightarrow> queueItem \<times> msgHeap" where
  "msgHeap_Pop h = (last h, butlast h)"

text \<open>\<open>i := (j - 1) / 2\<close> is 0 for \<open>j = 0\<close> in Go (division truncates) and here (subtraction stops).\<close>

function heap_up :: "msgHeap \<Rightarrow> nat \<Rightarrow> msgHeap" where
  "heap_up h j =
     (let i = (j - 1) div 2
      in if i = j \<or> \<not> Less h j i then h else heap_up (Swap h i j) i)"
  by pat_completeness auto
termination
  by (relation "measure snd") auto

function heap_down :: "msgHeap \<Rightarrow> nat \<Rightarrow> nat \<Rightarrow> msgHeap \<times> nat" where
  "heap_down h i n =
     (let j1 = 2 * i + 1
      in if j1 \<ge> n then (h, i)
         else let j2 = j1 + 1; j = (if j2 < n \<and> Less h j2 j1 then j2 else j1)
              in if \<not> Less h j i then (h, i) else heap_down (Swap h i j) j n)"
  by pat_completeness auto
termination
  by (relation "measure (\<lambda>(h, i, n). n - i)") (auto split: if_splits)

declare heap_up.simps [simp del] heap_down.simps [simp del]

definition heap_Push :: "msgHeap \<Rightarrow> queueItem \<Rightarrow> msgHeap" where
  "heap_Push h x = (let h = msgHeap_Push h x in heap_up h (length h - 1))"

definition heap_Pop :: "msgHeap \<Rightarrow> queueItem \<times> msgHeap" where
  "heap_Pop h =
     (let n = length h - 1; (h, _) = heap_down (Swap h 0 n) 0 n in msgHeap_Pop h)"

definition heap_Remove :: "msgHeap \<Rightarrow> nat \<Rightarrow> queueItem \<times> msgHeap" where
  "heap_Remove h i =
     (let n = length h - 1
      in msgHeap_Pop
           (if n \<noteq> i
            then (let (h, i') = heap_down (Swap h i n) i n in if i' > i then h else heap_up h i)
            else h))"

section \<open>The queue\<close>

record SendQueue =
  sq_h :: msgHeap
  sq_notifyC :: bool
  sq_counter :: u64
  sq_cap :: int

definition NewSendQueue :: "int \<Rightarrow> SendQueue go" where
  "NewSendQueue capacity =
     (if capacity < 0 then Inl NegativeMakeLen
      else Inr \<lparr>sq_h = [], sq_notifyC = False, sq_counter = 0, sq_cap = capacity\<rparr>)"

text \<open>The scan for the item to evict: the first one of the largest \<open>Priority\<close> value.\<close>

definition find_worst :: "msgHeap \<Rightarrow> queueItem go" where
  "find_worst h =
     (if h = [] then Inl IndexOutOfRange
      else Inr (foldl (\<lambda>worst it. if Priority (qi_msg it) > Priority (qi_msg worst) then it else worst)
                  (h ! 0) h))"

text \<open>The critical section of \<open>Push\<close>: evict if full, number the message and insert it.\<close>

definition push_locked ::
    "Message \<Rightarrow> SendQueue \<times> Collector option \<Rightarrow> (SendQueue \<times> Collector option) go" where
  "push_locked msg s =
     (case s of (q, mc) \<Rightarrow>
        (case (if int (length (sq_h q)) \<ge> sq_cap q
               then (case find_worst (sq_h q) of
                       Inl e \<Rightarrow> Inl e
                     | Inr worst \<Rightarrow>
                         Inr (q\<lparr>sq_h := snd (heap_Remove (sq_h q) (qi_index worst))\<rparr>,
                              map_option RecordQueueDrop mc))
               else Inr (q, mc)) of
           Inl e \<Rightarrow> Inl e
         | Inr (q, mc) \<Rightarrow>
             let q = q\<lparr>sq_counter := sq_counter q + 1\<rparr>
             in Inr (q\<lparr>sq_h := heap_Push (sq_h q) \<lparr>qi_msg = msg, qi_seq = sq_counter q, qi_index = 0\<rparr>\<rparr>, mc)))"

text \<open>The non-blocking send on the channel of capacity one, after the lock is released.\<close>

definition notify :: "SendQueue \<Rightarrow> SendQueue" where
  "notify q = q\<lparr>sq_notifyC := True\<rparr>"

definition SendQueue_Push ::
    "Message \<Rightarrow> SendQueue \<times> Collector option \<Rightarrow> (SendQueue \<times> Collector option) go" where
  "SendQueue_Push msg s =
     (case push_locked msg s of Inl e \<Rightarrow> Inl e | Inr (q, mc) \<Rightarrow> Inr (notify q, mc))"

definition SendQueue_Pop :: "SendQueue \<Rightarrow> (Message \<times> SendQueue) option" where
  "SendQueue_Pop q =
     (if sq_h q = [] then None
      else let (item, h) = heap_Pop (sq_h q) in Some (qi_msg item, q\<lparr>sq_h := h\<rparr>))"

section \<open>Keys, contents and the invariant\<close>

definition item_key :: "queueItem \<Rightarrow> prio_key" where
  "item_key it = PrioKey (Priority (qi_msg it)) (qi_seq it)"

definition keys :: "msgHeap \<Rightarrow> nat \<Rightarrow> prio_key" where
  "keys h k = item_key (h ! k)"

text \<open>What a queue holds, without the positions: messages with their insertion numbers.\<close>

definition entry :: "queueItem \<Rightarrow> Message \<times> u64" where
  "entry it = (qi_msg it, qi_seq it)"

definition entries :: "msgHeap \<Rightarrow> (Message \<times> u64) multiset" where
  "entries h = mset (map entry h)"

definition index_ok :: "msgHeap \<Rightarrow> bool" where
  "index_ok h \<longleftrightarrow> (\<forall>i < length h. qi_index (h ! i) = i)"

definition heap_inv :: "msgHeap \<Rightarrow> bool" where
  "heap_inv h \<longleftrightarrow> heap_ord (keys h) (length h) \<and> index_ok h"

lemma Less_keys: "Less h i j \<longleftrightarrow> keys h i < keys h j"
  by (auto simp: Less_def keys_def item_key_def)

lemma length_Swap [simp]: "length (Swap h i j) = length h"
  by (simp add: Swap_def Let_def)

lemma keys_Swap:
  assumes "i < length h" "j < length h"
  shows "keys (Swap h i j) = (keys h)(i := keys h j, j := keys h i)"
  using assms
  by (auto simp: fun_eq_iff keys_def Swap_def Let_def item_key_def nth_list_update)

lemma index_ok_Swap:
  "index_ok h \<Longrightarrow> i < length h \<Longrightarrow> j < length h \<Longrightarrow> index_ok (Swap h i j)"
  by (auto simp: index_ok_def Swap_def Let_def nth_list_update)

lemma entries_Swap:
  assumes "i < length h" "j < length h"
  shows "entries (Swap h i j) = entries h"
proof -
  have "map entry (Swap h i j) = (map entry h)[i := map entry h ! j, j := map entry h ! i]"
    using assms by (simp add: Swap_def Let_def map_update entry_def)
  then show ?thesis
    using assms mset_swap [of j "map entry h" i] by (simp only: entries_def length_map)
qed

text \<open>What every sift loop leaves alone.\<close>

definition same_heap :: "msgHeap \<Rightarrow> msgHeap \<Rightarrow> bool" where
  "same_heap h h' \<longleftrightarrow> length h' = length h \<and> entries h' = entries h \<and> (index_ok h \<longrightarrow> index_ok h')"

lemma same_heap_refl [simp]: "same_heap h h"
  by (simp add: same_heap_def)

lemma same_heap_trans [trans]: "same_heap a b \<Longrightarrow> same_heap b c \<Longrightarrow> same_heap a c"
  by (simp add: same_heap_def)

lemma same_heap_Swap: "i < length h \<Longrightarrow> j < length h \<Longrightarrow> same_heap h (Swap h i j)"
  by (simp add: same_heap_def entries_Swap index_ok_Swap)

section \<open>The sift loops\<close>

lemma heap_up_same: "j < length h \<Longrightarrow> same_heap h (heap_up h j)"
proof (induction h j rule: heap_up.induct)
  case (1 h j)
  let ?i = "(j - 1) div 2"
  show ?case
  proof (cases "?i = j \<or> \<not> Less h j ?i")
    case True
    then show ?thesis by (subst heap_up.simps) (simp add: Let_def)
  next
    case False
    have i: "?i < length h" using "1.prems" by linarith
    have "same_heap h (Swap h ?i j)" using i "1.prems" by (rule same_heap_Swap)
    also have "same_heap (Swap h ?i j) (heap_up (Swap h ?i j) ?i)"
      using "1.IH" False i by simp
    finally show ?thesis using False by (subst heap_up.simps) (simp add: Let_def)
  qed
qed

lemma heap_up_ord:
  assumes "n \<le> length h" "j < n" "heap_exc (keys h) j n" "kids_ok (keys h) j n"
  shows "heap_ord (keys (heap_up h j)) n"
  using assms
proof (induction h j rule: heap_up.induct)
  case (1 h j)
  let ?i = "(j - 1) div 2"
  have par: "par j = ?i" by (simp add: par_def)
  show ?case
  proof (cases "?i = j \<or> \<not> Less h j ?i")
    case True
    then have "parent_ok (keys h) j"
      by (auto simp: parent_ok_def par Less_keys)
    with "1.prems" have "heap_ord (keys h) n" by (blast intro: heap_ord_from_exc)
    with True show ?thesis by (subst heap_up.simps) (simp add: Let_def)
  next
    case False
    then have j0: "0 < j" and lt: "keys h j < keys h (par j)" by (auto simp: Less_keys par)
    have i: "?i < n" "?i < length h" "j < length h" using "1.prems" by linarith+
    have k: "keys (Swap h ?i j) = (keys h)(par j := keys h j, j := keys h (par j))"
      using i by (simp add: keys_Swap par)
    have "heap_ord (keys (heap_up (Swap h ?i j) ?i)) n"
    proof (rule "1.IH" [OF refl False])
      show "heap_exc (keys (Swap h ?i j)) ?i n" "kids_ok (keys (Swap h ?i j)) ?i n"
        using sift_up_step [OF "1.prems"(3,4) j0 "1.prems"(2) lt] unfolding k by (simp_all add: par)
    qed (use "1.prems" i in simp_all)
    with False show ?thesis by (subst heap_up.simps) (simp add: Let_def)
  qed
qed

text \<open>The child \<open>down\<close> compares with: the smaller of the two, the left one if there is no right one.\<close>

definition small_child :: "msgHeap \<Rightarrow> nat \<Rightarrow> nat \<Rightarrow> nat" where
  "small_child h i n = (if 2 * i + 2 < n \<and> Less h (2 * i + 2) (2 * i + 1) then 2 * i + 2 else 2 * i + 1)"

lemma heap_down_unfold:
  "heap_down h i n =
     (if n \<le> 2 * i + 1 \<or> \<not> Less h (small_child h i n) i then (h, i)
      else heap_down (Swap h i (small_child h i n)) (small_child h i n) n)"
  by (subst heap_down.simps) (simp add: Let_def small_child_def)

lemma small_child:
  assumes "2 * i + 1 < n"
  shows "0 < small_child h i n" "small_child h i n < n" "par (small_child h i n) = i"
    and "0 < k \<Longrightarrow> k < n \<Longrightarrow> par k = i \<Longrightarrow> keys h (small_child h i n) \<le> keys h k"
proof -
  show "0 < small_child h i n" "small_child h i n < n" "par (small_child h i n) = i"
    using assms by (auto simp: small_child_def par_def)
  show "keys h (small_child h i n) \<le> keys h k" if "0 < k" "k < n" "par k = i"
    using that par_child_iff [of k i] by (auto simp: small_child_def Less_keys)
qed

lemma heap_down_induct [case_names stop sift]:
  assumes "\<And>h i. n \<le> 2 * i + 1 \<or> \<not> Less h (small_child h i n) i \<Longrightarrow> P h i"
    and "\<And>h i. 2 * i + 1 < n \<Longrightarrow> Less h (small_child h i n) i \<Longrightarrow>
           P (Swap h i (small_child h i n)) (small_child h i n) \<Longrightarrow> P h i"
  shows "P h i"
proof (induction "n - i" arbitrary: h i rule: less_induct)
  case less
  show ?case
  proof (cases "n \<le> 2 * i + 1 \<or> \<not> Less h (small_child h i n) i")
    case True
    then show ?thesis by (rule assms(1))
  next
    case False
    then have c: "2 * i + 1 < n" by simp
    have "i < small_child h i n"
      using small_child(1,3) [OF c, of h] par_less [of "small_child h i n"] by simp
    then have "n - small_child h i n < n - i" using c by simp
    then have "P (Swap h i (small_child h i n)) (small_child h i n)" by (rule less)
    with False c show ?thesis using assms(2) [of i h] by simp
  qed
qed

lemma heap_down_same: "n \<le> length h \<Longrightarrow> i < length h \<Longrightarrow> same_heap h (fst (heap_down h i n))"
proof (induction h i rule: heap_down_induct [of n])
  case (stop h i)
  then show ?case by (subst heap_down_unfold) auto
next
  case (sift h i)
  let ?j = "small_child h i n"
  have j: "?j < length h" using small_child(2) [OF sift(1), of h] sift.prems by simp
  have "same_heap h (Swap h i ?j)" using sift.prems(2) j by (rule same_heap_Swap)
  also have "same_heap (Swap h i ?j) (fst (heap_down (Swap h i ?j) ?j n))"
    using sift j by simp
  finally show ?case using sift(1,2) by (subst heap_down_unfold) simp
qed

text \<open>
  \<open>down\<close> leaves the heap order with an exception only above the position where it stopped, and none
  at all if it moved.
\<close>

definition down_post :: "msgHeap \<Rightarrow> nat \<Rightarrow> nat \<Rightarrow> msgHeap \<times> nat \<Rightarrow> bool" where
  "down_post h i n r \<longleftrightarrow> (case r of (h', i') \<Rightarrow>
     heap_exc (keys h') i' n \<and> kids_ok (keys h') i' n \<and> i \<le> i' \<and>
     (if i' = i then h' = h else parent_ok (keys h') i'))"

lemma down_post_further:
  assumes "down_post h1 j n r" and "i < j" and "parent_ok (keys h1) j"
  shows "down_post h i n r"
proof (cases r)
  case (Pair h' i')
  with assms show ?thesis by (cases "i' = j") (auto simp: down_post_def)
qed

lemma heap_down_ord:
  "n \<le> length h \<Longrightarrow> i < length h \<Longrightarrow> heap_exc (keys h) i n \<Longrightarrow> down_post h i n (heap_down h i n)"
proof (induction h i rule: heap_down_induct [of n])
  case (stop h i)
  have "kids_ok (keys h) i n"
  proof (cases "n \<le> 2 * i + 1")
    case True
    have False if "0 < k" "k < n" "par k = i" for k
      using left_child_le [OF that(1)] that True by simp
    then show ?thesis by (auto simp: kids_ok_def)
  next
    case False
    then have "2 * i + 1 < n" by simp
    note least = small_child(4) [OF this]
    have "keys h i \<le> keys h (small_child h i n)" using stop.hyps False by (simp add: Less_keys)
    then show ?thesis unfolding kids_ok_def using least order_trans by blast
  qed
  with stop show ?case by (subst heap_down_unfold) (auto simp: down_post_def)
next
  case (sift h i)
  let ?j = "small_child h i n"
  note j = small_child(1-3) [OF sift.hyps(1), of h]
  have ij: "i < ?j" using j par_less [of ?j] by simp
  have k: "keys (Swap h i ?j) = (keys h)(i := keys h ?j, ?j := keys h i)"
    using sift.prems j by (simp add: keys_Swap)
  have lt: "keys h ?j < keys h i" using sift.hyps(2) by (simp add: Less_keys)
  note step = sift_down_step [OF sift.prems(3) j small_child(4) [OF sift.hyps(1)] lt, folded k]
  have "down_post (Swap h i ?j) ?j n (heap_down (Swap h i ?j) ?j n)"
    by (rule sift.IH [OF _ _ step(1)]) (use sift.prems(1,2) j(2) in simp_all)
  then have "down_post h i n (heap_down (Swap h i ?j) ?j n)"
    by (rule down_post_further [OF _ ij step(2)])
  then show ?case using sift.hyps by (subst heap_down_unfold) simp
qed

text \<open>The loops stay inside the part of the array they were given.\<close>

lemma heap_up_beyond: "j < length h \<Longrightarrow> j < k \<Longrightarrow> heap_up h j ! k = h ! k"
proof (induction h j rule: heap_up.induct)
  case (1 h j)
  let ?i = "(j - 1) div 2"
  show ?case
  proof (cases "?i = j \<or> \<not> Less h j ?i")
    case True
    then show ?thesis by (subst heap_up.simps) (simp add: Let_def)
  next
    case False
    have i: "?i < length h" "?i < k" using "1.prems" by linarith+
    then have "heap_up (Swap h ?i j) ?i ! k = Swap h ?i j ! k"
      using "1.IH" False by simp
    with False i "1.prems" show ?thesis
      by (subst heap_up.simps) (simp add: Let_def Swap_def)
  qed
qed

lemma heap_down_beyond: "n \<le> length h \<Longrightarrow> i < n \<Longrightarrow> n \<le> k \<Longrightarrow> fst (heap_down h i n) ! k = h ! k"
proof (induction h i rule: heap_down_induct [of n])
  case (stop h i)
  then show ?case by (subst heap_down_unfold) auto
next
  case (sift h i)
  let ?j = "small_child h i n"
  have j: "?j < n" by (rule small_child(2) [OF sift.hyps(1)])
  have "fst (heap_down (Swap h i ?j) ?j n) ! k = Swap h i ?j ! k"
    by (rule sift.IH) (use sift.prems j in simp_all)
  also have "\<dots> = h ! k" using sift.prems j by (simp add: Swap_def Let_def)
  finally show ?case using sift.hyps by (subst heap_down_unfold) simp
qed

section \<open>The heap operations\<close>

lemma index_ok_butlast: "index_ok h \<Longrightarrow> index_ok (butlast h)"
  by (simp add: index_ok_def nth_butlast)

lemma heap_inv_butlast:
  assumes "heap_ord (keys h) n" "index_ok h" "length h = Suc n"
  shows "heap_inv (butlast h)"
proof -
  have "heap_ord (keys (butlast h)) n \<longleftrightarrow> heap_ord (keys h) n"
    by (rule heap_ord_cong) (simp add: keys_def nth_butlast assms)
  with assms show ?thesis by (simp add: heap_inv_def index_ok_butlast)
qed

lemma entries_butlast: "h \<noteq> [] \<Longrightarrow> entries h = add_mset (entry (last h)) (entries (butlast h))"
proof -
  assume "h \<noteq> []"
  then have "entries h = entries (butlast h @ [last h])" by simp
  also have "\<dots> = add_mset (entry (last h)) (entries (butlast h))" by (simp add: entries_def)
  finally show ?thesis .
qed

lemma heap_Push_correct:
  assumes "heap_inv h"
  shows "heap_inv (heap_Push h x)" and "entries (heap_Push h x) = add_mset (entry x) (entries h)"
    and "length (heap_Push h x) = Suc (length h)"
proof -
  let ?h = "msgHeap_Push h x"
  have len: "length ?h = Suc (length h)" by (simp add: msgHeap_Push_def)
  have idx: "index_ok ?h"
    using assms by (auto simp: heap_inv_def index_ok_def msgHeap_Push_def nth_append)
  have same: "same_heap ?h (heap_up ?h (length h))" by (rule heap_up_same) (simp add: len)
  have "keys ?h k = keys h k" if "k < length h" for k
    using that by (simp add: keys_def msgHeap_Push_def nth_append)
  with assms have "heap_exc (keys ?h) (length h) (Suc (length h))" "kids_ok (keys ?h) (length h) (Suc (length h))"
    using heap_exc_append [of "keys h" "length h" "keys ?h"] by (simp_all add: heap_inv_def)
  then have "heap_ord (keys (heap_up ?h (length h))) (Suc (length h))"
    by (intro heap_up_ord) (simp_all add: len)
  with same idx len show "heap_inv (heap_Push h x)" "length (heap_Push h x) = Suc (length h)"
    by (simp_all add: heap_Push_def Let_def heap_inv_def same_heap_def)
  show "entries (heap_Push h x) = add_mset (entry x) (entries h)"
    using same by (simp add: heap_Push_def Let_def same_heap_def len)
      (simp add: entries_def msgHeap_Push_def entry_def)
qed

text \<open>What \<open>Pop\<close> and \<open>Remove\<close> have in common: move \<open>i\<close> to the end, repair the rest, cut off the end.\<close>

lemma repair_and_cut:
  assumes h: "index_ok h" "length h = Suc n"
    and same: "same_heap h h'" and ord: "heap_ord (keys h') n" and end_eq: "entry (h' ! n) = e"
  shows "heap_inv (butlast h')" and "entries h = add_mset e (entries (butlast h'))"
    and "entry (last h') = e" and "length (butlast h') = n"
proof -
  from h same have h': "index_ok h'" "length h' = Suc n" "h' \<noteq> []"
    by (auto simp: same_heap_def)
  then show "heap_inv (butlast h')" "length (butlast h') = n"
    using ord by (simp_all add: heap_inv_butlast)
  have "last h' = h' ! n" using h' by (simp add: last_conv_nth)
  then show "entry (last h') = e" by (simp add: end_eq)
  then show "entries h = add_mset e (entries (butlast h'))"
    using same h'(3) by (simp add: same_heap_def entries_butlast)
qed

lemma heap_exc_swapped_out:
  assumes "heap_inv h" "length h = Suc n" "i < n"
  shows "heap_exc (keys (Swap h i n)) i n"
proof (rule heap_exc_replace)
  show "heap_ord (keys h) n" using assms by (auto simp: heap_inv_def heap_ord_def)
  show "keys (Swap h i n) k = keys h k" if "k < n" "k \<noteq> i" for k
    using assms that by (simp add: keys_Swap)
qed

lemma entry_Swap_end: "i < length h \<Longrightarrow> n < length h \<Longrightarrow> entry (Swap h i n ! n) = entry (h ! i)"
  by (simp add: Swap_def Let_def entry_def nth_list_update)

lemma heap_Pop_correct:
  assumes inv: "heap_inv h" and ne: "h \<noteq> []" and pop: "heap_Pop h = (it, h')"
  shows "heap_inv h'" and "entries h = add_mset (entry it) (entries h')" and "entry it = entry (h ! 0)"
    and "length h = Suc (length h')"
proof -
  obtain n where n: "length h = Suc n" using ne by (cases h) simp_all
  let ?s = "Swap h 0 n"
  obtain g i' where g: "heap_down ?s 0 n = (g, i')" by fastforce
  have "same_heap h ?s" using n by (intro same_heap_Swap) simp_all
  also have "same_heap ?s g" using heap_down_same [of n ?s 0] n g by simp
  finally have same: "same_heap h g" .
  have ord: "heap_ord (keys g) n"
  proof (cases "n = 0")
    case False
    have "down_post ?s 0 n (g, i')"
      using heap_down_ord [of n ?s 0] heap_exc_swapped_out [OF inv n, of 0] n g False by simp
    then show ?thesis
      by (auto simp: down_post_def parent_ok_def split: if_splits intro: heap_ord_from_exc)
  qed (simp add: heap_ord_def)
  have "g ! n = ?s ! n"
  proof (cases "n = 0")
    case True
    then show ?thesis using g heap_down_unfold [of ?s 0 n] by simp
  next
    case False
    then show ?thesis using heap_down_beyond [of n ?s 0 n] n g by simp
  qed
  then have e: "entry (g ! n) = entry (h ! 0)" using n entry_Swap_end [of 0 h n] by simp
  have r: "it = last g" "h' = butlast g"
    using pop g n by (simp_all add: heap_Pop_def Let_def msgHeap_Pop_def)
  have idx: "index_ok h" using inv by (simp add: heap_inv_def)
  from repair_and_cut [OF idx n same ord e] n r
  show "heap_inv h'" "entries h = add_mset (entry it) (entries h')" "entry it = entry (h ! 0)"
    "length h = Suc (length h')" by simp_all
qed

lemma heap_Remove_correct:
  assumes inv: "heap_inv h" and i: "i < length h" and rem: "heap_Remove h i = (it, h')"
  shows "heap_inv h'" and "entries h = add_mset (entry (h ! i)) (entries h')"
    and "entry it = entry (h ! i)" and "length h = Suc (length h')"
proof -
  obtain n where n: "length h = Suc n" using i by (cases h) simp_all
  have idx: "index_ok h" using inv by (simp add: heap_inv_def)
  define g where "g = (if n \<noteq> i
    then (let (h, i') = heap_down (Swap h i n) i n in if i' > i then h else heap_up h i) else h)"
  have r: "it = last g" "h' = butlast g"
    using rem n by (simp_all add: heap_Remove_def g_def msgHeap_Pop_def)
  have "same_heap h g \<and> heap_ord (keys g) n \<and> entry (g ! n) = entry (h ! i)"
  proof (cases "n = i")
    case True
    then have "g = h" by (simp add: g_def)
    with True inv n show ?thesis by (auto simp: heap_inv_def heap_ord_def)
  next
    case False
    with i n have lt: "i < n" by simp
    let ?s = "Swap h i n"
    obtain d i' where d: "heap_down ?s i n = (d, i')" by fastforce
    have "same_heap h ?s" using n lt by (intro same_heap_Swap) simp_all
    also have "same_heap ?s d" using heap_down_same [of n ?s i] n lt d by simp
    finally have same: "same_heap h d" .
    then have len: "length d = Suc n" using n by (simp add: same_heap_def)
    have post: "down_post ?s i n (d, i')"
      using heap_down_ord [of n ?s i] heap_exc_swapped_out [OF inv n lt] n lt d by simp
    have dn: "d ! n = ?s ! n" using heap_down_beyond [of n ?s i n] n lt d by simp
    have e: "entry (?s ! n) = entry (h ! i)" using n lt by (intro entry_Swap_end) simp_all
    show ?thesis
    proof (cases "i' > i")
      case True
      with post have "heap_ord (keys d) n"
        by (auto simp: down_post_def intro: heap_ord_from_exc)
      with True False same e dn show ?thesis by (simp add: g_def d)
    next
      case stay: False
      with post have "heap_exc (keys d) i n" "kids_ok (keys d) i n" by (auto simp: down_post_def)
      then have "heap_ord (keys (heap_up d i)) n" using len lt by (intro heap_up_ord) simp_all
      moreover have "same_heap h (heap_up d i)"
        using same_heap_trans [OF same heap_up_same] len lt by simp
      moreover have "heap_up d i ! n = d ! n" using len lt by (intro heap_up_beyond) simp_all
      ultimately show ?thesis using stay False e dn by (simp add: g_def d)
    qed
  qed
  then have same: "same_heap h g" and ord: "heap_ord (keys g) n" and e: "entry (g ! n) = entry (h ! i)"
    by simp_all
  from repair_and_cut [OF idx n same ord e] n r
  show "heap_inv h'" "entries h = add_mset (entry (h ! i)) (entries h')"
    "entry it = entry (h ! i)" "length h = Suc (length h')" by simp_all
qed

section \<open>The priority queue contract\<close>

text \<open>Popping until the queue is empty, with a bound on the number of pops.\<close>

fun pop_all :: "('q \<Rightarrow> ('a \<times> 'q) option) \<Rightarrow> nat \<Rightarrow> 'q \<Rightarrow> 'a list \<times> 'q" where
  "pop_all pop 0 q = ([], q)"
| "pop_all pop (Suc n) q =
     (case pop q of
        None \<Rightarrow> ([], q)
      | Some (x, q') \<Rightarrow> (let (xs, q'') = pop_all pop n q' in (x # xs, q'')))"

text \<open>
  What a client of the queue relies on: \<open>pop\<close> takes out an entry of the smallest key, and fails only
  on an empty queue.
\<close>

locale prio_queue =
  fixes pop :: "'q \<Rightarrow> ('a \<times> 'q) option"
    and bag :: "'q \<Rightarrow> 'e multiset"
    and key :: "'e \<Rightarrow> 'k::linorder"
    and out :: "'e \<Rightarrow> 'a"
    and invar :: "'q \<Rightarrow> bool"
  assumes pop_None: "invar q \<Longrightarrow> pop q = None \<longleftrightarrow> bag q = {#}"
    and pop_Some: "invar q \<Longrightarrow> pop q = Some (x, q') \<Longrightarrow>
      \<exists>e. x = out e \<and> bag q = add_mset e (bag q') \<and> (\<forall>e' \<in># bag q. key e \<le> key e') \<and> invar q'"
begin

lemma pop_all_sorted:
  assumes "invar q" and "size (bag q) \<le> n"
  shows "\<exists>es q'. pop_all pop n q = (map out es, q') \<and> mset es = bag q \<and> sorted (map key es)
    \<and> bag q' = {#} \<and> invar q'"
  using assms
proof (induction n arbitrary: q)
  case 0
  then show ?case by simp
next
  case (Suc n)
  show ?case
  proof (cases "pop q")
    case None
    with pop_None [OF Suc.prems(1)] Suc.prems show ?thesis by simp
  next
    case (Some r)
    then obtain x q1 where p: "pop q = Some (x, q1)" by (cases r) simp
    from pop_Some [OF Suc.prems(1) p] obtain e where e: "x = out e" "bag q = add_mset e (bag q1)"
      "\<forall>e' \<in># bag q. key e \<le> key e'" "invar q1" by blast
    with Suc.prems have "size (bag q1) \<le> n" by simp
    from Suc.IH [OF e(4) this] obtain es q2 where "pop_all pop n q1 = (map out es, q2)"
      "mset es = bag q1" "sorted (map key es)" "bag q2 = {#}" "invar q2" by blast
    with p e have "pop_all pop (Suc n) q = (map out (e # es), q2) \<and> mset (e # es) = bag q
        \<and> sorted (map key (e # es)) \<and> bag q2 = {#} \<and> invar q2"
      by (auto simp flip: set_mset_mset)
    then show ?thesis by blast
  qed
qed

end

section \<open>The send queue satisfies the contract\<close>

definition sq_inv :: "SendQueue \<Rightarrow> bool" where
  "sq_inv q \<longleftrightarrow> heap_inv (sq_h q) \<and> 1 \<le> sq_cap q \<and> int (length (sq_h q)) \<le> sq_cap q"

abbreviation sq_bag :: "SendQueue \<Rightarrow> (Message \<times> u64) multiset" where
  "sq_bag q \<equiv> entries (sq_h q)"

definition entry_key :: "Message \<times> u64 \<Rightarrow> prio_key" where
  "entry_key e = PrioKey (Priority (fst e)) (snd e)"

lemma entry_key_entry [simp]: "entry_key (entry it) = item_key it"
  by (simp add: entry_key_def entry_def item_key_def)

lemma size_entries [simp]: "size (entries h) = length h"
  by (simp add: entries_def)

lemma heap_root_min:
  assumes "heap_inv h" and "e \<in># entries h"
  shows "entry_key (entry (h ! 0)) \<le> entry_key e"
proof -
  from assms(2) obtain k where "k < length h" "e = entry (h ! k)"
    by (auto simp: entries_def in_set_conv_nth)
  with assms(1) heap_ord_min [of "keys h" "length h" k] show ?thesis
    by (simp add: heap_inv_def keys_def)
qed

lemma sq_Pop_spec:
  assumes "sq_inv q" and "SendQueue_Pop q = Some (x, q')"
  shows "\<exists>e. x = fst e \<and> sq_bag q = add_mset e (sq_bag q') \<and>
    (\<forall>e' \<in># sq_bag q. entry_key e \<le> entry_key e') \<and> sq_inv q'"
proof -
  from assms(2) obtain it h' where p: "sq_h q \<noteq> []" "heap_Pop (sq_h q) = (it, h')"
    and r: "x = qi_msg it" "q' = q\<lparr>sq_h := h'\<rparr>"
    by (auto simp: SendQueue_Pop_def split: if_splits prod.splits)
  from assms(1) have inv: "heap_inv (sq_h q)" by (simp add: sq_inv_def)
  note pop = heap_Pop_correct [OF inv p]
  have "sq_bag q = add_mset (entry it) (sq_bag q')" using pop r by simp
  moreover have "\<forall>e' \<in># sq_bag q. entry_key (entry it) \<le> entry_key e'"
    using heap_root_min [OF inv] pop(3) by simp
  moreover have "sq_inv q'" using assms(1) pop r by (simp add: sq_inv_def)
  moreover have "x = fst (entry it)" using r by (simp add: entry_def)
  ultimately show ?thesis by blast
qed

lemma sq_Pop_None: "SendQueue_Pop q = None \<longleftrightarrow> sq_bag q = {#}"
  by (auto simp: SendQueue_Pop_def entries_def split: prod.splits)

interpretation sq: prio_queue SendQueue_Pop "\<lambda>q. sq_bag q" entry_key fst sq_inv
  by unfold_locales (rule sq_Pop_None, rule sq_Pop_spec)

lemma sq_inv_New: "1 \<le> c \<Longrightarrow> NewSendQueue c = Inr q \<Longrightarrow> sq_inv q \<and> sq_h q = [] \<and> sq_counter q = 0 \<and> sq_cap q = c"
  by (auto simp: NewSendQueue_def sq_inv_def heap_inv_def heap_ord_def index_ok_def)

text \<open>The scan returns an item of the heap with the largest priority value.\<close>

lemma foldl_worst:
  "foldl (\<lambda>w it. if f it > (f w :: 'k::linorder) then it else w) a xs \<in> insert a (set xs) \<and>
   (\<forall>x \<in> insert a (set xs). f x \<le> f (foldl (\<lambda>w it. if f it > f w then it else w) a xs))"
proof (induction xs arbitrary: a)
  case Nil
  then show ?case by simp
next
  case (Cons y ys)
  show ?case
  proof (cases "f y > f a")
    case True
    then show ?thesis using Cons [of y] by (auto dest: order.strict_trans2 intro: less_imp_le)
  next
    case False
    then show ?thesis using Cons [of a] by (auto intro: order_trans simp: not_less)
  qed
qed

lemma find_worst_spec:
  assumes "h \<noteq> []"
  obtains w where "find_worst h = Inr w" "w \<in> set h"
    "\<forall>it \<in> set h. Priority (qi_msg it) \<le> Priority (qi_msg w)"
  using foldl_worst [of "\<lambda>it. Priority (qi_msg it)" "h ! 0" h] assms that
  by (auto simp: find_worst_def insert_absorb)

definition pushed :: "Message \<Rightarrow> SendQueue \<Rightarrow> SendQueue \<Rightarrow> bool" where
  "pushed msg q q' \<longleftrightarrow> sq_inv q' \<and> sq_cap q' = sq_cap q \<and> sq_counter q' = sq_counter q + 1 \<and> sq_notifyC q'"

lemma SendQueue_Push_space:
  assumes "sq_inv q" and "int (length (sq_h q)) < sq_cap q"
  obtains q' where "SendQueue_Push msg (q, mc) = Inr (q', mc)" "pushed msg q q'"
    "sq_bag q' = add_mset (msg, sq_counter q + 1) (sq_bag q)"
  using assms that heap_Push_correct [of "sq_h q" "\<lparr>qi_msg = msg, qi_seq = sq_counter q + 1, qi_index = 0\<rparr>"]
  by (auto simp: SendQueue_Push_def push_locked_def notify_def Let_def sq_inv_def entry_def pushed_def)

lemma SendQueue_Push_full:
  assumes "sq_inv q" and "sq_cap q \<le> int (length (sq_h q))"
  obtains q' e where "SendQueue_Push msg (q, mc) = Inr (q', map_option RecordQueueDrop mc)"
    "pushed msg q q'" "e \<in># sq_bag q" "\<forall>e' \<in># sq_bag q. Priority (fst e') \<le> Priority (fst e)"
    "sq_bag q' = add_mset (msg, sq_counter q + 1) (sq_bag q - {#e#})"
proof -
  let ?h = "sq_h q"
  from assms have ne: "?h \<noteq> []" and inv: "heap_inv ?h" by (auto simp: sq_inv_def)
  obtain w where w: "find_worst ?h = Inr w" "w \<in> set ?h"
    "\<forall>it \<in> set ?h. Priority (qi_msg it) \<le> Priority (qi_msg w)" by (rule find_worst_spec [OF ne])
  then obtain i where i: "i < length ?h" "w = ?h ! i" by (auto simp: in_set_conv_nth)
  then have iw: "qi_index w = i" using inv by (simp add: heap_inv_def index_ok_def)
  obtain it h1 where rem: "heap_Remove ?h i = (it, h1)" by fastforce
  note r = heap_Remove_correct [OF inv i(1) rem]
  let ?x = "\<lparr>qi_msg = msg, qi_seq = sq_counter q + 1, qi_index = 0\<rparr>"
  note p = heap_Push_correct [OF r(1), of ?x]
  let ?q' = "q\<lparr>sq_counter := sq_counter q + 1, sq_h := heap_Push h1 ?x, sq_notifyC := True\<rparr>"
  have push: "SendQueue_Push msg (q, mc) = Inr (?q', map_option RecordQueueDrop mc)"
    using assms(2) w(1) iw rem by (simp add: SendQueue_Push_def push_locked_def notify_def Let_def)
  have pq: "pushed msg q ?q'"
    using assms p r by (simp add: pushed_def sq_inv_def)
  have bag: "sq_bag ?q' = add_mset (msg, sq_counter q + 1) (sq_bag q - {#entry w#})"
    using p r(2) i(2) by (simp add: entry_def)
  have mem: "entry w \<in># sq_bag q" using w(2) by (simp add: entries_def)
  have worst: "\<forall>e' \<in># sq_bag q. Priority (fst e') \<le> Priority (fst (entry w))"
    using w(3) by (auto simp: entries_def entry_def)
  show ?thesis by (rule that [OF push pq mem worst bag])
qed

section \<open>Pushing a list of messages\<close>

fun push_list :: "Message list \<Rightarrow> SendQueue \<times> Collector option \<Rightarrow> (SendQueue \<times> Collector option) go" where
  "push_list [] s = Inr s"
| "push_list (m # ms) s = (case SendQueue_Push m s of Inl e \<Rightarrow> Inl e | Inr s' \<Rightarrow> push_list ms s')"

text \<open>The entries a list of messages becomes: insertion numbers count up from the counter.\<close>

fun numbered :: "u64 \<Rightarrow> Message list \<Rightarrow> (Message \<times> u64) list" where
  "numbered c [] = []"
| "numbered c (m # ms) = (m, c + 1) # numbered (c + 1) ms"

lemma push_list_space:
  "sq_inv q \<Longrightarrow> int (length (sq_h q) + length ms) \<le> sq_cap q \<Longrightarrow>
     \<exists>q'. push_list ms (q, mc) = Inr (q', mc) \<and> sq_inv q' \<and>
       sq_bag q' = sq_bag q + mset (numbered (sq_counter q) ms)"
proof (induction ms arbitrary: q)
  case Nil
  then show ?case by simp
next
  case (Cons m ms)
  from Cons.prems obtain q1 where q1: "SendQueue_Push m (q, mc) = Inr (q1, mc)" "pushed m q q1"
    "sq_bag q1 = add_mset (m, sq_counter q + 1) (sq_bag q)"
    by (auto intro: SendQueue_Push_space [of q m mc])
  have "size (sq_bag q1) = Suc (size (sq_bag q))" by (simp only: q1(3) size_add_mset)
  then have "length (sq_h q1) = Suc (length (sq_h q))" by (simp only: size_entries)
  with Cons.prems q1(2) Cons.IH [of q1] obtain q2 where
    "push_list ms (q1, mc) = Inr (q2, mc)" "sq_inv q2"
    "sq_bag q2 = sq_bag q1 + mset (numbered (sq_counter q1) ms)"
    by (auto simp: pushed_def)
  with q1 show ?case by (auto simp: pushed_def)
qed

lemma length_numbered [simp]: "length (numbered c ms) = length ms"
  by (induction ms arbitrary: c) simp_all

lemma map_fst_numbered [simp]: "map fst (numbered c ms) = ms"
  by (induction ms arbitrary: c) simp_all

lemma numbered_increasing:
  "unat c + length ms < 2 ^ 64 \<Longrightarrow>
     sorted_wrt (<) (map snd (numbered c ms)) \<and> (\<forall>e \<in> set (numbered c ms). c < snd e)"
proof (induction ms arbitrary: c)
  case Nil
  then show ?case by simp
next
  case (Cons m ms)
  have "unat (c + 1) = Suc (unat c)"
    using Cons.prems by (simp add: unat_word_ariths)
  then have "c < c + 1" and "unat (c + 1) + length ms < 2 ^ 64"
    using Cons.prems by (simp_all add: word_less_nat_alt)
  with Cons.IH [of "c + 1"] show ?case by (auto dest: less_trans)
qed

text \<open>Two lists of the same entries, both increasing in a key without duplicates, are equal.\<close>

lemma sorted_key_unique:
  fixes f :: "'a \<Rightarrow> 'k::linorder"
  assumes "mset xs = mset ys" "sorted (map f xs)" "sorted_wrt (<) (map f ys)"
  shows "xs = ys"
proof -
  have ys: "sorted (map f ys)" "distinct (map f ys)"
    using assms(3) by (simp_all add: strict_sorted_iff)
  have m: "mset (map f xs) = mset (map f ys)" using assms(1) by simp
  then have "map f xs = map f ys"
    using properties_for_sort [OF m assms(2)] properties_for_sort [OF refl ys(1)] by simp
  moreover have "inj_on f (set xs \<union> set ys)"
    using ys(2) mset_eq_setD [OF assms(1)] by (simp add: distinct_map)
  ultimately show ?thesis by (simp add: inj_on_map_eq_map)
qed

lemma map_insort_comp: "map g (insort_key (f \<circ> g) x xs) = insort_key f (g x) (map g xs)"
  by (induction xs) simp_all

lemma map_sort_comp: "map g (sort_key (f \<circ> g) xs) = sort_key f (map g xs)"
  by (induction xs) (simp_all only: sort_key_simps list.map map_insort_comp)

lemma drained_is_stable_sort:
  assumes "mset es = mset (numbered c ms)" "sorted (map entry_key es)" "unat c + length ms < 2 ^ 64"
  shows "map fst es = sort_key Priority ms"
proof -
  let ?xs = "numbered c ms"
  let ?P = "\<lambda>e. Priority (fst e)"
  have prio: "sorted (map ?P es)"
    using assms(2) by (auto simp: sorted_map entry_key_def elim!: sorted_wrt_mono_rel [rotated])
  have "filter (\<lambda>x. ?P k = ?P x) es = filter (\<lambda>x. ?P k = ?P x) ?xs" for k
  proof (rule sorted_key_unique [where f = snd])
    show "mset (filter (\<lambda>x. ?P k = ?P x) es) = mset (filter (\<lambda>x. ?P k = ?P x) ?xs)"
      using assms(1) by (simp add: mset_filter)
    have "sorted_wrt (\<lambda>a b. entry_key a \<le> entry_key b) (filter (\<lambda>x. ?P k = ?P x) es)"
      using assms(2) by (simp add: sorted_map sorted_wrt_filter)
    then show "sorted (map snd (filter (\<lambda>x. ?P k = ?P x) es))"
      unfolding sorted_map by (rule sorted_wrt_mono_rel [rotated]) (auto simp: entry_key_def)
    show "sorted_wrt (<) (map snd (filter (\<lambda>x. ?P k = ?P x) ?xs))"
      using numbered_increasing [OF assms(3)] by (simp add: sorted_wrt_map sorted_wrt_filter)
  qed
  then have "sort_key ?P ?xs = es"
    using assms(1) prio by (intro properties_for_sort_key) simp_all
  then have "map fst es = map fst (sort_key (Priority \<circ> fst) ?xs)" by (simp add: comp_def)
  also have "\<dots> = sort_key Priority (map fst ?xs)" by (rule map_sort_comp)
  finally show ?thesis by simp
qed

section \<open>Properties\<close>

text \<open>
  C7. Priority scheduling: pushing messages into a fresh queue that has room for them and popping
  until it is empty gives a stable sort of the messages by priority: lower priority values first,
  and first-in first-out among messages of the same priority.
\<close>

theorem send_queue_stable_priority_order:
  assumes "NewSendQueue c = Inr q0" and "1 \<le> c" and "int (length ms) \<le> c" and "length ms < 2 ^ 64"
  shows "\<exists>q q'. push_list ms (q0, mc) = Inr (q, mc) \<and>
    pop_all SendQueue_Pop (length ms) q = (sort_key Priority ms, q') \<and> sq_h q' = []"
proof -
  note new = sq_inv_New [OF assms(2,1)]
  with assms push_list_space [of q0 ms mc] obtain q where q: "push_list ms (q0, mc) = Inr (q, mc)"
    "sq_inv q" "sq_bag q = mset (numbered 0 ms)" by (auto simp: entries_def)
  have "size (sq_bag q) = length (map fst (numbered 0 ms))" unfolding q(3) by simp
  then have "size (sq_bag q) \<le> length ms" by simp
  from sq.pop_all_sorted [OF q(2) this] q(3) obtain es q' where
    "pop_all SendQueue_Pop (length ms) q = (map fst es, q')"
    "mset es = mset (numbered 0 ms)" "sorted (map entry_key es)" "sq_bag q' = {#}" by auto
  with assms(4) q(1) drained_is_stable_sort [of es 0 ms] show ?thesis by (auto simp: entries_def)
qed

definition prio_msg :: "u8 \<Rightarrow> u32 \<Rightarrow> Message" where
  "prio_msg p s = zero_Message\<lparr>Priority := p, Seq := s\<rparr>"

theorem send_queue_stable_priority_order_witness:
  "\<exists>q0 q q'. NewSendQueue 4 = Inr q0 \<and>
     push_list [prio_msg 3 1, prio_msg 1 2, prio_msg 0 3, prio_msg 1 4] (q0, None) = Inr (q, None) \<and>
     pop_all SendQueue_Pop 4 q = ([prio_msg 0 3, prio_msg 1 2, prio_msg 1 4, prio_msg 3 1], q')"
proof -
  let ?ms = "[prio_msg 3 1, prio_msg 1 2, prio_msg 0 3, prio_msg 1 4]"
  obtain q0 where q0: "NewSendQueue 4 = Inr q0" by (simp add: NewSendQueue_def)
  have len: "length ?ms = 4" by simp
  have "sort_key Priority ?ms = [prio_msg 0 3, prio_msg 1 2, prio_msg 1 4, prio_msg 3 1]"
    by (simp add: prio_msg_def zero_Message_def word_le_nat_alt)
  moreover have "\<exists>q q'. push_list ?ms (q0, None) = Inr (q, None) \<and>
      pop_all SendQueue_Pop (length ?ms) q = (sort_key Priority ?ms, q') \<and> sq_h q' = []"
    by (rule send_queue_stable_priority_order [OF q0]) simp_all
  ultimately show ?thesis unfolding len using q0 by metis
qed

text \<open>
  C14. Every push on a well-formed queue keeps it well-formed (heap order, positions, capacity) and
  returns. With room, it only adds the message. On a full queue it evicts exactly one entry, whose
  priority value is the largest of those queued, counts the drop, and then adds the message.
\<close>

theorem SendQueue_Push_correct:
  assumes "sq_inv q"
  shows "\<exists>q' mc'. SendQueue_Push msg (q, mc) = Inr (q', mc') \<and> sq_inv q' \<and> sq_cap q' = sq_cap q \<and>
    (if int (length (sq_h q)) < sq_cap q
     then mc' = mc \<and> sq_bag q' = add_mset (msg, sq_counter q + 1) (sq_bag q)
     else mc' = map_option RecordQueueDrop mc \<and>
       (\<exists>e. e \<in># sq_bag q \<and> (\<forall>e' \<in># sq_bag q. Priority (fst e') \<le> Priority (fst e)) \<and>
         sq_bag q' = add_mset (msg, sq_counter q + 1) (sq_bag q - {#e#})))"
proof (cases "int (length (sq_h q)) < sq_cap q")
  case True
  from SendQueue_Push_space [OF assms this, of msg mc] obtain q' where
    "SendQueue_Push msg (q, mc) = Inr (q', mc)" "pushed msg q q'"
    "sq_bag q' = add_mset (msg, sq_counter q + 1) (sq_bag q)" .
  with True show ?thesis by (auto simp: pushed_def)
next
  case False
  then have full: "sq_cap q \<le> int (length (sq_h q))" by simp
  from SendQueue_Push_full [OF assms full, of msg mc] obtain q' e where
    "SendQueue_Push msg (q, mc) = Inr (q', map_option RecordQueueDrop mc)" "pushed msg q q'"
    "e \<in># sq_bag q" "\<forall>e' \<in># sq_bag q. Priority (fst e') \<le> Priority (fst e)"
    "sq_bag q' = add_mset (msg, sq_counter q + 1) (sq_bag q - {#e#})" .
  then show ?thesis unfolding pushed_def if_not_P [OF False] by blast
qed

text \<open>A full queue of one collision-avoidance message, for the witnesses.\<close>

definition full_queue :: SendQueue where
  "full_queue = \<lparr>sq_h = [\<lparr>qi_msg = prio_msg 0 1, qi_seq = 1, qi_index = 0\<rparr>],
     sq_notifyC = True, sq_counter = 1, sq_cap = 1\<rparr>"

lemma sq_inv_full_queue: "sq_inv full_queue"
  by (simp add: sq_inv_def full_queue_def heap_inv_def heap_ord_def index_ok_def)

theorem SendQueue_Push_correct_witness:
  "\<exists>q'. SendQueue_Push (prio_msg 2 7) (full_queue, None) = Inr (q', None) \<and> sq_inv q' \<and>
     sq_bag q' = {#(prio_msg 2 7, 2)#}"
  using SendQueue_Push_correct [OF sq_inv_full_queue, of "prio_msg 2 7" None]
  by (auto simp: full_queue_def entries_def entry_def)



end
