(* ===== verification/Peer_Timer.thy ===== *)
theory Peer_Timer
  imports Uav_Prelude
begin

text \<open>
  \<open>node/runtime/peer.go\<close> and \<open>node/runtime/timer.go\<close>: the registry of peers and the named timers.

  A timer's stop channel and ticker are created together and stand for each other; their identity is
  a number. The manager's state holds the goroutines it started and the stop channels it closed: a
  goroutine is live, that is, keeps calling \<open>OnTick\<close>, until its stop channel is closed.
\<close>

section \<open>Peers\<close>

record Peer =
  peer_ID :: u16
  Addr :: string

type_synonym PeerManager = "(u16, Peer) gomap"

datatype peer_error = ReservedID

definition NewPeerManager :: PeerManager where
  "NewPeerManager = []"

definition pm_Add :: "u16 \<Rightarrow> string \<Rightarrow> PeerManager \<Rightarrow> peer_error + PeerManager" where
  "pm_Add i addr pm =
     (if i = 0 then Inl ReservedID else Inr (gm_set i \<lparr>peer_ID = i, Addr = addr\<rparr> pm))"

definition pm_Remove :: "u16 \<Rightarrow> PeerManager \<Rightarrow> PeerManager" where
  "pm_Remove i pm = gm_delete i pm"

definition pm_Get :: "u16 \<Rightarrow> PeerManager \<Rightarrow> Peer option" where
  "pm_Get i pm = gm_lookup pm i"

definition pm_List :: "PeerManager \<Rightarrow> u16 list" where
  "pm_List pm = map fst pm"

definition pm_Addrs :: "PeerManager \<Rightarrow> (u16, string) gomap" where
  "pm_Addrs pm = map (\<lambda>(i, p). (i, Addr p)) pm"

text \<open>The registry never holds the reserved ID, and each entry carries its own ID.\<close>

definition pm_inv :: "PeerManager \<Rightarrow> bool" where
  "pm_inv pm \<longleftrightarrow> gm_ok pm \<and> (\<forall>(i, p) \<in> set pm. i \<noteq> 0 \<and> peer_ID p = i)"

lemma pm_inv_New: "pm_inv NewPeerManager"
  by (simp add: pm_inv_def NewPeerManager_def)

lemma pm_inv_Add: "pm_inv pm \<Longrightarrow> pm_Add i addr pm = Inr pm' \<Longrightarrow> pm_inv pm'"
  using set_gm_set [of i "\<lparr>peer_ID = i, Addr = addr\<rparr>" pm]
  by (fastforce simp: pm_inv_def pm_Add_def split: if_splits)

lemma pm_inv_Remove: "pm_inv pm \<Longrightarrow> pm_inv (pm_Remove i pm)"
  by (auto simp: pm_inv_def pm_Remove_def AList.delete_eq)

lemma pm_List_Get: "i \<in> set (pm_List pm) \<longleftrightarrow> pm_Get i pm \<noteq> None"
  by (simp add: pm_List_def pm_Get_def map_of_eq_None_iff)

lemma pm_Addrs_Get: "gm_lookup (pm_Addrs pm) i = map_option Addr (pm_Get i pm)"
  by (simp add: pm_Addrs_def pm_Get_def map_of_map)

section \<open>Timers\<close>

record TimerManager =
  tm_timers :: "(string, nat) gomap"
  tm_closed :: "nat set"
  tm_next :: nat
  tm_spawned :: "(nat \<times> string \<times> duration) list"

definition NewTimerManager :: TimerManager where
  "NewTimerManager = \<lparr>tm_timers = [], tm_closed = {}, tm_next = 0, tm_spawned = []\<rparr>"

definition close_stopCh :: "nat \<Rightarrow> TimerManager \<Rightarrow> TimerManager go" where
  "close_stopCh i tm =
     (if i \<in> tm_closed tm then Inl CloseOfClosedChannel
      else Inr (tm\<lparr>tm_closed := insert i (tm_closed tm)\<rparr>))"

definition tm_Set :: "string \<Rightarrow> duration \<Rightarrow> TimerManager \<Rightarrow> TimerManager go" where
  "tm_Set name d tm =
     (case (case gm_lookup (tm_timers tm) name of Some e \<Rightarrow> close_stopCh e tm | None \<Rightarrow> Inr tm) of
        Inl e \<Rightarrow> Inl e
      | Inr tm \<Rightarrow>
          if d \<le> 0 then Inl NonPositiveTicker
          else Inr (tm\<lparr>tm_timers := gm_set name (tm_next tm) (tm_timers tm),
                       tm_next := Suc (tm_next tm),
                       tm_spawned := tm_spawned tm @ [(tm_next tm, name, d)]\<rparr>))"

definition tm_Cancel :: "string \<Rightarrow> TimerManager \<Rightarrow> TimerManager go" where
  "tm_Cancel name tm =
     (case gm_lookup (tm_timers tm) name of
        Some e \<Rightarrow>
          (case close_stopCh e tm of
             Inl e \<Rightarrow> Inl e
           | Inr tm \<Rightarrow> Inr (tm\<lparr>tm_timers := gm_delete name (tm_timers tm)\<rparr>))
      | None \<Rightarrow> Inr tm)"

text \<open>The loop of \<open>StopAll\<close> visits the entries that were in the map when it began.\<close>

fun stop_entries :: "(string \<times> nat) list \<Rightarrow> TimerManager \<Rightarrow> TimerManager go" where
  "stop_entries [] tm = Inr tm"
| "stop_entries ((name, e) # es) tm =
     (case close_stopCh e tm of
        Inl e \<Rightarrow> Inl e
      | Inr tm \<Rightarrow> stop_entries es (tm\<lparr>tm_timers := gm_delete name (tm_timers tm)\<rparr>))"

definition tm_StopAll :: "TimerManager \<Rightarrow> TimerManager go" where
  "tm_StopAll tm = stop_entries (tm_timers tm) tm"

text \<open>The goroutines that still call back, as (name, interval).\<close>

definition tm_live :: "TimerManager \<Rightarrow> (string \<times> duration) list" where
  "tm_live tm = map snd (filter (\<lambda>(i, _). i \<notin> tm_closed tm) (tm_spawned tm))"

section \<open>Invariant\<close>

text \<open>
  A goroutine is live exactly when the map holds its stop channel under its name. The invariant is
  stated over the lookup function \<open>m\<close> of the map.
\<close>

definition tm_ok :: "(string \<rightharpoonup> nat) \<Rightarrow> nat set \<Rightarrow> nat \<Rightarrow> (nat \<times> string \<times> duration) list \<Rightarrow> bool" where
  "tm_ok m closed n spawned \<longleftrightarrow> map fst spawned = [0..<n] \<and> (\<forall>i \<in> closed. i < n) \<and>
     (\<forall>i name d. (i, name, d) \<in> set spawned \<longrightarrow> (i \<notin> closed \<longleftrightarrow> m name = Some i)) \<and>
     (\<forall>name i. m name = Some i \<longrightarrow> (\<exists>d. (i, name, d) \<in> set spawned))"

definition tm_inv :: "TimerManager \<Rightarrow> bool" where
  "tm_inv tm \<longleftrightarrow> gm_ok (tm_timers tm) \<and>
     tm_ok (gm_lookup (tm_timers tm)) (tm_closed tm) (tm_next tm) (tm_spawned tm)"

lemma tm_inv_New: "tm_inv NewTimerManager"
  by (simp add: tm_inv_def tm_ok_def NewTimerManager_def)

lemma tm_ok_spawned_lt:
  assumes "tm_ok m cl n sp" and "(i, x) \<in> set sp"
  shows "i < n"
proof -
  have "i \<in> set (map fst sp)" using assms(2) by force
  moreover have "map fst sp = [0..<n]" using assms(1) by (simp add: tm_ok_def)
  ultimately show ?thesis by simp
qed

lemma tm_ok_spawned_unique:
  "tm_ok m cl n sp \<Longrightarrow> (i, x) \<in> set sp \<Longrightarrow> (i, y) \<in> set sp \<Longrightarrow> x = y"
  by (rule eq_key_imp_eq_value [of sp]) (simp_all add: tm_ok_def)

lemma tm_ok_registered:
  assumes "tm_ok m cl n sp" and "m name = Some i"
  shows "i \<notin> cl" and "i < n" and "(i, nm, d) \<in> set sp \<Longrightarrow> nm = name"
proof -
  from assms obtain d' where d': "(i, name, d') \<in> set sp" unfolding tm_ok_def by blast
  with assms show "i \<notin> cl" unfolding tm_ok_def by blast
  show "i < n" by (rule tm_ok_spawned_lt [OF assms(1) d'])
  show "nm = name" if "(i, nm, d) \<in> set sp"
    using tm_ok_spawned_unique [OF assms(1) d' that] by simp
qed

text \<open>Closing the channel of a registered timer and forgetting the timer; starting a new one.\<close>

lemma tm_ok_forget:
  assumes "tm_ok m cl n sp" and "m name = Some i"
  shows "tm_ok (m(name := None)) (insert i cl) n sp"
  using assms tm_ok_registered [OF assms] unfolding tm_ok_def by (auto split: if_splits)

lemma tm_ok_spawn:
  assumes "tm_ok m cl n sp" and "m name = None"
  shows "tm_ok (m(name \<mapsto> n)) cl (Suc n) (sp @ [(n, name, d)])"
  using assms tm_ok_spawned_lt [OF assms(1)] unfolding tm_ok_def
  by (fastforce simp: less_Suc_eq split: if_splits)

lemma tm_inv_registered: "tm_inv tm \<Longrightarrow> gm_lookup (tm_timers tm) name = Some i \<Longrightarrow> i \<notin> tm_closed tm"
  unfolding tm_inv_def by (blast dest: tm_ok_registered(1))

lemma tm_inv_forget:
  assumes "tm_inv tm" and "gm_lookup (tm_timers tm) name = Some i"
  shows "tm_inv (tm\<lparr>tm_closed := insert i (tm_closed tm), tm_timers := gm_delete name (tm_timers tm)\<rparr>)"
proof -
  have ok: "tm_ok (gm_lookup (tm_timers tm)) (tm_closed tm) (tm_next tm) (tm_spawned tm)" "gm_ok (tm_timers tm)"
    using assms(1) by (simp_all add: tm_inv_def)
  from tm_ok_forget [OF ok(1) assms(2)] ok(2) show ?thesis by (simp add: tm_inv_def fun_upd_def)
qed

lemma tm_Set_ok:
  assumes "tm_inv tm" and "0 < d"
  shows "\<exists>tm'. tm_Set name d tm = Inr tm' \<and> tm_inv tm'"
proof (cases "gm_lookup (tm_timers tm) name")
  case None
  with assms tm_ok_spawn [of _ _ _ _ name d] show ?thesis by (simp add: tm_Set_def tm_inv_def update_conv')
next
  case (Some i)
  have ok: "tm_ok (gm_lookup (tm_timers tm)) (tm_closed tm) (tm_next tm) (tm_spawned tm)" "gm_ok (tm_timers tm)"
    using assms(1) by (simp_all add: tm_inv_def)
  from tm_ok_spawn [OF tm_ok_forget [OF ok(1) Some], of name d]
  have "tm_ok ((gm_lookup (tm_timers tm))(name \<mapsto> tm_next tm)) (insert i (tm_closed tm)) (Suc (tm_next tm))
      (tm_spawned tm @ [(tm_next tm, name, d)])" by simp
  with assms Some ok(2) tm_inv_registered [OF assms(1) Some] show ?thesis
    by (simp add: tm_Set_def close_stopCh_def tm_inv_def update_conv' del: map_of_eq_Some_iff)
qed

lemma tm_Cancel_ok: "tm_inv tm \<Longrightarrow> \<exists>tm'. tm_Cancel name tm = Inr tm' \<and> tm_inv tm'"
  using tm_inv_registered [of tm name] tm_inv_forget [of tm name]
  by (cases "gm_lookup (tm_timers tm) name") (simp_all add: tm_Cancel_def close_stopCh_def del: map_of_eq_Some_iff)

lemma stop_entries_ok:
  "tm_inv tm \<Longrightarrow> gm_ok es \<Longrightarrow> (\<forall>(name, i) \<in> set es. gm_lookup (tm_timers tm) name = Some i) \<Longrightarrow>
     \<exists>tm'. stop_entries es tm = Inr tm' \<and> tm_inv tm' \<and>
       (\<forall>name. gm_lookup (tm_timers tm') name = (if name \<in> fst ` set es then None else gm_lookup (tm_timers tm) name))"
proof (induction es arbitrary: tm)
  case Nil
  then show ?case by simp
next
  case (Cons a es)
  obtain name i where a: "a = (name, i)" by fastforce
  let ?t = "tm\<lparr>tm_closed := insert i (tm_closed tm), tm_timers := gm_delete name (tm_timers tm)\<rparr>"
  from Cons.prems have l: "gm_lookup (tm_timers tm) name = Some i" by (simp add: a)
  have "\<forall>(nm, j) \<in> set es. gm_lookup (tm_timers ?t) nm = Some j" and ok: "gm_ok es"
    using Cons.prems by (force simp: a simp del: map_of_eq_Some_iff)+
  from Cons.IH [OF tm_inv_forget [OF Cons.prems(1) l] ok this(1)] obtain tm' where
    "stop_entries es ?t = Inr tm'" "tm_inv tm'"
    "\<forall>nm. gm_lookup (tm_timers tm') nm = (if nm \<in> fst ` set es then None else gm_lookup (tm_timers ?t) nm)"
    by blast
  with tm_inv_registered [OF Cons.prems(1) l] show ?case
    by (simp add: a close_stopCh_def del: map_of_eq_Some_iff)
qed

lemma tm_StopAll_ok:
  assumes "tm_inv tm"
  shows "\<exists>tm'. tm_StopAll tm = Inr tm' \<and> tm_inv tm' \<and> (\<forall>name. gm_lookup (tm_timers tm') name = None)"
proof -
  have ok: "gm_ok (tm_timers tm)" using assms by (simp add: tm_inv_def)
  then have "\<forall>(name, i) \<in> set (tm_timers tm). gm_lookup (tm_timers tm) name = Some i" by simp
  from stop_entries_ok [OF assms ok this] obtain tm' where tm': "stop_entries (tm_timers tm) tm = Inr tm'" "tm_inv tm'"
    "\<forall>name. gm_lookup (tm_timers tm') name =
       (if name \<in> fst ` set (tm_timers tm) then None else gm_lookup (tm_timers tm) name)" by blast
  from tm'(3) have "gm_lookup (tm_timers tm') name = None" for name
    by (cases "name \<in> fst ` set (tm_timers tm)") (simp_all add: map_of_eq_None_iff)
  with tm' show ?thesis by (simp add: tm_StopAll_def)
qed

text \<open>Under the invariant there is one live goroutine per registered name and no other.\<close>

lemma tm_ok_live:
  assumes "tm_ok m cl n sp"
  defines "L \<equiv> filter (\<lambda>(i, _). i \<notin> cl) sp"
  shows "distinct (map (fst \<circ> snd) L)" and "(\<exists>i d. (i, name, d) \<in> set L) \<longleftrightarrow> m name \<noteq> None"
proof -
  have reg: "m name = Some i" if "(i, name, d) \<in> set L" for i name d
    using that assms(1) unfolding tm_ok_def L_def by auto
  have "distinct (map fst L)" using assms(1) unfolding tm_ok_def L_def by (simp add: distinct_map_filter)
  then have inj: "inj_on fst (set L)" and "distinct L" by (simp_all add: distinct_map)
  have "inj_on (fst \<circ> snd) (set L)"
  proof (rule inj_onI)
    fix x y assume xy: "x \<in> set L" "y \<in> set L" "(fst \<circ> snd) x = (fst \<circ> snd) y"
    then have "m (fst (snd x)) = Some (fst x)" "m (fst (snd x)) = Some (fst y)"
      using reg by (metis comp_apply prod.collapse)+
    then have "fst x = fst y" by simp
    with inj xy show "x = y" by (simp add: inj_on_eq_iff)
  qed
  with \<open>distinct L\<close> show "distinct (map (fst \<circ> snd) L)" by (simp add: distinct_map)
  show "(\<exists>i d. (i, name, d) \<in> set L) \<longleftrightarrow> m name \<noteq> None"
  proof
    assume "\<exists>i d. (i, name, d) \<in> set L"
    then show "m name \<noteq> None" using reg by fastforce
  next
    assume "m name \<noteq> None"
    then obtain i where i: "m name = Some i" by blast
    with assms(1) obtain d where "(i, name, d) \<in> set sp" unfolding tm_ok_def by blast
    with tm_ok_registered(1) [OF assms(1) i] show "\<exists>i d. (i, name, d) \<in> set L" by (auto simp: L_def)
  qed
qed

lemma tm_inv_live:
  assumes "tm_inv tm"
  shows "distinct (map fst (tm_live tm))"
    and "name \<in> set (map fst (tm_live tm)) \<longleftrightarrow> gm_lookup (tm_timers tm) name \<noteq> None"
proof -
  have ok: "tm_ok (gm_lookup (tm_timers tm)) (tm_closed tm) (tm_next tm) (tm_spawned tm)"
    using assms by (simp add: tm_inv_def)
  show "distinct (map fst (tm_live tm))"
    using tm_ok_live(1) [OF ok] by (simp add: tm_live_def)
  show "name \<in> set (map fst (tm_live tm)) \<longleftrightarrow> gm_lookup (tm_timers tm) name \<noteq> None"
    unfolding tm_ok_live(2) [OF ok, symmetric] by (force simp: tm_live_def)
qed

section \<open>Properties\<close>

datatype timer_op = TSet string duration | TCancel string | TStopAll

fun timer_step :: "timer_op \<Rightarrow> TimerManager \<Rightarrow> TimerManager go" where
  "timer_step (TSet name d) tm = tm_Set name d tm"
| "timer_step (TCancel name) tm = tm_Cancel name tm"
| "timer_step TStopAll tm = tm_StopAll tm"

fun timer_run :: "timer_op list \<Rightarrow> TimerManager \<Rightarrow> TimerManager go" where
  "timer_run [] tm = Inr tm"
| "timer_run (op # ops) tm = (case timer_step op tm of Inl e \<Rightarrow> Inl e | Inr tm' \<Rightarrow> timer_run ops tm')"

lemma timer_run_ok:
  "tm_inv tm \<Longrightarrow> \<forall>name d. TSet name d \<in> set ops \<longrightarrow> 0 < d \<Longrightarrow>
     \<exists>tm'. timer_run ops tm = Inr tm' \<and> tm_inv tm'"
proof (induction ops arbitrary: tm)
  case Nil
  then show ?case by simp
next
  case (Cons op ops)
  have "\<exists>tm1. timer_step op tm = Inr tm1 \<and> tm_inv tm1"
    using Cons.prems tm_Set_ok tm_Cancel_ok tm_StopAll_ok [of tm] by (cases op) auto
  then obtain tm1 where "timer_step op tm = Inr tm1" "tm_inv tm1" by blast
  with Cons.IH [of tm1] Cons.prems(2) show ?case by simp
qed



end
