(* ===== verification/Node_Runtime.thy ===== *)
theory Node_Runtime
  imports Node_Api Dedup_Router Send_Queue Peer_Timer
begin

text \<open>
  \<open>node/runtime/node.go\<close>: the node that ties transport, peers, queue, timers, router and collector
  together and implements the interface of \<open>Node_Api\<close>.

  The collector is one object shared by node, queue and router; it is the field \<open>nd_mc\<close> here and is
  passed to the operations that write to it. The transport's \<open>Send\<close> is a parameter that says whether
  it succeeds; the messages handed to it are the result of the send loop.
\<close>

section \<open>State and construction\<close>

record nodeOptions =
  opt_id :: u16
  opt_sendQueueSize :: int
  opt_recvBufSize :: int
  opt_mc :: "Collector option"

type_synonym Option = "nodeOptions \<Rightarrow> nodeOptions"

definition WithSendQueueSize :: "int \<Rightarrow> Option" where
  "WithSendQueueSize n o' = o'\<lparr>opt_sendQueueSize := n\<rparr>"

definition WithRecvBufSize :: "int \<Rightarrow> Option" where
  "WithRecvBufSize n o' = o'\<lparr>opt_recvBufSize := n\<rparr>"

definition WithMetrics :: "Collector option \<Rightarrow> Option" where
  "WithMetrics mc o' = o'\<lparr>opt_mc := mc\<rparr>"

record Node =
  nd_cfg :: nodeOptions
  nd_pm :: PeerManager
  nd_sq :: SendQueue
  nd_tm :: TimerManager
  nd_rt :: Router
  nd_mc :: "Collector option"
  nd_seqCounters :: "u8 \<Rightarrow> u32"
  nd_stopClosed :: bool
  nd_once :: bool

definition NewNode :: "u16 \<Rightarrow> Option list \<Rightarrow> Node go" where
  "NewNode i opts =
     (let o' = foldl (\<lambda>o' opt. opt o')
                 \<lparr>opt_id = i, opt_sendQueueSize = 512, opt_recvBufSize = 256, opt_mc = None\<rparr> opts
      in case NewSendQueue (opt_sendQueueSize o') of
           Inl e \<Rightarrow> Inl e
         | Inr q \<Rightarrow> Inr \<lparr>nd_cfg = o', nd_pm = NewPeerManager, nd_sq = q, nd_tm = NewTimerManager,
                         nd_rt = NewRouter i (opt_mc o'), nd_mc = opt_mc o',
                         nd_seqCounters = (\<lambda>_. 0), nd_stopClosed = False, nd_once = False\<rparr>)"

definition AddPeer :: "u16 \<Rightarrow> string \<Rightarrow> Node \<Rightarrow> peer_error + Node" where
  "AddPeer i addr n =
     (case pm_Add i addr (nd_pm n) of Inl e \<Rightarrow> Inl e | Inr pm \<Rightarrow> Inr (n\<lparr>nd_pm := pm\<rparr>))"

text \<open>\<open>seqCounters[streamID].Add(1)\<close>\<close>

definition bump_seq :: "u8 \<Rightarrow> (u8 \<Rightarrow> u32) \<Rightarrow> u8 \<Rightarrow> u32" where
  "bump_seq streamID c = c(streamID := c streamID + 1)"

lemma bump_seq_apply: "bump_seq sid c sid' = (if sid' = sid then c sid + 1 else c sid')"
  by (simp add: bump_seq_def)

definition nextSeq :: "u8 \<Rightarrow> Node \<Rightarrow> u32 \<times> Node" where
  "nextSeq streamID n =
     (let c = bump_seq streamID (nd_seqCounters n) in (c streamID, n\<lparr>nd_seqCounters := c\<rparr>))"

section \<open>The interface for algorithms\<close>

datatype send_error = UnknownPeer u16

definition node_push :: "Message \<Rightarrow> Node \<Rightarrow> Node go" where
  "node_push msg n =
     (case SendQueue_Push msg (nd_sq n, nd_mc n) of
        Inl e \<Rightarrow> Inl e
      | Inr (q, mc) \<Rightarrow> Inr (n\<lparr>nd_sq := q, nd_mc := mc\<rparr>))"

definition stamp_time :: "go_time \<Rightarrow> Message \<Rightarrow> Message" where
  "stamp_time now msg = (if Timestamp msg = 0 then msg\<lparr>Timestamp := UnixMilli now\<rparr> else msg)"

definition node_Send :: "go_time \<Rightarrow> u16 \<Rightarrow> Message \<Rightarrow> Node \<Rightarrow> (send_error option \<times> Node) go" where
  "node_Send now peerID msg n =
     (case pm_Get peerID (nd_pm n) of
        None \<Rightarrow> Inr (Some (UnknownPeer peerID), n)
      | Some _ \<Rightarrow>
          let msg = msg\<lparr>From := opt_id (nd_cfg n), To := peerID\<rparr>;
              (seq, n) = nextSeq (StreamID msg) n;
              msg = stamp_time now (msg\<lparr>Seq := seq\<rparr>)
          in case node_push msg n of Inl e \<Rightarrow> Inl e | Inr n \<Rightarrow> Inr (None, n))"

fun broadcast_loop :: "u16 list \<Rightarrow> Message \<Rightarrow> Node \<Rightarrow> Node go" where
  "broadcast_loop [] msg n = Inr n"
| "broadcast_loop (peerID # ids) msg n =
     (let m = msg\<lparr>To := peerID\<rparr>; (seq, n) = nextSeq (StreamID m) n; m = m\<lparr>Seq := seq\<rparr>
      in case node_push m n of Inl e \<Rightarrow> Inl e | Inr n \<Rightarrow> broadcast_loop ids msg n)"

definition node_Broadcast :: "go_time \<Rightarrow> Message \<Rightarrow> Node \<Rightarrow> Node go" where
  "node_Broadcast now msg n =
     (let msg = stamp_time now (msg\<lparr>From := opt_id (nd_cfg n), To := BroadcastID\<rparr>)
      in broadcast_loop (pm_List (nd_pm n)) msg n)"

definition node_SetTimer :: "string \<Rightarrow> duration \<Rightarrow> Node \<Rightarrow> Node go" where
  "node_SetTimer name d n =
     (case tm_Set name d (nd_tm n) of Inl e \<Rightarrow> Inl e | Inr tm \<Rightarrow> Inr (n\<lparr>nd_tm := tm\<rparr>))"

definition node_CancelTimer :: "string \<Rightarrow> Node \<Rightarrow> Node go" where
  "node_CancelTimer name n =
     (case tm_Cancel name (nd_tm n) of Inl e \<Rightarrow> Inl e | Inr tm \<Rightarrow> Inr (n\<lparr>nd_tm := tm\<rparr>))"

definition node_PeerAddr :: "u16 \<Rightarrow> Node \<Rightarrow> string option" where
  "node_PeerAddr peerID n = map_option Addr (pm_Get peerID (nd_pm n))"

definition node_env :: "go_time \<Rightarrow> Node \<Rightarrow> api_env" where
  "node_env now n = \<lparr>env_ID = opt_id (nd_cfg n), env_Peers = pm_List (nd_pm n), env_Now = now\<rparr>"

text \<open>Executing the calls of a handler.\<close>

fun exec_call :: "go_time \<Rightarrow> api_call \<Rightarrow> Node \<Rightarrow> Node go" where
  "exec_call now (ApiSend p m) n =
     (case node_Send now p m n of Inl e \<Rightarrow> Inl e | Inr (_, n) \<Rightarrow> Inr n)"
| "exec_call now (ApiBroadcast m) n = node_Broadcast now m n"
| "exec_call now (ApiSetTimer name d) n = node_SetTimer name d n"
| "exec_call now (ApiCancelTimer name) n = node_CancelTimer name n"

fun exec_calls :: "go_time \<Rightarrow> api_call list \<Rightarrow> Node \<Rightarrow> Node go" where
  "exec_calls now [] n = Inr n"
| "exec_calls now (c # cs) n = (case exec_call now c n of Inl e \<Rightarrow> Inl e | Inr n \<Rightarrow> exec_calls now cs n)"

section \<open>The loops\<close>

text \<open>One message of the receive loop, with the algorithm's \<open>OnMessage\<close> as a function on its state.\<close>

definition recv_one ::
    "(api_env \<Rightarrow> Message \<Rightarrow> 's \<Rightarrow> 's handled) \<Rightarrow> go_time \<Rightarrow> Message \<Rightarrow> Node \<times> 's \<Rightarrow> (Node \<times> 's) go" where
  "recv_one onMessage now msg ns =
     (case ns of (n, s) \<Rightarrow>
        let wireBytes = HeaderSize + length (Payload msg);
            mc = map_option (RecordRecv now msg wireBytes) (nd_mc n);
            (out, rt) = Dispatch now msg ((nd_rt n)\<lparr>rt_mc := mc\<rparr>);
            n = n\<lparr>nd_rt := rt, nd_mc := rt_mc rt\<rparr>
        in case out of
             None \<Rightarrow> Inr (n, s)
           | Some m \<Rightarrow>
               (case onMessage (node_env now n) m s of
                  Inl e \<Rightarrow> Inl e
                | Inr (s, cs) \<Rightarrow> (case exec_calls now cs n of Inl e \<Rightarrow> Inl e | Inr n \<Rightarrow> Inr (n, s))))"

text \<open>
  One iteration of the send loop's inner loop: \<open>None\<close> when the queue is empty, else what was handed to
  the transport and the node afterwards.
\<close>

definition send_one :: "(string \<Rightarrow> Message \<Rightarrow> bool) \<Rightarrow> Node \<Rightarrow> ((string \<times> Message) list \<times> Node) option" where
  "send_one tr_ok n =
     (case SendQueue_Pop (nd_sq n) of
        None \<Rightarrow> None
      | Some (msg, q) \<Rightarrow>
          let n = n\<lparr>nd_sq := q\<rparr>
          in case pm_Get (To msg) (nd_pm n) of
               None \<Rightarrow> Some ([], n)
             | Some peer \<Rightarrow>
                 Some ([(Addr peer, msg)],
                   if tr_ok (Addr peer) msg
                   then n\<lparr>nd_mc := map_option (RecordSend msg (HeaderSize + length (Payload msg))) (nd_mc n)\<rparr>
                   else n\<lparr>nd_mc := map_option RecordSendError (nd_mc n)\<rparr>))"

text \<open>
  The inner loop runs until the queue is empty. Its bound is the number of queued messages: every
  iteration takes one out, and the bound is shown to be enough below.
\<close>

fun send_iter :: "(string \<Rightarrow> Message \<Rightarrow> bool) \<Rightarrow> nat \<Rightarrow> Node \<Rightarrow> (string \<times> Message) list \<times> Node" where
  "send_iter tr_ok 0 n = ([], n)"
| "send_iter tr_ok (Suc k) n =
     (case send_one tr_ok n of
        None \<Rightarrow> ([], n)
      | Some (out, n1) \<Rightarrow> (let (outs, n2) = send_iter tr_ok k n1 in (out @ outs, n2)))"

definition send_drain :: "(string \<Rightarrow> Message \<Rightarrow> bool) \<Rightarrow> Node \<Rightarrow> (string \<times> Message) list \<times> Node" where
  "send_drain tr_ok n = send_iter tr_ok (length (sq_h (nd_sq n))) n"

section \<open>Starting and stopping\<close>

datatype start_error = TransportStart | AlgorithmStart

definition close_stop :: "Node \<Rightarrow> Node go" where
  "close_stop n = (if nd_stopClosed n then Inl CloseOfClosedChannel else Inr (n\<lparr>nd_stopClosed := True\<rparr>))"

text \<open>
  \<open>Start\<close>: whether the transport starts, and what the algorithm's \<open>Start\<close> does (\<open>None\<close> is its error,
  otherwise the calls it makes).
\<close>

definition node_Start ::
    "bool \<Rightarrow> go_time \<Rightarrow> api_call list option option \<Rightarrow> Node \<Rightarrow> (start_error option \<times> Node) go" where
  "node_Start tr_ok now algo n =
     (if \<not> tr_ok then Inr (Some TransportStart, n)
      else case algo of
        None \<Rightarrow> Inr (None, n)
      | Some None \<Rightarrow> (case close_stop n of Inl e \<Rightarrow> Inl e | Inr n \<Rightarrow> Inr (Some AlgorithmStart, n))
      | Some (Some cs) \<Rightarrow> (case exec_calls now cs n of Inl e \<Rightarrow> Inl e | Inr n \<Rightarrow> Inr (None, n)))"

text \<open>\<open>Stop\<close>, guarded by \<open>sync.Once\<close>, with the calls of the algorithm's \<open>Stop\<close>.\<close>

definition node_Stop :: "go_time \<Rightarrow> api_call list \<Rightarrow> Node \<Rightarrow> Node go" where
  "node_Stop now algo_stop n =
     (if nd_once n then Inr n
      else case exec_calls now algo_stop (n\<lparr>nd_once := True\<rparr>) of
        Inl e \<Rightarrow> Inl e
      | Inr n \<Rightarrow>
          (case tm_StopAll (nd_tm n) of
             Inl e \<Rightarrow> Inl e
           | Inr tm \<Rightarrow> close_stop (n\<lparr>nd_tm := tm\<rparr>)))"

section \<open>Invariant\<close>

definition node_inv :: "Node \<Rightarrow> bool" where
  "node_inv n \<longleftrightarrow> sq_inv (nd_sq n) \<and> pm_inv (nd_pm n) \<and> tm_inv (nd_tm n) \<and> (\<exists>h. router_tracks (nd_rt n) h)"

lemma NewNode_inv:
  assumes "NewNode i opts = Inr n" and "1 \<le> opt_sendQueueSize (nd_cfg n)"
  shows "node_inv n"
proof -
  from assms obtain q where q: "NewSendQueue (opt_sendQueueSize (nd_cfg n)) = Inr q" "nd_sq n = q"
    and r: "nd_pm n = NewPeerManager" "nd_tm n = NewTimerManager" "nd_rt n = NewRouter i (nd_mc n)"
    by (auto simp: NewNode_def Let_def split: sum.splits)
  from sq_inv_New [OF assms(2) q(1)] q(2) have "sq_inv (nd_sq n)" by simp
  moreover have "\<exists>h. router_tracks (nd_rt n) h" unfolding r(3) using router_tracks_new by blast
  ultimately show ?thesis by (simp add: node_inv_def r pm_inv_New tm_inv_New)
qed

lemma SendQueue_Push_total:
  assumes "sq_inv q"
  obtains q' mc' where "SendQueue_Push msg (q, mc) = Inr (q', mc')" "pushed msg q q'"
  using SendQueue_Push_space [OF assms, of msg mc] SendQueue_Push_full [OF assms, of msg mc]
  by (metis not_le_imp_less)

lemma node_push_total:
  assumes "node_inv n"
  obtains n' where "node_push msg n = Inr n'" "node_inv n'" "nd_pm n' = nd_pm n" "nd_cfg n' = nd_cfg n"
    "nd_seqCounters n' = nd_seqCounters n"
proof -
  from assms have "sq_inv (nd_sq n)" by (simp add: node_inv_def)
  from SendQueue_Push_total [OF this, of msg "nd_mc n"] obtain q' mc' where
    "SendQueue_Push msg (nd_sq n, nd_mc n) = Inr (q', mc')" "pushed msg (nd_sq n) q'" .
  with assms show thesis
    by (intro that [of "n\<lparr>nd_sq := q', nd_mc := mc'\<rparr>"]) (simp_all add: node_push_def node_inv_def pushed_def)
qed

lemma node_inv_nextSeq: "node_inv (snd (nextSeq sid n)) = node_inv n"
  by (simp add: nextSeq_def node_inv_def Let_def bump_seq_apply)

lemma node_Send_total:
  assumes "node_inv n"
  shows "\<exists>e n'. node_Send now p m n = Inr (e, n') \<and> node_inv n' \<and> nd_pm n' = nd_pm n \<and> nd_cfg n' = nd_cfg n"
proof (cases "pm_Get p (nd_pm n)")
  case None
  with assms show ?thesis by (simp add: node_Send_def)
next
  case (Some pr)
  let ?n1 = "snd (nextSeq (StreamID m) n)"
  let ?m = "stamp_time now (m\<lparr>From := opt_id (nd_cfg n), To := p, Seq := fst (nextSeq (StreamID m) n)\<rparr>)"
  from node_push_total [of ?n1 ?m] assms obtain n' where "node_push ?m ?n1 = Inr n'" "node_inv n'"
    "nd_pm n' = nd_pm ?n1" "nd_cfg n' = nd_cfg ?n1" by (auto simp: node_inv_nextSeq)
  with Some show ?thesis by (auto simp: node_Send_def nextSeq_def Let_def)
qed

lemma broadcast_loop_total:
  "node_inv n \<Longrightarrow> \<exists>n'. broadcast_loop ids msg n = Inr n' \<and> node_inv n'"
proof (induction ids arbitrary: n)
  case Nil
  then show ?case by simp
next
  case (Cons p ids)
  let ?n1 = "snd (nextSeq (StreamID msg) n)"
  from node_push_total [of ?n1 "msg\<lparr>To := p, Seq := fst (nextSeq (StreamID msg) n)\<rparr>"] Cons.prems obtain n' where
    "node_push (msg\<lparr>To := p, Seq := fst (nextSeq (StreamID msg) n)\<rparr>) ?n1 = Inr n'" "node_inv n'"
    by (auto simp: node_inv_nextSeq)
  with Cons.IH [of n'] show ?case by (simp add: nextSeq_def Let_def)
qed

fun timers_positive :: "api_call \<Rightarrow> bool" where
  "timers_positive (ApiSetTimer _ d) = (0 < d)"
| "timers_positive _ = True"

lemma exec_call_total: "node_inv n \<Longrightarrow> timers_positive c \<Longrightarrow> \<exists>n'. exec_call now c n = Inr n' \<and> node_inv n'"
proof (cases c)
  case (ApiSend p m)
  then show "node_inv n \<Longrightarrow> ?thesis" using node_Send_total [of n now p m] by auto
next
  case (ApiBroadcast m)
  then show "node_inv n \<Longrightarrow> ?thesis" using broadcast_loop_total by (simp add: node_Broadcast_def Let_def)
next
  case (ApiSetTimer name d)
  moreover assume "node_inv n" "timers_positive c"
  ultimately show ?thesis using tm_Set_ok [of "nd_tm n" d name] by (auto simp: node_SetTimer_def node_inv_def)
next
  case (ApiCancelTimer name)
  moreover assume "node_inv n"
  ultimately show ?thesis using tm_Cancel_ok [of "nd_tm n" name] by (auto simp: node_CancelTimer_def node_inv_def)
qed

lemma exec_calls_total:
  "node_inv n \<Longrightarrow> list_all timers_positive cs \<Longrightarrow> \<exists>n'. exec_calls now cs n = Inr n' \<and> node_inv n'"
proof (induction cs arbitrary: n)
  case Nil
  then show ?case by simp
next
  case (Cons c cs)
  with exec_call_total [of n c now] show ?case by fastforce
qed

text \<open>The receive loop keeps the invariant, whatever the algorithm does with positive timers.\<close>

lemma recv_one_total:
  assumes "node_inv n"
    and "\<And>env m. \<exists>s' cs. onMessage env m s = Inr (s', cs) \<and> list_all timers_positive cs"
  shows "\<exists>n' s'. recv_one onMessage now msg (n, s) = Inr (n', s') \<and> node_inv n'"
proof -
  let ?mc = "map_option (RecordRecv now msg (HeaderSize + length (Payload msg))) (nd_mc n)"
  obtain out rt where d: "Dispatch now msg ((nd_rt n)\<lparr>rt_mc := ?mc\<rparr>) = (out, rt)" by fastforce
  from assms(1) obtain h where "router_tracks ((nd_rt n)\<lparr>rt_mc := ?mc\<rparr>) h"
    by (auto simp: node_inv_def router_tracks_mc)
  from Dispatch_spec(2) [OF this d] assms(1) have inv: "node_inv (n\<lparr>nd_rt := rt, nd_mc := rt_mc rt\<rparr>)"
    by (auto simp: node_inv_def)
  show ?thesis
  proof (cases out)
    case None
    with inv d show ?thesis by (simp add: recv_one_def)
  next
    case (Some m)
    let ?n = "n\<lparr>nd_rt := rt, nd_mc := rt_mc rt\<rparr>"
    from assms(2) [of "node_env now ?n" m] obtain s' cs where
      h: "onMessage (node_env now ?n) m s = Inr (s', cs)" "list_all timers_positive cs" by blast
    from exec_calls_total [OF inv h(2)] obtain n' where "exec_calls now cs ?n = Inr n'" "node_inv n'" by blast
    with Some d h(1) show ?thesis by (simp add: recv_one_def)
  qed
qed

section \<open>The send loop\<close>

definition routed :: "PeerManager \<Rightarrow> Message list \<Rightarrow> (string \<times> Message) list" where
  "routed pm ms = concat (map (\<lambda>m. case pm_Get (To m) pm of None \<Rightarrow> [] | Some p \<Rightarrow> [(Addr p, m)]) ms)"

text \<open>What a handed-over message adds to the collector.\<close>

definition count_sent :: "(string \<Rightarrow> Message \<Rightarrow> bool) \<Rightarrow> string \<times> Message \<Rightarrow> Collector \<Rightarrow> Collector" where
  "count_sent tr_ok am c =
     (if tr_ok (fst am) (snd am) then RecordSend (snd am) (HeaderSize + length (Payload (snd am))) c
      else RecordSendError c)"

lemma send_iter_pops:
  "send_iter tr_ok k n =
     (let (ms, q) = pop_all SendQueue_Pop k (nd_sq n); outs = routed (nd_pm n) ms
      in (outs, n\<lparr>nd_sq := q, nd_mc := map_option (fold (count_sent tr_ok) outs) (nd_mc n)\<rparr>))"
proof (induction k arbitrary: n)
  case 0
  then show ?case by (simp add: routed_def option.map_id id_def [symmetric])
next
  case (Suc k)
  show ?case
  proof (cases "SendQueue_Pop (nd_sq n)")
    case None
    then show ?thesis by (simp add: send_one_def routed_def option.map_id id_def [symmetric])
  next
    case (Some r)
    obtain m q where r: "r = (m, q)" by fastforce
    show ?thesis
      using Some Suc.IH
      by (cases "pm_Get (To m) (nd_pm n)"; cases "nd_mc n")
        (simp_all add: r send_one_def routed_def Let_def case_prod_beta count_sent_def)
  qed
qed

lemma sorted_entry_priority: "sorted (map entry_key es) \<Longrightarrow> sorted (map Priority (map fst es))"
  by (auto simp: sorted_map sorted_wrt_map entry_key_def elim!: sorted_wrt_mono_rel [rotated])

lemma send_drain_routed:
  assumes "node_inv n" and "send_drain tr_ok n = (outs, n')"
  obtains ms q' where "mset ms = image_mset fst (sq_bag (nd_sq n))" "sorted (map Priority ms)"
    "outs = routed (nd_pm n) ms" "sq_bag q' = {#}" "sq_inv q'"
    "n' = n\<lparr>nd_sq := q', nd_mc := map_option (fold (count_sent tr_ok) outs) (nd_mc n)\<rparr>"
proof -
  from assms(1) have inv: "sq_inv (nd_sq n)" by (simp add: node_inv_def)
  from sq.pop_all_sorted [OF inv, of "length (sq_h (nd_sq n))"] obtain es q' where
    p: "pop_all SendQueue_Pop (length (sq_h (nd_sq n))) (nd_sq n) = (map fst es, q')"
    "mset es = sq_bag (nd_sq n)" "sorted (map entry_key es)" "sq_bag q' = {#}" "sq_inv q'" by auto
  show thesis
  proof (rule that [of "map fst es" q'])
    show "mset (map fst es) = image_mset fst (sq_bag (nd_sq n))" using p(2) by (metis mset_map)
    show "sorted (map Priority (map fst es))" by (rule sorted_entry_priority [OF p(3)])
  qed (use assms(2) p in \<open>auto simp: send_drain_def send_iter_pops Let_def\<close>)
qed

lemma map_snd_routed:
  assumes "\<forall>m \<in> set ms. pm_Get (To m) pm \<noteq> None"
  shows "map snd (routed pm ms) = ms"
  using assms by (induction ms) (auto simp: routed_def)

lemma count_sent_counters:
  "msgSent (fold (count_sent tr_ok) outs c) = msgSent c + of_nat (length (filter (\<lambda>(a, m). tr_ok a m) outs))"
  "sendErrors (fold (count_sent tr_ok) outs c) = sendErrors c + of_nat (length (filter (\<lambda>(a, m). \<not> tr_ok a m) outs))"
  by (induction outs arbitrary: c) (auto simp: count_sent_def RecordSend_def RecordSendError_def algebra_simps)

section \<open>Numbering\<close>

text \<open>The messages a list of unicast sends enqueues, given the stream counters before.\<close>

fun outgoing :: "go_time \<Rightarrow> u16 \<Rightarrow> (u8 \<Rightarrow> u32) \<Rightarrow> (u16 \<times> Message) list \<Rightarrow> Message list" where
  "outgoing now me c [] = []"
| "outgoing now me c ((p, m) # xs) =
     stamp_time now (m\<lparr>From := me, To := p, Seq := c (StreamID m) + 1\<rparr>) #
       outgoing now me (bump_seq (StreamID m) c) xs"

lemma length_outgoing [simp]: "length (outgoing now me c xs) = length xs"
  by (induction now me c xs rule: outgoing.induct) simp_all

lemma stamp_time_fields [simp]:
  "From (stamp_time now m) = From m" "To (stamp_time now m) = To m" "Seq (stamp_time now m) = Seq m"
  "StreamID (stamp_time now m) = StreamID m" "TTL (stamp_time now m) = TTL m" "Priority (stamp_time now m) = Priority m"
  "Payload (stamp_time now m) = Payload m"
  by (simp_all add: stamp_time_def)

lemma outgoing_seq:
  "m \<in> set (outgoing now me c xs) \<Longrightarrow>
     From m = me \<and> (\<exists>j. 1 \<le> j \<and> j \<le> length xs \<and> Seq m = c (StreamID m) + of_nat j)
       \<and> (\<exists>(p, m0) \<in> set xs. To m = p \<and> TTL m = TTL m0)"
proof (induction now me c xs rule: outgoing.induct)
  case (2 now me c p m0 xs)
  show ?case
  proof (cases "m \<in> set (outgoing now me (bump_seq (StreamID m0) c) xs)")
    case True
    note ih = "2.IH" [OF True]
    then obtain j where j: "1 \<le> j" "j \<le> length xs"
      "Seq m = bump_seq (StreamID m0) c (StreamID m) + of_nat j" by blast
    have "\<exists>j. 1 \<le> j \<and> j \<le> length ((p, m0) # xs) \<and> Seq m = c (StreamID m) + of_nat j"
    proof (cases "StreamID m = StreamID m0")
      case True
      then show ?thesis using j by (intro exI [of _ "Suc j"]) (simp add: bump_seq_apply algebra_simps)
    next
      case False
      then show ?thesis using j by (intro exI [of _ j]) (simp add: bump_seq_apply)
    qed
    with ih show ?thesis by (force simp: case_prod_beta)
  next
    case False
    with 2(2) show ?thesis by (auto intro!: exI [of _ 1])
  qed
qed simp

lemma of_nat_u32_nonzero: "0 < j \<Longrightarrow> j < 2 ^ 32 \<Longrightarrow> (of_nat j :: u32) \<noteq> 0"
  by (metis gr_implies_not0 unat_0 unat_of_nat_u32)

lemma outgoing_keys_distinct:
  "length xs < 2 ^ 32 \<Longrightarrow> distinct (map msg_key (outgoing now me c xs))"
proof (induction now me c xs rule: outgoing.induct)
  case (2 now me c p m0 xs)
  let ?c = "bump_seq (StreamID m0) c"
  have "msg_key m \<noteq> (me, StreamID m0, c (StreamID m0) + 1)" if "m \<in> set (outgoing now me ?c xs)" for m
  proof
    assume k: "msg_key m = (me, StreamID m0, c (StreamID m0) + 1)"
    from outgoing_seq [OF that] obtain j where j: "1 \<le> j" "j \<le> length xs" "Seq m = ?c (StreamID m) + of_nat j" by blast
    from k have "StreamID m = StreamID m0" "Seq m = c (StreamID m0) + 1" by (simp_all add: msg_key_def)
    with j(3) have "c (StreamID m0) + 1 + of_nat j = c (StreamID m0) + 1" by (simp add: bump_seq_apply)
    then have "(of_nat j :: u32) = 0" by (simp only: add_cancel_left_right)
    moreover have "(of_nat j :: u32) \<noteq> 0" using j 2(2) by (intro of_nat_u32_nonzero) simp_all
    ultimately show False by contradiction
  qed
  then have "(me, StreamID m0, c (StreamID m0) + 1) \<notin> msg_key ` set (outgoing now me ?c xs)" by (metis imageE)
  with 2 show ?case by (simp add: msg_key_def)
qed simp

lemma exec_sends_enqueue:
  assumes "node_inv n" and "\<forall>(p, m) \<in> set xs. pm_Get p (nd_pm n) \<noteq> None"
    and "int (length (sq_h (nd_sq n)) + length xs) \<le> sq_cap (nd_sq n)"
  shows "\<exists>n'. exec_calls now (map (\<lambda>(p, m). ApiSend p m) xs) n = Inr n' \<and> node_inv n' \<and> nd_pm n' = nd_pm n \<and>
    sq_bag (nd_sq n') = sq_bag (nd_sq n) +
      mset (numbered (sq_counter (nd_sq n)) (outgoing now (opt_id (nd_cfg n)) (nd_seqCounters n) xs))"
  using assms
proof (induction xs arbitrary: n)
  case Nil
  then show ?case by simp
next
  case (Cons x xs)
  obtain p m where x: "x = (p, m)" by fastforce
  let ?sid = "StreamID m" let ?c = "nd_seqCounters n"
  let ?m = "stamp_time now (m\<lparr>From := opt_id (nd_cfg n), To := p, Seq := ?c ?sid + 1\<rparr>)"
  have sq: "sq_inv (nd_sq n)" "int (length (sq_h (nd_sq n))) < sq_cap (nd_sq n)"
    using Cons.prems by (simp_all add: node_inv_def)
  from SendQueue_Push_space [OF sq, of ?m "nd_mc n"] obtain q' where
    q': "SendQueue_Push ?m (nd_sq n, nd_mc n) = Inr (q', nd_mc n)" "pushed ?m (nd_sq n) q'"
    "sq_bag q' = add_mset (?m, sq_counter (nd_sq n) + 1) (sq_bag (nd_sq n))" .
  let ?n1 = "n\<lparr>nd_seqCounters := bump_seq ?sid ?c, nd_sq := q'\<rparr>"
  have run: "exec_call now (ApiSend p m) n = Inr ?n1"
    using Cons.prems(2) q'(1) by (auto simp: x node_Send_def nextSeq_def bump_seq_apply node_push_def Let_def split: option.splits)
  have len: "length (sq_h q') = Suc (length (sq_h (nd_sq n)))"
    using arg_cong [OF q'(3), of size] by (simp only: size_entries size_add_mset)
  have "node_inv ?n1" using Cons.prems(1) q'(2) by (simp add: node_inv_def pushed_def)
  moreover have "int (length (sq_h (nd_sq ?n1)) + length xs) \<le> sq_cap (nd_sq ?n1)"
    using Cons.prems(3) q'(2) len by (simp add: pushed_def)
  ultimately obtain n' where "exec_calls now (map (\<lambda>(p, m). ApiSend p m) xs) ?n1 = Inr n'" "node_inv n'"
    "nd_pm n' = nd_pm n" "sq_bag (nd_sq n') = sq_bag q' +
      mset (numbered (sq_counter q') (outgoing now (opt_id (nd_cfg n)) (bump_seq ?sid ?c) xs))"
    using Cons.IH [of ?n1] Cons.prems(2) by auto
  with run q' show ?case by (simp add: x pushed_def)
qed

section \<open>The send loop and concurrent pushes\<close>

text \<open>
  The send loop runs beside the goroutines that push: a pusher inserts under the lock and notifies
  after releasing it (\<open>ws_pending\<close> counts pushers in between); the loop waits for a notification,
  then pops until the queue is empty and waits again.
\<close>

record wake_state =
  ws_q :: SendQueue
  ws_mc :: "Collector option"
  ws_pending :: nat
  ws_draining :: bool

inductive pusher_step :: "wake_state \<Rightarrow> wake_state \<Rightarrow> bool" where
  insert_msg: "push_locked m (ws_q s, ws_mc s) = Inr (q', mc') \<Longrightarrow>
     pusher_step s (s\<lparr>ws_q := q', ws_mc := mc', ws_pending := Suc (ws_pending s)\<rparr>)"
| notify_loop: "ws_pending s = Suc k \<Longrightarrow> pusher_step s (s\<lparr>ws_q := notify (ws_q s), ws_pending := k\<rparr>)"

inductive sender_step :: "wake_state \<Rightarrow> wake_state \<Rightarrow> bool" where
  wake_up: "\<not> ws_draining s \<Longrightarrow> sq_notifyC (ws_q s) \<Longrightarrow>
     sender_step s (s\<lparr>ws_q := (ws_q s)\<lparr>sq_notifyC := False\<rparr>, ws_draining := True\<rparr>)"
| pop_one: "ws_draining s \<Longrightarrow> SendQueue_Pop (ws_q s) = Some (m, q') \<Longrightarrow> sender_step s (s\<lparr>ws_q := q'\<rparr>)"
| pop_none: "ws_draining s \<Longrightarrow> SendQueue_Pop (ws_q s) = None \<Longrightarrow> sender_step s (s\<lparr>ws_draining := False\<rparr>)"

inductive wake_reachable :: "SendQueue \<Rightarrow> wake_state \<Rightarrow> bool" for q0 where
  wake_init: "wake_reachable q0 \<lparr>ws_q = q0, ws_mc = mc, ws_pending = 0, ws_draining = False\<rparr>"
| wake_push: "wake_reachable q0 s \<Longrightarrow> pusher_step s s' \<Longrightarrow> wake_reachable q0 s'"
| wake_send: "wake_reachable q0 s \<Longrightarrow> sender_step s s' \<Longrightarrow> wake_reachable q0 s'"

inductive_cases pusher_stepE: "pusher_step s s'"
inductive_cases sender_stepE: "sender_step s s'"

definition wake_inv :: "wake_state \<Rightarrow> bool" where
  "wake_inv s \<longleftrightarrow> (sq_h (ws_q s) \<noteq> [] \<longrightarrow> sq_notifyC (ws_q s) \<or> ws_draining s \<or> 0 < ws_pending s)"

lemma SendQueue_Pop_None: "SendQueue_Pop q = None \<longleftrightarrow> sq_h q = []"
  by (simp add: SendQueue_Pop_def case_prod_beta Let_def)

lemma SendQueue_Pop_notify: "SendQueue_Pop q = Some (m, q') \<Longrightarrow> sq_notifyC q' = sq_notifyC q"
  by (auto simp: SendQueue_Pop_def case_prod_beta Let_def split: if_splits)

lemma wake_inv_reachable: "wake_reachable q0 s \<Longrightarrow> sq_h q0 = [] \<Longrightarrow> wake_inv s"
proof (induction rule: wake_reachable.induct)
  case (wake_push s s')
  from wake_push(2) show ?case by (rule pusher_stepE) (auto simp: wake_inv_def notify_def)
next
  case (wake_send s s')
  from wake_send(2) show ?case
    by (rule sender_stepE) (use wake_send in \<open>auto simp: wake_inv_def SendQueue_Pop_None\<close>)
qed (simp add: wake_inv_def)

section \<open>Properties\<close>

text \<open>
  C12. No lost wake-up: in every interleaving of pushers and the send loop, whenever the queue holds a
  message and no pusher is about to notify, the send loop can take a step; it is never left waiting
  beside a non-empty queue.
\<close>

theorem no_lost_wakeup:
  assumes "NewSendQueue c = Inr q0" and "wake_reachable q0 s"
    and "sq_h (ws_q s) \<noteq> []" and "ws_pending s = 0"
  shows "\<exists>s'. sender_step s s'"
proof -
  from assms(1) have "sq_h q0 = []" by (auto simp: NewSendQueue_def split: if_splits)
  with wake_inv_reachable assms have "sq_notifyC (ws_q s) \<or> ws_draining s" by (force simp: wake_inv_def)
  then show ?thesis
    using SendQueue_Pop_None [of "ws_q s"] assms(3) by (auto intro: sender_step.intros)
qed

definition wake_queue :: SendQueue where
  "wake_queue = \<lparr>sq_h = [], sq_notifyC = False, sq_counter = 0, sq_cap = 2\<rparr>"

definition wake_example :: wake_state where
  "wake_example = \<lparr>ws_q = wake_queue\<lparr>sq_h := [\<lparr>qi_msg = prio_msg 0 1, qi_seq = 1, qi_index = 0\<rparr>],
     sq_counter := 1, sq_notifyC := True\<rparr>, ws_mc = None, ws_pending = 0, ws_draining = False\<rparr>"

lemma wake_example_reachable: "wake_reachable wake_queue wake_example"
proof -
  let ?s0 = "\<lparr>ws_q = wake_queue, ws_mc = None, ws_pending = 0, ws_draining = False\<rparr>"
  let ?q1 = "wake_queue\<lparr>sq_h := [\<lparr>qi_msg = prio_msg 0 1, qi_seq = 1, qi_index = 0\<rparr>], sq_counter := 1\<rparr>"
  let ?s1 = "?s0\<lparr>ws_q := ?q1, ws_pending := 1\<rparr>"
  have "push_locked (prio_msg 0 1) (wake_queue, None) = Inr (?q1, None)"
    by (simp add: push_locked_def wake_queue_def Let_def heap_Push_def msgHeap_Push_def heap_up.simps)
  then have "pusher_step ?s0 ?s1" using pusher_step.insert_msg [of "prio_msg 0 1" ?s0] by simp
  moreover have "pusher_step ?s1 wake_example"
    using pusher_step.notify_loop [of ?s1 0] by (simp add: wake_example_def notify_def)
  ultimately show ?thesis by (blast intro: wake_reachable.intros)
qed

theorem no_lost_wakeup_witness: "\<exists>s'. sender_step wake_example s'"
  by (rule no_lost_wakeup [OF _ wake_example_reachable, of 2])
    (simp_all add: NewSendQueue_def wake_queue_def wake_example_def)

text \<open>
  C15. Draining: the inner send loop ends with an empty queue, hands every queued message for a known
  peer to the transport at that peer's address, in order of priority, drops messages for unknown
  peers, and counts each hand-over as sent or as an error.
\<close>

theorem send_drain_correct:
  assumes "node_inv n" and "send_drain tr_ok n = (outs, n')"
  shows "\<exists>ms. mset ms = image_mset fst (sq_bag (nd_sq n)) \<and> sorted (map Priority ms) \<and>
    outs = concat (map (\<lambda>m. case pm_Get (To m) (nd_pm n) of None \<Rightarrow> [] | Some p \<Rightarrow> [(Addr p, m)]) ms) \<and>
    sq_h (nd_sq n') = [] \<and> node_inv n' \<and>
    (\<forall>c. nd_mc n = Some c \<longrightarrow> (\<exists>c'. nd_mc n' = Some c' \<and>
       msgSent c' = msgSent c + of_nat (length (filter (\<lambda>(a, m). tr_ok a m) outs)) \<and>
       sendErrors c' = sendErrors c + of_nat (length (filter (\<lambda>(a, m). \<not> tr_ok a m) outs))))"
proof -
  from send_drain_routed [OF assms] obtain ms q' where
    p: "mset ms = image_mset fst (sq_bag (nd_sq n))" "sorted (map Priority ms)" "outs = routed (nd_pm n) ms"
      "sq_bag q' = {#}" "sq_inv q'"
    and n': "n' = n\<lparr>nd_sq := q', nd_mc := map_option (fold (count_sent tr_ok) outs) (nd_mc n)\<rparr>" .
  have "sq_h q' = []" using p(4) by (simp add: entries_def)
  with assms(1) p(5) have "sq_h (nd_sq n') = []" "node_inv n'" by (simp_all add: n' node_inv_def)
  moreover have "\<forall>c. nd_mc n = Some c \<longrightarrow> (\<exists>c'. nd_mc n' = Some c' \<and>
       msgSent c' = msgSent c + of_nat (length (filter (\<lambda>(a, m). tr_ok a m) outs)) \<and>
       sendErrors c' = sendErrors c + of_nat (length (filter (\<lambda>(a, m). \<not> tr_ok a m) outs)))"
    by (simp add: n' count_sent_counters)
  ultimately show ?thesis
    using p(1-3) unfolding routed_def by blast
qed

definition idle_node :: "SendQueue \<Rightarrow> Node" where
  "idle_node q = \<lparr>nd_cfg = \<lparr>opt_id = 1, opt_sendQueueSize = 4, opt_recvBufSize = 256, opt_mc = None\<rparr>,
     nd_pm = [(2, \<lparr>peer_ID = 2, Addr = ''b''\<rparr>)], nd_sq = q, nd_tm = NewTimerManager, nd_rt = NewRouter 1 None,
     nd_mc = None, nd_seqCounters = (\<lambda>_. 0), nd_stopClosed = False, nd_once = False\<rparr>"

lemma node_inv_idle: "sq_inv q \<Longrightarrow> node_inv (idle_node q)"
  using router_tracks_new [of 1 None]
  by (auto simp: node_inv_def idle_node_def pm_inv_def tm_inv_New)

theorem send_drain_correct_witness:
  "sq_h (nd_sq (snd (send_drain (\<lambda>_ _. True) (idle_node full_queue)))) = []"
  using send_drain_correct [OF node_inv_idle [OF sq_inv_full_queue] prod.collapse [symmetric]] by blast

text \<open>
  C17. The interface an algorithm sees never panics: any list of sends, broadcasts, timer settings with
  positive intervals and cancellations runs to its end on a well-formed node and keeps it well-formed.
\<close>

theorem node_calls_safe:
  assumes "node_inv n" and "list_all timers_positive cs"
  shows "\<exists>n'. exec_calls now cs n = Inr n' \<and> node_inv n'"
  by (rule exec_calls_total [OF assms])

theorem node_calls_safe_witness:
  "\<exists>n'. exec_calls 0 [ApiSetTimer ''tick'' 5, ApiBroadcast zero_Message, ApiSend 2 zero_Message, ApiCancelTimer ''x'']
     (idle_node full_queue) = Inr n' \<and> node_inv n'"
  by (rule node_calls_safe [OF node_inv_idle [OF sq_inv_full_queue]]) simp

text \<open>
  C37. A failed start poisons the node: when the algorithm refuses to start, \<open>Start\<close> closes the stop
  channel, and the \<open>Stop\<close> that follows closes it again and panics.
\<close>

theorem stop_after_failed_start_panics:
  assumes "node_inv n" and "\<not> nd_stopClosed n" and "\<not> nd_once n"
  shows "\<exists>n'. node_Start True now (Some None) n = Inr (Some AlgorithmStart, n') \<and>
    node_Stop now' [] n' = Inl CloseOfClosedChannel"
proof -
  from assms(1) have "tm_inv (nd_tm n)" by (simp add: node_inv_def)
  then show ?thesis
    using assms tm_StopAll_ok [of "nd_tm n"] by (auto simp: node_Start_def node_Stop_def close_stop_def)
qed

theorem stop_after_failed_start_panics_witness:
  "\<exists>n'. node_Start True 0 (Some None) (idle_node full_queue) = Inr (Some AlgorithmStart, n') \<and>
     node_Stop 0 [] n' = Inl CloseOfClosedChannel"
  by (rule stop_after_failed_start_panics [OF node_inv_idle [OF sq_inv_full_queue]])
    (simp_all add: idle_node_def)

end
