(* ===== verification/Node_Command.thy ===== *)
theory Node_Command
  imports Gossip Weaknet Raft_Node Node_Runtime
begin

text \<open>
  \<open>cmd/node/main.go\<close>: the peer list on the command line and the node it sets up. Strings are lists of
  characters; the white space \<open>strings.TrimSpace\<close> removes is that of ASCII text. The values of
  the flags are arguments. \<open>Node_Program\<close> goes on from here.
\<close>

section \<open>Strings\<close>

text \<open>\<open>strings.SplitN\<close> into at most two parts.\<close>

definition split_two :: "char \<Rightarrow> string \<Rightarrow> string list" where
  "split_two c s =
     (let before = takeWhile (\<lambda>x. x \<noteq> c) s
      in if c \<in> set s then [before, drop (Suc (length before)) s] else [s])"

definition TrimSpace :: "string \<Rightarrow> string" where
  "TrimSpace s = rev (dropWhile is_space (rev (dropWhile is_space s)))"

section \<open>The peer list\<close>

datatype peers_error = InvalidSpec string | InvalidID string num_error

fun parse_items :: "string list \<Rightarrow> (u16, string) gomap \<Rightarrow> peers_error + (u16, string) gomap" where
  "parse_items [] out = Inr out"
| "parse_items (item # items) out =
     (case split_two (CHR ''='') item of
        [idstr, addr] \<Rightarrow>
          (case ParseUint 16 (TrimSpace idstr) of
             Inl e \<Rightarrow> Inl (InvalidID idstr e)
           | Inr id64 \<Rightarrow> parse_items items (gm_set (of_nat id64) (TrimSpace addr) out))
      | _ \<Rightarrow> Inl (InvalidSpec item))"

definition parsePeers :: "string \<Rightarrow> peers_error + (u16, string) gomap" where
  "parsePeers s = (if s = [] then Inr [] else parse_items (split_on (CHR '','') s) [])"

text \<open>The node: the flag's number is cut to 16 bits, and a peer that cannot be added is skipped.\<close>

definition add_peers :: "(u16, string) gomap \<Rightarrow> Node \<Rightarrow> Node" where
  "add_peers peers n = foldl (\<lambda>n (i, addr). case AddPeer i addr n of Inl _ \<Rightarrow> n | Inr n' \<Rightarrow> n') n peers"

definition main_node :: "go_time \<Rightarrow> u64 \<Rightarrow> (u16, string) gomap \<Rightarrow> Node go" where
  "main_node now idFlag peers =
     (let i = ucast idFlag; mc = NewCollector now i
      in case NewNode i [WithSendQueueSize 512, WithRecvBufSize 256, WithMetrics (Some mc)] of
           Inl e \<Rightarrow> Inl e
         | Inr n \<Rightarrow> Inr (add_peers peers n))"

text \<open>
  The algorithm the flag names, with the parameters it is given; any other name ends the program. The
  random number generator of an algorithm is an argument. The WeakNet instance starts with an entry
  that holds the decimal node id.
\<close>

datatype main_algo = RunGossip Gossip | RunRaft Raft | RunWeaknet Weaknet

definition main_algorithm :: "rng \<Rightarrow> u16 \<Rightarrow> string \<Rightarrow> main_algo option" where
  "main_algorithm r nid algoFlag =
     (if algoFlag = ''gossip'' then Some (RunGossip (gossip_New r 3 (200 * Millisecond)))
      else if algoFlag = ''raft'' then Some (RunRaft (raft_New raft_DefaultConfig r True))
      else if algoFlag = ''weaknet''
      then Some (RunWeaknet (wn_Set ''nodeID'' (string_bytes (show_nat (unat nid))) (wn_New wn_DefaultConfig r)))
      else None)"

text \<open>The set-up from the command line: the peers and the algorithm are looked at in this order.\<close>

datatype main_exit = BadPeers peers_error | MainPanic go_panic | UnknownAlgorithm | StartFailed start_error

definition main_setup :: "go_time \<Rightarrow> rng \<Rightarrow> u64 \<Rightarrow> string \<Rightarrow> string \<Rightarrow> main_exit + Node \<times> main_algo" where
  "main_setup now r idFlag peersFlag algoFlag =
     (case parsePeers peersFlag of
        Inl e \<Rightarrow> Inl (BadPeers e)
      | Inr peers \<Rightarrow>
          (case main_node now idFlag peers of
             Inl p \<Rightarrow> Inl (MainPanic p)
           | Inr n \<Rightarrow>
               (case main_algorithm r (ucast idFlag) algoFlag of
                  None \<Rightarrow> Inl UnknownAlgorithm
                | Some a \<Rightarrow> Inr (n, a))))"

section \<open>Lemmas\<close>

lemma takeWhile_sep: "c \<notin> set s \<Longrightarrow> takeWhile (\<lambda>x. x \<noteq> c) (s @ c # t) = s"
  by (induction s) auto

lemma split_two_append: "c \<notin> set s \<Longrightarrow> split_two c (s @ c # t) = [s, t]"
  by (simp add: split_two_def takeWhile_sep)

lemma dropWhile_hd: "s = [] \<or> \<not> P (hd s) \<Longrightarrow> dropWhile P s = s"
  by (cases s) auto

lemma TrimSpace_id: "s = [] \<or> \<not> is_space (hd s) \<and> \<not> is_space (last s) \<Longrightarrow> TrimSpace s = s"
  by (auto simp: TrimSpace_def dropWhile_hd hd_rev)

lemma show_nat_trim: "TrimSpace (show_nat n) = show_nat n"
proof (rule TrimSpace_id)
  have "\<not> is_space c" if "c \<in> set (show_nat n)" for c
    using show_nat_chars [OF that] by (auto simp: is_space_def)
  then show "show_nat n = [] \<or> \<not> is_space (hd (show_nat n)) \<and> \<not> is_space (last (show_nat n))"
    using show_nat_nonempty [of n] by simp
qed

section \<open>Printing a peer list\<close>

definition show_peer :: "u16 \<times> string \<Rightarrow> string" where
  "show_peer p = show_nat (unat (fst p)) @ CHR ''='' # snd p"

fun show_peers :: "(u16 \<times> string) list \<Rightarrow> string" where
  "show_peers [] = []"
| "show_peers [p] = show_peer p"
| "show_peers (p # q # ps) = show_peer p @ CHR '','' # show_peers (q # ps)"

definition addr_ok :: "string \<Rightarrow> bool" where
  "addr_ok a \<longleftrightarrow> CHR '','' \<notin> set a \<and> (a = [] \<or> \<not> is_space (hd a) \<and> \<not> is_space (last a))"

lemma comma_not_in_peer: "addr_ok (snd p) \<Longrightarrow> CHR '','' \<notin> set (show_peer p)"
  using show_nat_chars [of "CHR '',''" "unat (fst p)"] by (auto simp: show_peer_def addr_ok_def)

lemma split_show_peers:
  "ps \<noteq> [] \<Longrightarrow> \<forall>p \<in> set ps. addr_ok (snd p) \<Longrightarrow> split_on (CHR '','') (show_peers ps) = map show_peer ps"
  by (induction ps rule: show_peers.induct) (simp_all add: split_on_none split_on_append comma_not_in_peer)

lemma parse_items_show:
  assumes "\<forall>p \<in> set ps. addr_ok (snd p)"
  shows "parse_items (map show_peer ps) out = Inr (foldl (\<lambda>m (i, a). gm_set i a m) out ps)"
  using assms
proof (induction ps arbitrary: out)
  case (Cons p ps)
  obtain i a where p: "p = (i, a)" by fastforce
  have eq: "CHR ''='' \<notin> set (show_nat (unat i))" using show_nat_chars [of "CHR ''=''" "unat i"] by auto
  have "unat i < 2 ^ LENGTH(16)" by (rule unsigned_less)
  then have "ParseUint 16 (show_nat (unat i)) = Inr (unat i)" using ParseUint_show [of "unat i" 16] by simp
  moreover have "TrimSpace a = a" using Cons.prems by (intro TrimSpace_id) (simp add: p addr_ok_def)
  ultimately have "parse_items (show_peer p # map show_peer ps) out = parse_items (map show_peer ps) (gm_set i a out)"
    by (simp add: p show_peer_def split_two_append [OF eq] show_nat_trim)
  with Cons show ?case by (simp add: p)
qed simp

lemma show_peers_empty: "show_peers ps = [] \<longleftrightarrow> ps = []"
  by (cases ps rule: show_peers.cases) (simp_all add: show_peer_def)

lemma parsePeers_show:
  assumes "distinct (map fst ps)" and "\<forall>p \<in> set ps. addr_ok (snd p)"
  shows "parsePeers (show_peers ps) = Inr ps"
proof (cases "ps = []")
  case False
  with assms show ?thesis
    by (simp add: parsePeers_def show_peers_empty split_show_peers parse_items_show foldl_gm_set)
qed (simp add: parsePeers_def)

lemma AddPeer_pm: "AddPeer i addr n = (if i = 0 then Inl ReservedID else Inr (n\<lparr>nd_pm := gm_set i \<lparr>peer_ID = i, Addr = addr\<rparr> (nd_pm n)\<rparr>))"
  by (simp add: AddPeer_def pm_Add_def)

lemma add_peers_Get:
  "gm_ok ps \<Longrightarrow> node_PeerAddr i (add_peers ps n) =
     (if i \<noteq> 0 \<and> gm_lookup ps i \<noteq> None then gm_lookup ps i else node_PeerAddr i n)"
proof (induction ps arbitrary: n)
  case (Cons p ps)
  obtain j a where p: "p = (j, a)" by fastforce
  let ?n = "case AddPeer j a n of Inl _ \<Rightarrow> n | Inr n' \<Rightarrow> n'"
  have step: "add_peers ((j, a) # ps) n = add_peers ps ?n" by (simp add: add_peers_def)
  have "node_PeerAddr i ?n = (if i = j \<and> j \<noteq> 0 then Some a else node_PeerAddr i n)"
    by (auto simp: AddPeer_pm node_PeerAddr_def pm_Get_def)
  moreover have "gm_lookup ps j = None" using Cons.prems by (simp add: p map_of_eq_None_iff)
  ultimately show ?case using Cons.IH [of ?n] Cons.prems by (auto simp: step p simp del: map_of_eq_Some_iff)
qed (simp add: add_peers_def)

section \<open>Properties\<close>



end
