(* ===== verification/Go_Json_String.thy ===== *)
theory Go_Json_String
  imports Go_Text
begin

text \<open>
  Strings in JSON text as Go's \<open>encoding/json\<close> writes and reads them. Written strings are escaped for
  HTML, and bytes that are not UTF-8 become the replacement character; read strings may use any
  escape. A string that is written is read back, with invalid UTF-8 replaced.
\<close>

section \<open>UTF-8\<close>

definition cont :: "char \<Rightarrow> bool" where
  "cont c \<longleftrightarrow> 128 \<le> byte c \<and> byte c \<le> 191"

text \<open>The second byte is restricted after some first bytes: no overlong forms, surrogates or values past the last code point.\<close>

definition second :: "char \<Rightarrow> char \<Rightarrow> bool" where
  "second c c1 \<longleftrightarrow>
     (if byte c = 224 then 160 else if byte c = 240 then 144 else 128) \<le> byte c1 \<and>
     byte c1 \<le> (if byte c = 237 then 159 else if byte c = 244 then 143 else 191)"

text \<open>\<open>utf8.DecodeRune\<close>: the length of the code point at the front, 0 when the first byte starts none.\<close>

fun utf8_len :: "string \<Rightarrow> nat" where
  "utf8_len [] = 0"
| "utf8_len (c # cs) =
     (if byte c < 128 then 1
      else if 194 \<le> byte c \<and> byte c \<le> 223
      then (case cs of c1 # _ \<Rightarrow> if cont c1 then 2 else 0 | _ \<Rightarrow> 0)
      else if 224 \<le> byte c \<and> byte c \<le> 239
      then (case cs of c1 # c2 # _ \<Rightarrow> if second c c1 \<and> cont c2 then 3 else 0 | _ \<Rightarrow> 0)
      else if 240 \<le> byte c \<and> byte c \<le> 244
      then (case cs of c1 # c2 # c3 # _ \<Rightarrow> if second c c1 \<and> cont c2 \<and> cont c3 then 4 else 0 | _ \<Rightarrow> 0)
      else 0)"

lemma utf8_len_le: "utf8_len s \<le> length s"
  by (cases s) (auto split: list.splits)

lemma utf8_len_prefix: "0 < utf8_len s \<Longrightarrow> utf8_len (take (utf8_len s) s @ t) = utf8_len s"
  by (cases s) (auto split: list.splits if_splits)

lemma utf8_len_ascii [simp]: "byte c < 128 \<Longrightarrow> utf8_len (c # cs) = 1"
  by simp

declare utf8_len.simps(2) [simp del]

text \<open>\<open>utf8.EncodeRune\<close>\<close>

definition replacement :: string where
  "replacement = chars [239, 191, 189]"

definition encode_rune :: "nat \<Rightarrow> string" where
  "encode_rune r =
     (if r < 128 then chars [r]
      else if r < 2048 then chars [192 + r div 64, 128 + r mod 64]
      else if 55296 \<le> r \<and> r \<le> 57343 \<or> 1114111 < r then replacement
      else if r < 65536 then chars [224 + r div 4096, 128 + r div 64 mod 64, 128 + r mod 64]
      else chars [240 + r div 262144, 128 + r div 4096 mod 64, 128 + r div 64 mod 64, 128 + r mod 64])"

text \<open>A string with every byte outside a code point replaced.\<close>

function to_valid :: "string \<Rightarrow> string" where
  "to_valid [] = []"
| "to_valid (c # cs) =
     (let n = utf8_len (c # cs)
      in if n = 0 then replacement @ to_valid cs else take n (c # cs) @ to_valid (drop n (c # cs)))"
  by pat_completeness auto
termination by (relation "measure length") auto

declare to_valid.simps(2) [simp del]

function valid_utf8 :: "string \<Rightarrow> bool" where
  "valid_utf8 [] = True"
| "valid_utf8 (c # cs) = (let n = utf8_len (c # cs) in if n = 0 then False else valid_utf8 (drop n (c # cs)))"
  by pat_completeness auto
termination by (relation "measure length") auto

declare valid_utf8.simps(2) [simp del]

lemma to_valid_id: "valid_utf8 s \<Longrightarrow> to_valid s = s"
  by (induction s rule: valid_utf8.induct) (simp_all add: to_valid.simps(2) valid_utf8.simps(2) Let_def split: if_splits)

lemma valid_ascii: "\<forall>c \<in> set s. byte c < 128 \<Longrightarrow> valid_utf8 s"
  by (induction s) (simp_all add: valid_utf8.simps(2))

section \<open>Strings\<close>

abbreviation quote :: char where "quote \<equiv> CHR 0x22"
abbreviation backslash :: char where "backslash \<equiv> CHR 0x5C"

definition hex_digit :: "nat \<Rightarrow> char" where
  "hex_digit k = ''0123456789abcdef'' ! k"

text \<open>One byte below 128 of \<open>appendString\<close> with HTML escaping.\<close>

definition esc :: "char \<Rightarrow> string" where
  "esc c =
     (if c = quote \<or> c = backslash then [backslash, c]
      else if byte c = 8 then backslash # ''b''
      else if byte c = 12 then backslash # ''f''
      else if byte c = 10 then backslash # ''n''
      else if byte c = 13 then backslash # ''r''
      else if byte c = 9 then backslash # ''t''
      else if byte c < 32 \<or> c \<in> {CHR ''<'', CHR ''>'', CHR ''&''}
      then backslash # ''u00'' @ [hex_digit (byte c div 16), hex_digit (byte c mod 16)]
      else [c])"

text \<open>A code point of several bytes; the line and paragraph separators are escaped.\<close>

definition esc_rune :: "string \<Rightarrow> string" where
  "esc_rune u =
     (if u = chars [226, 128, 168] then backslash # ''u2028''
      else if u = chars [226, 128, 169] then backslash # ''u2029'' else u)"

function q_chars :: "string \<Rightarrow> string" where
  "q_chars [] = []"
| "q_chars (c # cs) =
     (let n = utf8_len (c # cs)
      in if n = 0 then (backslash # ''ufffd'') @ q_chars cs
         else if byte c < 128 then esc c @ q_chars cs
         else esc_rune (take n (c # cs)) @ q_chars (drop n (c # cs)))"
  by pat_completeness auto
termination by (relation "measure length") auto

declare q_chars.simps(2) [simp del]

text \<open>Reading: \<open>\\uXXXX\<close> with surrogate pairs, the short escapes, and everything else by code points.\<close>

definition hex_val :: "char \<Rightarrow> nat option" where
  "hex_val c =
     (if 48 \<le> byte c \<and> byte c \<le> 57 then Some (byte c - 48)
      else if 97 \<le> byte c \<and> byte c \<le> 102 then Some (byte c - 87)
      else if 65 \<le> byte c \<and> byte c \<le> 70 then Some (byte c - 55)
      else None)"

definition getu4 :: "string \<Rightarrow> (nat \<times> string) option" where
  "getu4 s =
     (case s of
        a # b # c # d # r \<Rightarrow>
          (case (hex_val a, hex_val b, hex_val c, hex_val d) of
             (Some w, Some x, Some y, Some z) \<Rightarrow> Some (4096 * w + 256 * x + 16 * y + z, r)
           | _ \<Rightarrow> None)
      | _ \<Rightarrow> None)"

definition low_surrogate :: "string \<Rightarrow> (nat \<times> string) option" where
  "low_surrogate s =
     (case s of
        b # u # r \<Rightarrow>
          if b = backslash \<and> u = CHR ''u''
          then (case getu4 r of
                  Some (l, r') \<Rightarrow> if 56320 \<le> l \<and> l \<le> 57343 then Some (l, r') else None
                | None \<Rightarrow> None)
          else None
      | _ \<Rightarrow> None)"

definition un_u :: "string \<Rightarrow> (string \<times> string) option" where
  "un_u r =
     (case getu4 r of
        None \<Rightarrow> None
      | Some (h, r1) \<Rightarrow>
          if 55296 \<le> h \<and> h \<le> 57343
          then (case (if h \<le> 56319 then low_surrogate r1 else None) of
                  Some (l, r2) \<Rightarrow> Some (encode_rune (65536 + 1024 * (h - 55296) + (l - 56320)), r2)
                | None \<Rightarrow> Some (replacement, r1))
          else Some (encode_rune h, r1))"

definition short_escape :: "char \<Rightarrow> char option" where
  "short_escape e =
     (if e = quote \<or> e = backslash \<or> e = CHR ''/'' then Some e
      else if e = CHR ''b'' then Some (char_of (8 :: nat))
      else if e = CHR ''f'' then Some (char_of (12 :: nat))
      else if e = CHR ''n'' then Some (char_of (10 :: nat))
      else if e = CHR ''r'' then Some (char_of (13 :: nat))
      else if e = CHR ''t'' then Some (char_of (9 :: nat))
      else None)"

text \<open>One unit of the body of a string: what it stands for, and the rest.\<close>

definition un_step :: "string \<Rightarrow> (string \<times> string) option" where
  "un_step s =
     (case s of
        [] \<Rightarrow> None
      | c # cs \<Rightarrow>
          if c = backslash
          then (case cs of
                  [] \<Rightarrow> None
                | e # r \<Rightarrow> if e = CHR ''u'' then un_u r
                           else (case short_escape e of None \<Rightarrow> None | Some x \<Rightarrow> Some ([x], r)))
          else if byte c < 32 then None
          else let n = utf8_len s
               in if n = 0 then Some (replacement, cs) else Some (take n s, drop n s))"

lemma getu4_length: "getu4 s = Some (u, r) \<Longrightarrow> length r < length s"
  by (auto simp: getu4_def split: list.splits option.splits)

lemma un_u_length: "un_u s = Some (u, r) \<Longrightarrow> length r < length s"
proof -
  have low: "low_surrogate s = Some (l, r) \<Longrightarrow> length r < length s" for s l r
    by (auto simp: low_surrogate_def split: list.splits if_splits option.splits dest!: getu4_length)
  show "un_u s = Some (u, r) \<Longrightarrow> length r < length s"
    by (auto simp: un_u_def split: option.splits if_splits prod.splits dest!: getu4_length low)
qed

lemma un_step_length: "un_step s = Some (u, r) \<Longrightarrow> length r < length s"
  by (auto simp: un_step_def Let_def split: list.splits if_splits option.splits dest: un_u_length)

text \<open>The body of a string after its opening quote.\<close>

function un_chars :: "string \<Rightarrow> (string \<times> string) option" where
  "un_chars s =
     (if s \<noteq> [] \<and> hd s = quote then Some ([], tl s)
      else case un_step s of
        None \<Rightarrow> None
      | Some (u, r) \<Rightarrow> map_option (\<lambda>(x, t). (u @ x, t)) (un_chars r))"
  by pat_completeness auto
termination by (relation "measure length") (auto dest: un_step_length)

declare un_chars.simps [simp del]

lemma un_chars_length: "un_chars s = Some (x, r) \<Longrightarrow> length r < length s"
proof (induction s arbitrary: x r rule: un_chars.induct)
  case (1 s)
  show ?case
  proof (cases "s \<noteq> [] \<and> hd s = quote")
    case True
    with "1.prems" show ?thesis by (auto simp: un_chars.simps [of s])
  next
    case False
    with "1.prems" obtain u r' y where "un_step s = Some (u, r')" "un_chars r' = Some (y, r)"
      by (auto simp: un_chars.simps [of s] split: option.splits)
    with "1.IH" [OF False] show ?thesis using un_step_length by fastforce
  qed
qed

text \<open>What is written for a string is read back, unit by unit.\<close>

lemma hex_val_digit: "k < 16 \<Longrightarrow> hex_val (hex_digit k) = Some k"
proof -
  assume "k < 16"
  then have "k \<in> set [0..<16]" by simp
  moreover have "\<forall>k \<in> set [0..<16]. hex_val (hex_digit k) = Some k" by code_simp
  ultimately show ?thesis by blast
qed

lemma of_char_less_256: "byte c < 256"
  by simp

lemma encode_ascii: "byte c < 128 \<Longrightarrow> encode_rune (byte c) = [c]"
  by (simp add: encode_rune_def chars_def)

lemma un_u_ascii: "byte c < 128 \<Longrightarrow> un_u (''00'' @ hex_digit (byte c div 16) # hex_digit (byte c mod 16) # r) = Some ([c], r)"
proof -
  assume c: "byte c < 128"
  have "hex_val (CHR ''0'') = Some 0" by (simp add: hex_val_def)
  then have "getu4 (''00'' @ hex_digit (byte c div 16) # hex_digit (byte c mod 16) # r) = Some (byte c, r)"
    using c by (simp add: getu4_def hex_val_digit)
  with c show ?thesis by (simp add: un_u_def encode_ascii)
qed

lemma un_step_esc: "byte c < 128 \<Longrightarrow> un_step (esc c @ r) = Some ([c], r)"
proof -
  assume c: "byte c < 128"
  have n: "byte c = k \<Longrightarrow> c = char_of k" for k by (metis char_of_char)
  show ?thesis
  proof (cases "c = quote \<or> c = backslash")
    case True
    then show ?thesis by (auto simp: esc_def un_step_def short_escape_def)
  next
    case False
    consider "byte c \<in> {8, 9, 10, 12, 13}" | "byte c \<notin> {8, 9, 10, 12, 13}" "byte c < 32 \<or> c \<in> {CHR ''<'', CHR ''>'', CHR ''&''}"
      | "\<not> byte c < 32" "c \<notin> {CHR ''<'', CHR ''>'', CHR ''&''}" by blast
    then show ?thesis
    proof cases
      case 1
      then show ?thesis using False by (auto simp: esc_def un_step_def short_escape_def dest: n)
    next
      case 2
      then have "esc c @ r = backslash # CHR ''u'' # ''00'' @ hex_digit (byte c div 16) # hex_digit (byte c mod 16) # r"
        using False by (auto simp: esc_def)
      with un_u_ascii [OF c, of r] show ?thesis by (simp add: un_step_def)
    next
      case 3
      then show ?thesis using False c by (auto simp: esc_def un_step_def)
    qed
  qed
qed

lemma un_step_plain:
  "c \<noteq> backslash \<Longrightarrow> \<not> byte c < 32 \<Longrightarrow> utf8_len (c # cs @ r) = Suc (length cs) \<Longrightarrow> un_step (c # cs @ r) = Some (c # cs, r)"
  by (simp add: un_step_def)

lemma un_step_separator:
  "(d, k) \<in> {(CHR ''8'', 168), (CHR ''9'', 169)} \<Longrightarrow> un_step (backslash # ''u202'' @ d # r) = Some (chars [226, 128, k], r)"
  by (auto simp: un_step_def un_u_def getu4_def hex_val_def encode_rune_def)

lemma un_step_rune:
  assumes "0 < utf8_len (c # cs)" and "\<not> byte c < 128"
  shows "un_step (esc_rune (take (utf8_len (c # cs)) (c # cs)) @ r) = Some (take (utf8_len (c # cs)) (c # cs), r)"
    and "hd (esc_rune (take (utf8_len (c # cs)) (c # cs)) @ r) \<noteq> quote"
proof -
  obtain k where k: "utf8_len (c # cs) = Suc k" using assms(1) by (cases "utf8_len (c # cs)") auto
  have c: "c \<noteq> backslash" "c \<noteq> quote" "\<not> byte c < 32" using assms(2) by auto
  have "length (take k cs) = k" using utf8_len_le [of "c # cs"] k by simp
  then have "un_step (c # take k cs @ r) = Some (c # take k cs, r)"
    using un_step_plain [OF c(1,3), of "take k cs" r] utf8_len_prefix [OF assms(1), of r] k by simp
  with un_step_separator [of "CHR ''8''" 168] un_step_separator [of "CHR ''9''" 169]
  show "un_step (esc_rune (take (utf8_len (c # cs)) (c # cs)) @ r) = Some (take (utf8_len (c # cs)) (c # cs), r)"
    by (simp add: k esc_rune_def)
  show "hd (esc_rune (take (utf8_len (c # cs)) (c # cs)) @ r) \<noteq> quote" using c(2) by (simp add: k esc_rune_def)
qed

lemma un_step_replacement: "un_step ((backslash # ''ufffd'') @ r) = Some (replacement, r)"
  by (simp add: un_step_def un_u_def getu4_def hex_val_def encode_rune_def replacement_def)

lemma un_chars_step: "un_step s = Some (u, r) \<Longrightarrow> hd s \<noteq> quote \<Longrightarrow> un_chars s = map_option (\<lambda>(x, t). (u @ x, t)) (un_chars r)"
  by (subst un_chars.simps) simp

lemma hd_esc: "hd (esc c @ r) \<noteq> quote"
  by (auto simp: esc_def)

lemma un_q_chars: "un_chars (q_chars s @ quote # r) = Some (to_valid s, r)"
proof (induction s rule: q_chars.induct)
  case 1
  then show ?case by (simp add: un_chars.simps)
next
  case (2 c cs)
  let ?n = "utf8_len (c # cs)"
  show ?case
  proof (cases "?n = 0")
    case True
    with 2 un_chars_step [OF un_step_replacement] show ?thesis
      by (simp add: q_chars.simps(2) to_valid.simps(2))
  next
    case n: False
    show ?thesis
    proof (cases "byte c < 128")
      case True
      then have "?n = 1" by simp
      with 2 n True un_chars_step [OF un_step_esc [OF True] hd_esc] show ?thesis
        by (simp add: q_chars.simps(2) to_valid.simps(2))
    next
      case False
      note r = un_step_rune [of c cs, OF _ False]
      from 2 n False un_chars_step [OF r(1) r(2)] show ?thesis
        by (simp add: q_chars.simps(2) to_valid.simps(2) Let_def)
    qed
  qed
qed

end
