(* ===== verification/Go_Json.thy ===== *)
theory Go_Json
  imports Go_Json_String
begin

text \<open>
  JSON values and their text, as Go's \<open>encoding/json\<close> writes and reads it. Writing is compact. Reading
  accepts any JSON text, up to the library's limit on nesting; it is a lexer followed by a machine
  with a stack, which is how the library's scanner works. Numbers keep their text. A value that is
  written is read back, with invalid UTF-8 replaced in its strings.
\<close>

section \<open>Values and tokens\<close>

datatype json =
    JNull
  | JBool bool
  | JNum string
  | JStr string
  | JArr "json list"
  | JObj "(string \<times> json) list"

datatype token =
    TLBrace | TRBrace | TLBrack | TRBrack | TColon | TComma
  | TNull | TBool bool | TNum string | TStr string

fun commas :: "token list list \<Rightarrow> token list" where
  "commas [] = []"
| "commas [ts] = ts"
| "commas (ts # us # tss) = ts @ TComma # commas (us # tss)"

primrec toks :: "json \<Rightarrow> token list" where
  "toks JNull = [TNull]"
| "toks (JBool b) = [TBool b]"
| "toks (JNum s) = [TNum s]"
| "toks (JStr s) = [TStr s]"
| "toks (JArr vs) = TLBrack # commas (map toks vs) @ [TRBrack]"
| "toks (JObj ms) = TLBrace # commas (map (\<lambda>(k, ts). TStr k # TColon # ts) (map (map_prod id toks) ms)) @ [TRBrace]"

fun tok_text :: "token \<Rightarrow> string" where
  "tok_text TLBrace = ''{''"
| "tok_text TRBrace = ''}''"
| "tok_text TLBrack = ''[''"
| "tok_text TRBrack = '']''"
| "tok_text TColon = '':''"
| "tok_text TComma = '',''"
| "tok_text TNull = ''null''"
| "tok_text (TBool b) = (if b then ''true'' else ''false'')"
| "tok_text (TNum s) = s"
| "tok_text (TStr s) = quote # q_chars s @ [quote]"

definition print_json :: "json \<Rightarrow> string" where
  "print_json v = concat (map tok_text (toks v))"

section \<open>Lexing\<close>

definition is_ws :: "char \<Rightarrow> bool" where
  "is_ws c \<longleftrightarrow> byte c \<in> {9, 10, 13, 32}"

text \<open>The parts of a number: sign, integer part without leading zeros, fraction, exponent.\<close>

definition digits1 :: "string \<Rightarrow> (string \<times> string) option" where
  "digits1 s = (let ds = takeWhile is_digit s in if ds = [] then None else Some (ds, dropWhile is_digit s))"

definition num_int :: "string \<Rightarrow> (string \<times> string) option" where
  "num_int s =
     (case s of
        [] \<Rightarrow> None
      | c # r \<Rightarrow> if c = CHR ''0'' then Some (''0'', r) else digits1 s)"

definition num_frac :: "string \<Rightarrow> (string \<times> string) option" where
  "num_frac s =
     (case s of
        c # r \<Rightarrow> if c = CHR ''.'' then map_option (\<lambda>(ds, t). (c # ds, t)) (digits1 r) else Some ([], s)
      | [] \<Rightarrow> Some ([], s))"

definition num_exp :: "string \<Rightarrow> (string \<times> string) option" where
  "num_exp s =
     (case s of
        c # r \<Rightarrow>
          if c = CHR ''e'' \<or> c = CHR ''E''
          then (case r of
                  d # r' \<Rightarrow> if d = CHR ''+'' \<or> d = CHR ''-''
                             then map_option (\<lambda>(ds, t). (c # d # ds, t)) (digits1 r')
                             else map_option (\<lambda>(ds, t). (c # ds, t)) (digits1 r)
                | [] \<Rightarrow> None)
          else Some ([], s)
      | [] \<Rightarrow> Some ([], s))"

definition num_abs :: "string \<Rightarrow> (string \<times> string) option" where
  "num_abs s =
     (case num_int s of
        None \<Rightarrow> None
      | Some (a, r1) \<Rightarrow>
          (case num_frac r1 of
             None \<Rightarrow> None
           | Some (b, r2) \<Rightarrow> map_option (\<lambda>(e, r3). (a @ b @ e, r3)) (num_exp r2)))"

definition lex_num :: "string \<Rightarrow> (string \<times> string) option" where
  "lex_num s =
     (if s \<noteq> [] \<and> hd s = CHR ''-'' then map_option (\<lambda>(n, r). (CHR ''-'' # n, r)) (num_abs (tl s)) else num_abs s)"

definition lex_word :: "string \<Rightarrow> (token \<times> string) option" where
  "lex_word s =
     (if take 4 s = ''null'' then Some (TNull, drop 4 s)
      else if take 4 s = ''true'' then Some (TBool True, drop 4 s)
      else if take 5 s = ''false'' then Some (TBool False, drop 5 s)
      else None)"

definition punct :: "char \<Rightarrow> token option" where
  "punct c =
     (if c = CHR ''{'' then Some TLBrace
      else if c = CHR ''}'' then Some TRBrace
      else if c = CHR ''['' then Some TLBrack
      else if c = CHR '']'' then Some TRBrack
      else if c = CHR '':'' then Some TColon
      else if c = CHR '','' then Some TComma
      else None)"

definition lex_tok :: "string \<Rightarrow> (token \<times> string) option" where
  "lex_tok s =
     (case s of
        [] \<Rightarrow> None
      | c # r \<Rightarrow>
          (case punct c of
             Some t \<Rightarrow> Some (t, r)
           | None \<Rightarrow>
               if c = quote then map_option (\<lambda>(x, t). (TStr x, t)) (un_chars r)
               else if c = CHR ''-'' \<or> is_digit c then map_option (\<lambda>(n, t). (TNum n, t)) (lex_num s)
               else lex_word s))"

lemma digits1_length: "digits1 s = Some (ds, r) \<Longrightarrow> length r < length s"
  by (cases s) (auto simp: digits1_def Let_def split: if_splits intro: le_less_trans [OF length_dropWhile_le])

lemma num_int_length: "num_int s = Some (a, r) \<Longrightarrow> length r < length s"
  by (auto simp: num_int_def split: list.splits if_splits dest: digits1_length)

lemma num_frac_length: "num_frac s = Some (a, r) \<Longrightarrow> length r \<le> length s"
  by (auto simp: num_frac_def split: list.splits if_splits dest: digits1_length)

lemma num_exp_length: "num_exp s = Some (a, r) \<Longrightarrow> length r \<le> length s"
  by (auto simp: num_exp_def split: list.splits if_splits dest: digits1_length)

lemma num_abs_length: "num_abs s = Some (a, r) \<Longrightarrow> length r < length s"
  by (fastforce simp: num_abs_def split: option.splits dest: num_int_length num_frac_length num_exp_length)

lemma lex_num_length: "lex_num s = Some (a, r) \<Longrightarrow> length r < length s"
  by (cases s) (fastforce simp: lex_num_def split: if_splits dest: num_abs_length)+

lemma lex_word_length: "lex_word s = Some (t, r) \<Longrightarrow> length r < length s"
  by (cases s) (auto simp: lex_word_def split: if_splits)

lemma lex_tok_length: "lex_tok s = Some (t, r) \<Longrightarrow> length r < length s"
proof (cases s)
  case (Cons c r')
  assume "lex_tok s = Some (t, r)"
  then show ?thesis
    using un_chars_length [of r'] lex_num_length [of s] lex_word_length [of s]
    by (fastforce simp: lex_tok_def Cons split: option.splits if_splits)
qed (simp add: lex_tok_def)

function lex :: "string \<Rightarrow> token list option" where
  "lex s =
     (if s = [] then Some []
      else if is_ws (hd s) then lex (tl s)
      else case lex_tok s of
        None \<Rightarrow> None
      | Some (t, r) \<Rightarrow> map_option ((#) t) (lex r))"
  by pat_completeness auto
termination by (relation "measure length") (auto dest: lex_tok_length)

declare lex.simps [simp del]

section \<open>Parsing\<close>

text \<open>
  The stack holds what is open: arrays and objects with the parts read so far, and the key of an object's
  member whose value comes next. The state says what may come next.
\<close>

datatype frame = FArr "json list" | FObj "(string \<times> json) list" | FKey string

datatype pstate = SVal | SArr0 | SArrNext | SObj0 | SKey | SColon | SObjNext | SDone json

definition maxNestingDepth :: nat where
  "maxNestingDepth = 10000"

fun is_open :: "frame \<Rightarrow> bool" where
  "is_open (FKey k) = False"
| "is_open (FArr vs) = True"
| "is_open (FObj ms) = True"

definition depth :: "frame list \<Rightarrow> nat" where
  "depth st = length (filter is_open st)"

fun value_done :: "json \<Rightarrow> frame list \<Rightarrow> frame list \<times> pstate" where
  "value_done v (FArr vs # st) = (FArr (vs @ [v]) # st, SArrNext)"
| "value_done v (FKey k # FObj ms # st) = (FObj (ms @ [(k, v)]) # st, SObjNext)"
| "value_done v st = ([], SDone v)"

definition open_frame :: "frame \<Rightarrow> pstate \<Rightarrow> frame list \<Rightarrow> (frame list \<times> pstate) option" where
  "open_frame f s st = (if depth st < maxNestingDepth then Some (f # st, s) else None)"

fun begin_value :: "token \<Rightarrow> frame list \<Rightarrow> (frame list \<times> pstate) option" where
  "begin_value TNull st = Some (value_done JNull st)"
| "begin_value (TBool b) st = Some (value_done (JBool b) st)"
| "begin_value (TNum s) st = Some (value_done (JNum s) st)"
| "begin_value (TStr s) st = Some (value_done (JStr s) st)"
| "begin_value TLBrack st = open_frame (FArr []) SArr0 st"
| "begin_value TLBrace st = open_frame (FObj []) SObj0 st"
| "begin_value _ st = None"

fun close :: "frame list \<Rightarrow> (frame list \<times> pstate) option" where
  "close (FArr vs # st) = Some (value_done (JArr vs) st)"
| "close (FObj ms # st) = Some (value_done (JObj ms) st)"
| "close _ = None"

definition pstep :: "token \<Rightarrow> frame list \<times> pstate \<Rightarrow> (frame list \<times> pstate) option" where
  "pstep t x =
     (case x of (st, s) \<Rightarrow>
        case s of
          SVal \<Rightarrow> begin_value t st
        | SArr0 \<Rightarrow> if t = TRBrack then close st else begin_value t st
        | SArrNext \<Rightarrow> if t = TComma then Some (st, SVal) else if t = TRBrack then close st else None
        | SObj0 \<Rightarrow> (case t of TStr k \<Rightarrow> Some (FKey k # st, SColon) | TRBrace \<Rightarrow> close st | _ \<Rightarrow> None)
        | SKey \<Rightarrow> (case t of TStr k \<Rightarrow> Some (FKey k # st, SColon) | _ \<Rightarrow> None)
        | SColon \<Rightarrow> if t = TColon then Some (st, SVal) else None
        | SObjNext \<Rightarrow> if t = TComma then Some (st, SKey) else if t = TRBrace then close st else None
        | SDone v \<Rightarrow> None)"

fun run_tokens :: "token list \<Rightarrow> frame list \<times> pstate \<Rightarrow> (frame list \<times> pstate) option" where
  "run_tokens [] x = Some x"
| "run_tokens (t # ts) x = (case pstep t x of None \<Rightarrow> None | Some y \<Rightarrow> run_tokens ts y)"

definition parse_json :: "string \<Rightarrow> json option" where
  "parse_json s =
     (case lex s of
        None \<Rightarrow> None
      | Some ts \<Rightarrow> (case run_tokens ts ([], SVal) of Some ([], SDone v) \<Rightarrow> Some v | _ \<Rightarrow> None))"

section \<open>What is written can be read\<close>

text \<open>A value with its strings made valid, its depth, and well-formed numbers.\<close>

primrec json_norm :: "json \<Rightarrow> json" where
  "json_norm JNull = JNull"
| "json_norm (JBool b) = JBool b"
| "json_norm (JNum s) = JNum s"
| "json_norm (JStr s) = JStr (to_valid s)"
| "json_norm (JArr vs) = JArr (map json_norm vs)"
| "json_norm (JObj ms) = JObj (map (\<lambda>(k, v). (to_valid k, v)) (map (map_prod id json_norm) ms))"

primrec jdepth :: "json \<Rightarrow> nat" where
  "jdepth JNull = 0"
| "jdepth (JBool b) = 0"
| "jdepth (JNum s) = 0"
| "jdepth (JStr s) = 0"
| "jdepth (JArr vs) = Suc (foldr max (map jdepth vs) 0)"
| "jdepth (JObj ms) = Suc (foldr max (map snd (map (map_prod id jdepth) ms)) 0)"

subsection \<open>Tokens\<close>

fun is_num :: "token \<Rightarrow> bool" where
  "is_num (TNum s) = True"
| "is_num _ = False"

fun tok_norm :: "token \<Rightarrow> token" where
  "tok_norm (TStr s) = TStr (to_valid s)"
| "tok_norm t = t"

text \<open>A number ends where its text cannot go on.\<close>

definition num_end :: "string \<Rightarrow> bool" where
  "num_end r \<longleftrightarrow> r = [] \<or> \<not> is_digit (hd r) \<and> hd r \<notin> {CHR ''.'', CHR ''e'', CHR ''E''}"

text \<open>The text of a number: the lexer takes all of it, and no more.\<close>

definition num_ok :: "string \<Rightarrow> bool" where
  "num_ok s \<longleftrightarrow> s \<noteq> [] \<and> (hd s = CHR ''-'' \<or> is_digit (hd s)) \<and> (\<forall>r. num_end r \<longrightarrow> lex_num (s @ r) = Some (s, r))"

definition nums_ok :: "token list \<Rightarrow> bool" where
  "nums_ok ts \<longleftrightarrow> (\<forall>s. TNum s \<in> set ts \<longrightarrow> num_ok s)"

lemma show_nat_is_digit: "c \<in> set (show_nat n) \<Longrightarrow> is_digit c"
  using show_nat_chars by (auto simp: is_digit_def)

lemma digits1_show: "num_end r \<Longrightarrow> digits1 (show_nat n @ r) = Some (show_nat n, r)"
  using show_nat_is_digit [of _ n] by (cases r) (auto simp: digits1_def num_end_def takeWhile_append2 dropWhile_append2 takeWhile_eq_all_conv [THEN iffD2] Let_def)

lemma num_int_show: "num_end r \<Longrightarrow> num_int (show_nat n @ r) = Some (show_nat n, r)"
proof (cases "n = 0")
  case False
  assume "num_end r"
  obtain c cs where c: "show_nat n = c # cs" by (cases "show_nat n") simp_all
  with show_nat_hd [of n] False have "c \<noteq> CHR ''0''" by auto
  with digits1_show [OF \<open>num_end r\<close>, of n] show ?thesis by (simp add: num_int_def c)
qed (simp add: num_int_def show_nat_0)

lemma lex_num_show: "num_end r \<Longrightarrow> lex_num (show_nat n @ r) = Some (show_nat n, r)"
proof -
  assume r: "num_end r"
  obtain c cs where c: "show_nat n = c # cs" by (cases "show_nat n") simp_all
  with show_nat_is_digit [of c n] have "c \<noteq> CHR ''-''" by (auto simp: is_digit_def)
  then have "lex_num (show_nat n @ r) = num_abs (show_nat n @ r)" by (simp add: lex_num_def c)
  also have "\<dots> = Some (show_nat n, r)"
    unfolding num_abs_def num_int_show [OF r] using r by (cases r) (simp_all add: num_frac_def num_exp_def num_end_def)
  finally show ?thesis .
qed

lemma num_ok_show [simp]: "num_ok (show_nat n)"
  using show_nat_is_digit [of "hd (show_nat n)" n] by (simp add: num_ok_def lex_num_show)

lemma lex_tok_text:
  assumes "\<And>s. t = TNum s \<Longrightarrow> num_ok s \<and> num_end r"
  shows "lex_tok (tok_text t @ r) = Some (tok_norm t, r)" and "\<not> is_ws (hd (tok_text t @ r))" and "tok_text t \<noteq> []"
proof -
  have num: "lex_tok (s @ r) = Some (TNum s, r) \<and> \<not> is_ws (hd (s @ r)) \<and> s \<noteq> []" if n: "num_ok s" "num_end r" for s
  proof -
    obtain c cs where s: "s = c # cs" using n(1) by (cases s) (simp_all add: num_ok_def)
    with n have c: "c = CHR ''-'' \<or> is_digit c" and l: "lex_num (s @ r) = Some (s, r)" by (simp_all add: num_ok_def)
    from c have "punct c = None" "c \<noteq> quote" by (auto simp: punct_def is_digit_def)
    with l c show ?thesis by (auto simp: lex_tok_def s is_ws_def is_digit_def)
  qed
  show "lex_tok (tok_text t @ r) = Some (tok_norm t, r)"
    using assms num by (cases t) (auto simp: lex_tok_def punct_def un_q_chars lex_word_def is_digit_def)
  show "\<not> is_ws (hd (tok_text t @ r))"
  proof (cases t)
    case (TNum s)
    with assms have "num_ok s" "num_end r" by simp_all
    from num [OF this] show ?thesis unfolding TNum tok_text.simps by blast
  qed (simp_all add: is_ws_def)
  show "tok_text t \<noteq> []" using assms num by (cases t) auto
qed

lemma num_end_text: "\<not> is_num t \<Longrightarrow> num_end (tok_text t @ r)"
  by (cases t) (auto simp: num_end_def is_digit_def)

definition apart :: "token \<Rightarrow> token \<Rightarrow> bool" where
  "apart t u \<longleftrightarrow> \<not> (is_num t \<and> is_num u)"

lemma lex_tokens: "successively apart ts \<Longrightarrow> nums_ok ts \<Longrightarrow> lex (concat (map tok_text ts)) = Some (map tok_norm ts)"
proof (induction ts)
  case Nil
  then show ?case by (simp add: lex.simps)
next
  case (Cons t ts)
  let ?r = "concat (map tok_text ts)"
  have r: "num_end ?r" if "is_num t"
  proof (cases ts)
    case (Cons u us)
    with that Cons.prems(1) have "\<not> is_num u" by (simp add: apart_def)
    from num_end_text [OF this] show ?thesis by (simp add: Cons)
  qed (simp add: num_end_def)
  have "t = TNum s \<Longrightarrow> num_ok s \<and> num_end ?r" for s
    using Cons.prems(2) r by (auto simp: nums_ok_def)
  note tok = lex_tok_text [OF this]
  have "lex ?r = Some (map tok_norm ts)"
    using Cons by (auto simp: nums_ok_def successively_Cons)
  with tok(1-3) show ?case by (subst lex.simps) simp
qed

subsection \<open>Values\<close>

lemma toks_nonempty: "toks v \<noteq> []"
  by (cases v) simp_all

lemma successively_commas: "(\<And>ts. ts \<in> set tss \<Longrightarrow> ts \<noteq> [] \<and> successively apart ts) \<Longrightarrow> successively apart (commas tss)"
  by (induction tss rule: commas.induct) (auto simp: successively_append_iff successively_Cons apart_def)

lemma successively_toks: "successively apart (toks v)"
proof (induction v)
  case (JArr vs)
  then have "successively apart (commas (map toks vs))" by (intro successively_commas) (auto simp: toks_nonempty)
  then show ?case by (auto simp: successively_append_iff successively_Cons apart_def)
next
  case (JObj ms)
  then have "successively apart (commas (map (\<lambda>(k, ts). TStr k # TColon # ts) (map (map_prod id toks) ms)))"
    by (intro successively_commas) (fastforce simp: successively_Cons apart_def)
  then show ?case by (auto simp: successively_append_iff successively_Cons apart_def)
qed simp_all

lemma commas_map: "map f (commas tss) = commas (map (map f) tss)" if "f TComma = TComma"
  using that by (induction tss rule: commas.induct) simp_all

lemma toks_norm: "map tok_norm (toks v) = toks (json_norm v)"
proof (induction v)
  case (JArr vs)
  then show ?case by (simp add: commas_map cong: map_cong)
next
  case (JObj ms)
  then show ?case by (fastforce simp: commas_map intro!: arg_cong [of _ _ commas] map_cong)
qed simp_all

text \<open>The machine consumes the tokens of a value wherever a value may come.\<close>

lemma run_tokens_append:
  "run_tokens (ts @ us) x = (case run_tokens ts x of None \<Rightarrow> None | Some y \<Rightarrow> run_tokens us y)"
  by (induction ts x rule: run_tokens.induct) (auto split: option.splits)

lemma foldr_max_le: "foldr max ns (0 :: nat) \<le> k \<longleftrightarrow> (\<forall>n \<in> set ns. n \<le> k)"
  by (induction ns) auto

lemma depth_simps [simp]:
  "depth (FArr vs # st) = Suc (depth st)" "depth (FObj ms # st) = Suc (depth st)" "depth (FKey k # st) = depth st"
  by (simp_all add: depth_def)

abbreviation accepts :: "frame list \<Rightarrow> json \<Rightarrow> bool" where
  "accepts st v \<equiv> run_tokens (toks v) (st, SVal) = Some (value_done v st)"

text \<open>After the bracket of an array a value may come just as after a comma.\<close>

lemma pstep_arr0: "run_tokens (toks v @ us) (st, SArr0) = run_tokens (toks v @ us) (st, SVal)"
  by (cases v) (simp_all add: pstep_def)

lemma accepts_elements:
  assumes "\<And>xs v. v \<in> set vs \<Longrightarrow> accepts (FArr xs # st) v" and "vs \<noteq> []"
  shows "run_tokens (commas (map toks vs)) (FArr xs # st, SVal) = Some (FArr (xs @ vs) # st, SArrNext)"
  using assms
proof (induction vs arbitrary: xs rule: induct_list012)
  case (3 v w vs)
  have "run_tokens (commas (map toks (w # vs))) (FArr (xs @ [v]) # st, SVal) = Some (FArr ((xs @ [v]) @ w # vs) # st, SArrNext)"
    by (rule "3.IH"(2)) (use "3.prems"(1) in auto)
  with "3.prems"(1) [of v xs] show ?case by (simp add: run_tokens_append pstep_def)
qed simp_all

lemma accepts_array:
  assumes "\<And>xs v. v \<in> set vs \<Longrightarrow> accepts (FArr xs # st) v" and "depth st < maxNestingDepth"
  shows "accepts st (JArr vs)"
proof (cases vs)
  case Nil
  with assms(2) show ?thesis by (simp add: pstep_def open_frame_def)
next
  case (Cons v vs')
  have el: "run_tokens (commas (map toks vs)) (FArr [] # st, SVal) = Some (FArr vs # st, SArrNext)"
    using accepts_elements [of vs st "[]"] assms(1) Cons by simp
  obtain us where us: "commas (map toks vs) @ [TRBrack] = toks v @ us"
    unfolding Cons by (cases vs') simp_all
  have "run_tokens (toks v @ us) (FArr [] # st, SVal) = Some (value_done (JArr vs) st)"
    unfolding us [symmetric] by (simp add: run_tokens_append el pstep_def)
  with assms(2) us show ?thesis by (simp add: pstep_def open_frame_def pstep_arr0)
qed

abbreviation member_toks :: "string \<times> json \<Rightarrow> token list" where
  "member_toks \<equiv> \<lambda>(k, v). TStr k # TColon # toks v"

lemma accepts_members:
  assumes "\<And>k v xs. (k, v) \<in> set ms \<Longrightarrow> accepts (FKey k # FObj xs # st) v" and "ms \<noteq> []"
  shows "run_tokens (commas (map member_toks ms)) (FObj xs # st, SKey) = Some (FObj (xs @ ms) # st, SObjNext)"
  using assms
proof (induction ms arbitrary: xs rule: induct_list012)
  case (2 m)
  obtain k v where m: "m = (k, v)" by fastforce
  from "2.prems"(1) [of k v xs] show ?case by (simp add: m pstep_def)
next
  case (3 m m' ms)
  obtain k v where m: "m = (k, v)" by fastforce
  have "run_tokens (commas (map member_toks (m' # ms))) (FObj (xs @ [m]) # st, SKey) =
      Some (FObj ((xs @ [m]) @ m' # ms) # st, SObjNext)"
    by (rule "3.IH"(2)) (use "3.prems"(1) in auto)
  with "3.prems"(1) [of k v xs] show ?case by (simp add: m run_tokens_append pstep_def)
qed simp

lemma accepts_object:
  assumes "\<And>k v xs. (k, v) \<in> set ms \<Longrightarrow> accepts (FKey k # FObj xs # st) v" and "depth st < maxNestingDepth"
  shows "accepts st (JObj ms)"
proof -
  have toks: "toks (JObj ms) = TLBrace # commas (map member_toks ms) @ [TRBrace]"
    by (simp add: comp_def case_prod_unfold)
  show ?thesis
  proof (cases ms)
    case Nil
    with assms(2) show ?thesis by (simp add: pstep_def open_frame_def)
  next
    case (Cons m ms')
    obtain k v where m: "m = (k, v)" by fastforce
    obtain us where us: "commas (map member_toks ms) @ [TRBrace] = TStr k # us"
      unfolding Cons m by (cases ms') simp_all
    have "run_tokens (commas (map member_toks ms)) (FObj [] # st, SKey) = Some (FObj ms # st, SObjNext)"
      using accepts_members [of ms st "[]"] assms(1) Cons by simp
    then have "run_tokens (TStr k # us) (FObj [] # st, SKey) = Some (value_done (JObj ms) st)"
      unfolding us [symmetric] by (simp add: run_tokens_append pstep_def)
    then show ?thesis unfolding toks us using assms(2) by (simp add: pstep_def open_frame_def us)
  qed
qed

lemma accepts_value: "depth st + jdepth v \<le> maxNestingDepth \<Longrightarrow> accepts st v"
proof (induction v arbitrary: st)
  case (JArr vs)
  have "jdepth v \<le> foldr max (map jdepth vs) 0" if "v \<in> set vs" for v
    using that foldr_max_le [of "map jdepth vs" "foldr max (map jdepth vs) 0"] by simp
  with JArr show ?case by (intro accepts_array) (fastforce simp del: value_done.simps)+
next
  case (JObj ms)
  let ?d = "foldr max (map snd (map (map_prod id jdepth) ms)) 0"
  have d: "jdepth v \<le> ?d" if "(k, v) \<in> set ms" for k v
    using that foldr_max_le [of "map snd (map (map_prod id jdepth) ms)" ?d] by fastforce
  show ?case
  proof (rule accepts_object)
    show "accepts (FKey k # FObj xs # st) v" if "(k, v) \<in> set ms" for k v xs
      by (rule JObj.IH [OF that]) (use JObj.prems d [OF that] in simp_all)
    show "depth st < maxNestingDepth" using JObj.prems by simp
  qed
qed (simp_all add: pstep_def)

text \<open>The round trip of JSON text.\<close>

lemma jdepth_norm [simp]: "jdepth (json_norm v) = jdepth v"
proof (induction v)
  case (JArr vs)
  then show ?case by (simp cong: map_cong)
next
  case (JObj ms)
  then show ?case by (fastforce intro!: arg_cong [of _ _ "\<lambda>ns. foldr max ns 0"] map_cong)
qed simp_all

lemma parse_print:
  assumes "nums_ok (toks v)" and "jdepth v \<le> maxNestingDepth"
  shows "parse_json (print_json v) = Some (json_norm v)"
proof -
  have "lex (print_json v) = Some (toks (json_norm v))"
    unfolding print_json_def toks_norm [symmetric] by (rule lex_tokens [OF successively_toks assms(1)])
  with accepts_value [of "[]" "json_norm v"] assms(2) show ?thesis by (simp add: parse_json_def depth_def)
qed

end
