(* ===== verification/Go_Json_Codec.thy ===== *)
theory Go_Json_Codec
  imports Go_Json
begin

text \<open>
  How \<open>encoding/json\<close> maps Go data to JSON values and back, for the types the program sends: unsigned
  integers, booleans, strings, byte slices (base64), slices, maps with string keys, and structs.
  A decoder takes the value and the variable it decodes into; \<open>None\<close> is an error. Unknown
  members are skipped, a missing one leaves its field as it was, keys match fields exactly or up to
  case, \<open>null\<close> leaves numbers, booleans, strings and structs alone and empties slices and maps.
\<close>

section \<open>Base64\<close>

definition b64_char :: "nat \<Rightarrow> char" where
  "b64_char k = ''ABCDEFGHIJKLMNOPQRSTUVWXYZabcdefghijklmnopqrstuvwxyz0123456789+/'' ! k"

definition b64_val :: "char \<Rightarrow> nat option" where
  "b64_val c =
     (if 65 \<le> byte c \<and> byte c \<le> 90 then Some (byte c - 65)
      else if 97 \<le> byte c \<and> byte c \<le> 122 then Some (byte c - 71)
      else if 48 \<le> byte c \<and> byte c \<le> 57 then Some (byte c + 4)
      else if c = CHR ''+'' then Some 62
      else if c = CHR ''/'' then Some 63
      else None)"

abbreviation pad :: char where "pad \<equiv> CHR ''=''"

fun b64_enc :: "nat list \<Rightarrow> string" where
  "b64_enc [] = []"
| "b64_enc [a] = [b64_char (a div 4), b64_char (a mod 4 * 16), pad, pad]"
| "b64_enc [a, b] = [b64_char (a div 4), b64_char (a mod 4 * 16 + b div 16), b64_char (b mod 16 * 4), pad]"
| "b64_enc (a # b # c # r) =
     b64_char (a div 4) # b64_char (a mod 4 * 16 + b div 16) # b64_char (b mod 16 * 4 + c div 64) #
     b64_char (c mod 64) # b64_enc r"

fun b64_dec :: "string \<Rightarrow> nat list option" where
  "b64_dec [] = Some []"
| "b64_dec (a # b # c # d # r) =
     (case (b64_val a, b64_val b) of
        (Some w, Some x) \<Rightarrow>
          (case b64_val c of
             None \<Rightarrow> if c = pad \<and> d = pad \<and> r = [] then Some [w * 4 + x div 16] else None
           | Some y \<Rightarrow>
               (case b64_val d of
                  None \<Rightarrow> if d = pad \<and> r = [] then Some [w * 4 + x div 16, x mod 16 * 16 + y div 4] else None
                | Some z \<Rightarrow>
                    map_option (\<lambda>bs. (w * 4 + x div 16) # (x mod 16 * 16 + y div 4) # (y mod 4 * 64 + z) # bs) (b64_dec r)))
      | _ \<Rightarrow> None)"
| "b64_dec _ = None"

text \<open>Line breaks are skipped.\<close>

definition base64_encode :: "bytes \<Rightarrow> string" where
  "base64_encode bs = b64_enc (map unat bs)"

definition base64_decode :: "string \<Rightarrow> bytes option" where
  "base64_decode s = map_option (map of_nat) (b64_dec (filter (\<lambda>c. byte c \<notin> {10, 13}) s))"

lemma b64_val_char: "k < 64 \<Longrightarrow> b64_val (b64_char k) = Some k \<and> byte (b64_char k) < 128 \<and> byte (b64_char k) \<notin> {10, 13}"
proof -
  assume "k < 64"
  then have "k \<in> set [0..<64]" by simp
  moreover have "\<forall>k \<in> set [0..<64]. b64_val (b64_char k) = Some k \<and> byte (b64_char k) < 128 \<and> byte (b64_char k) \<notin> {10, 13}"
    by code_simp
  ultimately show ?thesis by blast
qed

lemma b64_pad: "b64_val pad = None"
  by (simp add: b64_val_def)

lemma b64_indices:
  fixes a b c :: nat
  assumes "a < 256" and "b < 256" and "c < 256"
  shows "a div 4 < 64" "a mod 4 * 16 < 64" "a mod 4 * 16 + b div 16 < 64" "b mod 16 * 4 < 64" "b mod 16 * 4 + c div 64 < 64" "c mod 64 < 64"
    "b div 16 < 16" "c div 64 < 4"
proof -
  show d: "a div 4 < 64" "b div 16 < 16" "c div 64 < 4" using assms by (simp_all add: div_less_iff_less_mult)
  have m: "a mod 4 \<le> 3" "b mod 16 \<le> 15" by (simp_all add: less_Suc_eq_le [symmetric])
  show "a mod 4 * 16 < 64" "a mod 4 * 16 + b div 16 < 64" "b mod 16 * 4 < 64" "b mod 16 * 4 + c div 64 < 64" "c mod 64 < 64"
    using m d by linarith+
qed

lemma b64_dec_enc: "\<forall>b \<in> set bs. b < 256 \<Longrightarrow> b64_dec (b64_enc bs) = Some bs"
proof (induction bs rule: b64_enc.induct)
  case (2 a)
  then show ?case using b64_indices [of a 0 0] by (simp add: b64_val_char b64_pad)
next
  case (3 a b)
  then show ?case using b64_indices [of a b 0] by (simp add: b64_val_char b64_pad)
next
  case (4 a b c r)
  then show ?case using b64_indices [of a b c] by (simp add: b64_val_char)
qed simp

lemma unat_u8_256: "unat (x :: u8) < 256"
  using unsigned_less [of x, where 'a = nat] by simp

lemma b64_enc_chars: "\<forall>b \<in> set bs. b < 256 \<Longrightarrow> c \<in> set (b64_enc bs) \<Longrightarrow> byte c < 128 \<and> byte c \<notin> {10, 13}"
proof (induction bs rule: b64_enc.induct)
  case (2 a)
  then show ?case using b64_indices [of a 0 0] b64_val_char by auto
next
  case (3 a b)
  then show ?case using b64_indices [of a b 0] b64_val_char by auto
next
  case (4 a b c' r)
  then show ?case using b64_indices [of a b c'] b64_val_char by auto
qed simp

lemma base64_chars: "c \<in> set (base64_encode bs) \<Longrightarrow> byte c < 128 \<and> byte c \<notin> {10, 13}"
proof -
  have "\<forall>b \<in> set (map unat bs). b < 256" by (simp add: unat_u8_256)
  then show "c \<in> set (base64_encode bs) \<Longrightarrow> byte c < 128 \<and> byte c \<notin> {10, 13}"
    unfolding base64_encode_def by (rule b64_enc_chars)
qed

lemma base64_roundtrip: "base64_decode (base64_encode bs) = Some bs"
proof -
  have "\<forall>b \<in> set (map unat bs). b < 256" by (simp add: unat_u8_256)
  from b64_dec_enc [OF this] have "b64_dec (base64_encode bs) = Some (map unat bs)" by (simp add: base64_encode_def)
  moreover have "filter (\<lambda>c. byte c \<notin> {10, 13}) (base64_encode bs) = base64_encode bs"
    using base64_chars by (intro filter_True) blast
  ultimately show ?thesis unfolding base64_decode_def by (simp add: comp_def)
qed

section \<open>Encoders\<close>

definition json_uint :: "'w::len word \<Rightarrow> json" where
  "json_uint x = JNum (show_nat (unat x))"

definition json_bytes :: "bytes \<Rightarrow> json" where
  "json_bytes bs = JStr (base64_encode bs)"

text \<open>Maps are written in the order of their keys.\<close>

definition json_map :: "('v \<Rightarrow> json) \<Rightarrow> (string, 'v) gomap \<Rightarrow> json" where
  "json_map f m = JObj (map (\<lambda>(k, v). (k, f v)) (sort_key fst m))"

definition json_marshal :: "json \<Rightarrow> bytes" where
  "json_marshal v = string_bytes (print_json v)"

section \<open>Decoders\<close>

type_synonym 'a json_decoder = "json \<Rightarrow> 'a \<Rightarrow> 'a option"

fun dec_uint :: "'w::len word json_decoder" where
  "dec_uint (JNum s) old =
     (case ParseUint 64 s of
        Inl _ \<Rightarrow> None
      | Inr n \<Rightarrow> if n < 2 ^ LENGTH('w) then Some (of_nat n) else None)"
| "dec_uint JNull old = Some old"
| "dec_uint _ old = None"

fun dec_bool :: "bool json_decoder" where
  "dec_bool (JBool b) old = Some b"
| "dec_bool JNull old = Some old"
| "dec_bool _ old = None"

fun dec_string :: "string json_decoder" where
  "dec_string (JStr s) old = Some s"
| "dec_string JNull old = Some old"
| "dec_string _ old = None"

fun dec_slice :: "'a json_decoder \<Rightarrow> 'a \<Rightarrow> 'a list json_decoder" where
  "dec_slice d zero (JArr vs) old = those (map (\<lambda>v. d v zero) vs)"
| "dec_slice d zero JNull old = Some []"
| "dec_slice d zero _ old = None"

fun dec_bytes :: "bytes json_decoder" where
  "dec_bytes (JStr s) old = base64_decode s"
| "dec_bytes v old = dec_slice dec_uint 0 v old"

definition put_member :: "'v json_decoder \<Rightarrow> 'v \<Rightarrow> (string, 'v) gomap option \<Rightarrow> string \<times> json \<Rightarrow> (string, 'v) gomap option" where
  "put_member d zero acc kv =
     (case acc of None \<Rightarrow> None | Some m \<Rightarrow> map_option (\<lambda>x. gm_set (fst kv) x m) (d (snd kv) zero))"

fun dec_map :: "'v json_decoder \<Rightarrow> 'v \<Rightarrow> (string, 'v) gomap json_decoder" where
  "dec_map d zero (JObj ms) old = foldl (put_member d zero) (Some old) ms"
| "dec_map d zero JNull old = Some []"
| "dec_map d zero _ old = None"

text \<open>
  Field names are compared exactly first and then up to case; the Kelvin sign and the long s are the
  only letters outside ASCII that fold to one inside.
\<close>

definition up :: "char \<Rightarrow> char" where
  "up c = (if 97 \<le> byte c \<and> byte c \<le> 122 then char_of (byte c - 32) else c)"

function fold_name :: "string \<Rightarrow> string" where
  "fold_name [] = []"
| "fold_name (c # cs) =
     (if take 3 (c # cs) = chars [226, 132, 170] then CHR ''K'' # fold_name (drop 2 cs)
      else if take 2 (c # cs) = chars [197, 191] then CHR ''S'' # fold_name (drop 1 cs)
      else up c # fold_name cs)"
  by pat_completeness auto
termination by (relation "measure length") auto

lemma fold_name_ascii: "\<forall>c \<in> set k. byte c < 128 \<Longrightarrow> fold_name k = map up k"
proof (induction k)
  case (Cons c k)
  then have "c \<noteq> char_of (226 :: nat)" "c \<noteq> char_of (197 :: nat)" by auto
  with Cons show ?case by (simp add: chars_def)
qed simp

type_synonym 'r fields = "(string \<times> 'r json_decoder) list"

definition find_field :: "'r fields \<Rightarrow> string \<Rightarrow> 'r json_decoder option" where
  "find_field fs k =
     (case map_of fs k of
        Some d \<Rightarrow> Some d
      | None \<Rightarrow> map_of (map (\<lambda>(n, d). (fold_name n, d)) fs) (fold_name k))"

definition put_field :: "'r fields \<Rightarrow> 'r option \<Rightarrow> string \<times> json \<Rightarrow> 'r option" where
  "put_field fs acc kv =
     (case acc of
        None \<Rightarrow> None
      | Some r \<Rightarrow> (case find_field fs (fst kv) of None \<Rightarrow> Some r | Some d \<Rightarrow> d (snd kv) r))"

fun dec_struct :: "'r fields \<Rightarrow> 'r json_decoder" where
  "dec_struct fs (JObj ms) r = foldl (put_field fs) (Some r) ms"
| "dec_struct fs JNull r = Some r"
| "dec_struct fs _ r = None"

definition fld :: "'a json_decoder \<Rightarrow> ('r \<Rightarrow> 'a) \<Rightarrow> ('a \<Rightarrow> 'r \<Rightarrow> 'r) \<Rightarrow> 'r json_decoder" where
  "fld d get put v r = map_option (\<lambda>x. put x r) (d v (get r))"

definition json_unmarshal :: "'a json_decoder \<Rightarrow> 'a \<Rightarrow> bytes \<Rightarrow> 'a option" where
  "json_unmarshal d zero bs = (case parse_json (bytes_string bs) of None \<Rightarrow> None | Some v \<Rightarrow> d v zero)"

section \<open>Round trips\<close>

lemma set_commas: "TNum s \<in> set (commas tss) \<longleftrightarrow> (\<exists>ts \<in> set tss. TNum s \<in> set ts)"
  by (induction tss rule: commas.induct) auto

text \<open>Values that survive being written and read, up to the replacement of invalid UTF-8.\<close>

definition json_writes :: "nat \<Rightarrow> json \<Rightarrow> bool" where
  "json_writes d v \<longleftrightarrow> nums_ok (toks v) \<and> jdepth v \<le> d"

lemma json_writes_simps [simp]:
  "json_writes d JNull" "json_writes d (JBool b)" "json_writes d (JStr s)" "json_writes d (json_uint x)" "json_writes d (json_bytes bs)"
  by (simp_all add: json_writes_def nums_ok_def json_uint_def json_bytes_def)

lemma json_writes_arr: "(\<And>v. v \<in> set vs \<Longrightarrow> json_writes d v) \<Longrightarrow> json_writes (Suc d) (JArr vs)"
  by (auto simp: json_writes_def nums_ok_def set_commas foldr_max_le)

lemma json_writes_obj: "(\<And>k v. (k, v) \<in> set ms \<Longrightarrow> json_writes d v) \<Longrightarrow> json_writes (Suc d) (JObj ms)"
  by (fastforce simp: json_writes_def nums_ok_def set_commas foldr_max_le)

lemma json_unmarshal_marshal:
  assumes "json_writes d v" and "d \<le> 10000"
  shows "json_unmarshal dec zero (json_marshal v) = dec (json_norm v) zero"
  using assms parse_print [of v] by (simp add: json_unmarshal_def json_marshal_def json_writes_def maxNestingDepth_def)

lemma json_norm_uint [simp]: "json_norm (json_uint x) = json_uint x"
  by (simp add: json_uint_def)

lemma json_norm_bytes [simp]: "json_norm (json_bytes bs) = json_bytes bs"
proof -
  have "to_valid (base64_encode bs) = base64_encode bs"
    using base64_chars by (intro to_valid_id valid_ascii) blast
  then show ?thesis by (simp add: json_bytes_def)
qed

lemma dec_uint_json [simp]:
  assumes "LENGTH('w::len) \<le> 64"
  shows "dec_uint (json_uint (x :: 'w word)) old = Some x"
proof -
  have x: "unat x < 2 ^ LENGTH('w)" by (rule unsigned_less)
  also have "(2 :: nat) ^ LENGTH('w) \<le> 2 ^ 64" using assms by (rule power_increasing) simp
  finally have "ParseUint 64 (show_nat (unat x)) = Inr (unat x)" by (rule ParseUint_show)
  with x show ?thesis by (simp add: json_uint_def)
qed

lemma dec_bytes_json [simp]: "dec_bytes (json_bytes bs) old = Some bs"
  by (simp add: json_bytes_def base64_roundtrip)

lemma those_map_Some: "(\<And>x. x \<in> set xs \<Longrightarrow> f x = Some (g x)) \<Longrightarrow> those (map f xs) = Some (map g xs)"
  by (induction xs) simp_all

lemma foldl_put_member:
  assumes "\<And>k v. (k, v) \<in> set m \<Longrightarrow> d (f v) zero = Some v"
  shows "foldl (put_member d zero) (Some old) (map (\<lambda>(k, v). (k, f v)) m) = Some (foldl (\<lambda>m (k, v). gm_set k v m) old m)"
  using assms
proof (induction m arbitrary: old)
  case (Cons kv m)
  obtain k v where kv: "kv = (k, v)" by fastforce
  with Cons.prems [of k v] have "put_member d zero (Some old) (k, f v) = Some (gm_set k v old)"
    by (simp add: put_member_def)
  moreover have "foldl (put_member d zero) (Some (gm_set k v old)) (map (\<lambda>(k, v). (k, f v)) m) =
      Some (foldl (\<lambda>m (k, v). gm_set k v m) (gm_set k v old) m)"
    by (rule Cons.IH) (use Cons.prems in auto)
  ultimately show ?case by (simp add: kv)
qed simp

lemma distinct_sort_key: "gm_ok m \<Longrightarrow> gm_ok (sort_key fst m)"
  by (metis distinct_map distinct_sort set_sort)

lemma map_of_sort_key: "gm_ok m \<Longrightarrow> map_of (sort_key fst m) = map_of m"
  using distinct_sort_key [of m] by (intro map_of_inject_set [THEN iffD2]) simp_all

lemma dec_map_json:
  assumes "gm_ok m" and "\<And>k v. (k, v) \<in> set m \<Longrightarrow> valid_utf8 k \<and> d (json_norm (f v)) zero = Some v"
  shows "dec_map d zero (json_norm (json_map f m)) [] = Some (sort_key fst m)"
proof -
  have "json_norm (json_map f m) = JObj (map (\<lambda>(k, v). (k, json_norm (f v))) (sort_key fst m))"
    using assms(2) by (auto simp: json_map_def to_valid_id)
  then have "dec_map d zero (json_norm (json_map f m)) [] = Some (foldl (\<lambda>m (k, v). gm_set k v m) [] (sort_key fst m))"
    using foldl_put_member [of "sort_key fst m" d "\<lambda>v. json_norm (f v)" zero "[]"] assms(2) by simp
  also have "\<dots> = Some (sort_key fst m)"
    using foldl_gm_set [of "sort_key fst m" "[]"] distinct_sort_key [OF assms(1)] by simp
  finally show ?thesis .
qed

lemma json_writes_map: "(\<And>k v. (k, v) \<in> set m \<Longrightarrow> json_writes d (f v)) \<Longrightarrow> json_writes (Suc d) (json_map f m)"
  unfolding json_map_def by (intro json_writes_obj) auto

text \<open>Decoding the members of an object one by one.\<close>

lemma put_field_exact [simp]: "map_of fs k = Some d \<Longrightarrow> put_field fs (Some r) (k, v) = d v r"
  by (simp add: put_field_def find_field_def)

lemma fld_Some [simp]: "d v (get r) = Some x \<Longrightarrow> fld d get put v r = Some (put x r)"
  by (simp add: fld_def)

text \<open>Members in the order of the fields.\<close>

lemma dec_struct_in_order:
  assumes "distinct (map fst fs)" and "map fst ms = map fst fs"
  shows "dec_struct fs (JObj ms) r = foldl (\<lambda>acc (d, v). Option.bind acc (d v)) (Some r) (zip (map snd fs) (map snd ms))"
proof -
  have "foldl (put_field fs) acc ms' = foldl (\<lambda>acc (d, v). Option.bind acc (d v)) acc (zip (map snd gs) (map snd ms'))"
    if "set gs \<subseteq> set fs" "map fst ms' = map fst gs" for gs ms' acc
    using that
  proof (induction gs arbitrary: ms' acc)
    case (Cons g gs)
    obtain k d where g: "g = (k, d)" by fastforce
    with Cons.prems obtain v ms1 where ms: "ms' = (k, v) # ms1" "map fst ms1 = map fst gs" by (cases ms') auto
    have "map_of fs k = Some d" using assms(1) Cons.prems(1) g by simp
    then have "put_field fs acc (k, v) = Option.bind acc (d v)" by (cases acc) (simp_all add: put_field_def find_field_def)
    with Cons.IH [OF _ ms(2)] Cons.prems(1) show ?case by (simp add: ms(1) g)
  qed simp
  from this [OF subset_refl assms(2)] show ?thesis by simp
qed

lemma json_marshal_obj [simp]: "json_marshal (JObj ms) \<noteq> []"
  by (simp add: json_marshal_def print_json_def string_bytes_def)

lemma ascii_keys [simp]: "\<forall>c \<in> set k. byte c < 128 \<Longrightarrow> to_valid k = k"
  by (simp add: to_valid_id valid_ascii)

section \<open>The kind of a payload\<close>

text \<open>
  Two of the algorithms send payloads of several kinds, with the kind as the member \<open>k\<close> of each. It is
  decoded alone first; a full decoder checks it to be a byte and does not keep it, as the constructor
  of the payload stands for it.
\<close>

definition kind_field :: "'r json_decoder" where
  "kind_field v r = map_option (\<lambda>_. r) (dec_uint v (0 :: u8))"

definition dec_kind :: "u8 json_decoder" where
  "dec_kind = dec_struct [(''k'', dec_uint)]"

lemma kind_field_json [simp]: "kind_field (json_uint (k :: u8)) r = Some r"
  by (simp add: kind_field_def)

lemma skip_field [simp]: "find_field fs k = None \<Longrightarrow> put_field fs (Some r) (k, v) = Some r"
  by (simp add: put_field_def)

lemma find_kind: "length k \<noteq> 1 \<Longrightarrow> \<forall>c \<in> set k. byte c < 128 \<Longrightarrow> find_field [(''k'', d)] k = None"
  by (auto simp: find_field_def fold_name_ascii dest: arg_cong [of _ _ length])

end
