(* ===== verification/Gossip_Json.thy ===== *)
theory Gossip_Json
  imports Gossip Go_Json_Codec
begin

text \<open>
  The JSON payload of \<open>node/algorithm/gossip/gossip.go\<close>: an object with the member \<open>state\<close>, which maps
  keys to entries. Keys and values are Go strings and need not be UTF-8; what is not is replaced
  when it is written.
\<close>

section \<open>Encoding and decoding\<close>

definition json_Entry :: "Entry \<Rightarrow> json" where
  "json_Entry e = JObj [(''v'', JStr (Value e)), (''ver'', json_uint (Version e))]"

definition gossip_marshal :: "gossip_State \<Rightarrow> bytes option" where
  "gossip_marshal st = Some (json_marshal (JObj [(''state'', json_map json_Entry st)]))"

definition dec_Entry :: "Entry json_decoder" where
  "dec_Entry = dec_struct
     [(''v'', fld dec_string Value (\<lambda>x r. r\<lparr>Value := x\<rparr>)), (''ver'', fld dec_uint Version (\<lambda>x r. r\<lparr>Version := x\<rparr>))]"

definition zero_Entry :: Entry where
  "zero_Entry = \<lparr>Value = [], Version = 0\<rparr>"

definition dec_gossipPayload :: "gossip_State json_decoder" where
  "dec_gossipPayload = dec_struct [(''state'', dec_map dec_Entry zero_Entry)]"

definition gossip_unmarshal :: "bytes \<Rightarrow> gossip_State option" where
  "gossip_unmarshal = json_unmarshal dec_gossipPayload []"

section \<open>Round trip\<close>

definition state_utf8 :: "gossip_State \<Rightarrow> bool" where
  "state_utf8 st \<longleftrightarrow> (\<forall>(k, e) \<in> set st. valid_utf8 k \<and> valid_utf8 (Value e))"

lemma json_writes_state: "json_writes 3 (JObj [(''state'', json_map json_Entry st)])"
proof -
  have "json_writes 1 (json_Entry e)" for e
    unfolding json_Entry_def One_nat_def by (rule json_writes_obj) auto
  then have "json_writes 2 (json_map json_Entry st)" unfolding numeral_2_eq_2 by (intro json_writes_map) simp
  then show ?thesis unfolding numeral_3_eq_3 by (intro json_writes_obj) (auto simp: numeral_2_eq_2)
qed

lemma dec_Entry_json: "dec_Entry (json_norm (json_Entry e)) zero_Entry = Some (e\<lparr>Value := to_valid (Value e)\<rparr>)"
  by (simp add: json_Entry_def dec_Entry_def zero_Entry_def)

lemma gossip_unmarshal_marshal:
  "gossip_unmarshal (json_marshal (JObj [(''state'', json_map json_Entry st)])) =
     dec_map dec_Entry zero_Entry (json_norm (json_map json_Entry st)) []"
  unfolding gossip_unmarshal_def json_unmarshal_marshal [OF json_writes_state, simplified]
  by (simp add: dec_gossipPayload_def)

text \<open>A state in UTF-8 is received as it was sent, with its entries in the order of their keys.\<close>

lemma gossip_json_roundtrip:
  assumes "gm_ok st" and "state_utf8 st" and "gossip_marshal st = Some bs"
  shows "gossip_unmarshal bs = Some (sort_key fst st)"
proof -
  have "valid_utf8 k \<and> dec_Entry (json_norm (json_Entry e)) zero_Entry = Some e" if "(k, e) \<in> set st" for k e
    using that assms(2) by (auto simp: state_utf8_def dec_Entry_json to_valid_id)
  from dec_map_json [where d = dec_Entry and f = json_Entry and zero = zero_Entry, OF assms(1) this] assms(3) show ?thesis
    by (simp add: gossip_marshal_def flip: gossip_unmarshal_marshal)
qed

end
