(* ===== verification/Weaknet_Json.thy ===== *)
theory Weaknet_Json
  imports Weaknet Go_Json_Codec
begin

text \<open>
  The JSON payloads of \<open>node/algorithm/weaknet/weaknet.go\<close>: push-pull messages and acknowledgements.
  Values are byte slices and written in base64, keys are strings.
\<close>

section \<open>Encoding and decoding\<close>

definition json_StateEntry :: "StateEntry \<Rightarrow> json" where
  "json_StateEntry e = JObj [(''v'', json_bytes (se_Value e)), (''ver'', json_uint (se_Version e))]"

definition json_pushPull :: "pushPullPayload \<Rightarrow> json" where
  "json_pushPull pp =
     JObj [(''k'', json_uint kindPushPull), (''rep'', JBool (pp_IsReply pp)), (''pid'', json_uint (pp_PeerID pp)),
           (''delta'', json_map json_StateEntry (pp_Delta pp)), (''kv'', json_uint (pp_KnownVer pp))]"

definition dec_StateEntry :: "StateEntry json_decoder" where
  "dec_StateEntry = dec_struct
     [(''v'', fld dec_bytes se_Value (\<lambda>x r. r\<lparr>se_Value := x\<rparr>)), (''ver'', fld dec_uint se_Version (\<lambda>x r. r\<lparr>se_Version := x\<rparr>))]"

definition zero_StateEntry :: StateEntry where
  "zero_StateEntry = \<lparr>se_Value = [], se_Version = 0\<rparr>"

definition dec_pushPull :: "pushPullPayload json_decoder" where
  "dec_pushPull = dec_struct
     [(''k'', kind_field), (''rep'', fld dec_bool pp_IsReply (\<lambda>x r. r\<lparr>pp_IsReply := x\<rparr>)),
      (''pid'', fld dec_uint pp_PeerID (\<lambda>x r. r\<lparr>pp_PeerID := x\<rparr>)),
      (''delta'', fld (dec_map dec_StateEntry zero_StateEntry) pp_Delta (\<lambda>x r. r\<lparr>pp_Delta := x\<rparr>)),
      (''kv'', fld dec_uint pp_KnownVer (\<lambda>x r. r\<lparr>pp_KnownVer := x\<rparr>))]"

definition dec_ack :: "u32 json_decoder" where
  "dec_ack = dec_struct [(''k'', kind_field), (''seq'', dec_uint)]"

definition weaknet_JSON :: wn_json where
  "weaknet_JSON =
     \<lparr>wj_pushPull = (\<lambda>pp. Some (json_marshal (json_pushPull pp))),
      wj_kind = json_unmarshal dec_kind 0,
      wj_un_pushPull = json_unmarshal dec_pushPull \<lparr>pp_IsReply = False, pp_PeerID = 0, pp_Delta = [], pp_KnownVer = 0\<rparr>,
      wj_un_ack = json_unmarshal dec_ack 0\<rparr>"

section \<open>Round trip\<close>

definition keys_utf8 :: "wn_State \<Rightarrow> bool" where
  "keys_utf8 st \<longleftrightarrow> (\<forall>k \<in> fst ` set st. valid_utf8 k)"

lemma json_writes_pushPull: "json_writes 3 (json_pushPull pp)"
proof -
  have "json_writes 1 (json_StateEntry e)" for e
    unfolding json_StateEntry_def One_nat_def by (rule json_writes_obj) auto
  then have "json_writes 2 (json_map json_StateEntry st)" for st unfolding numeral_2_eq_2 by (intro json_writes_map) simp
  then show ?thesis
    unfolding numeral_3_eq_3 json_pushPull_def by (intro json_writes_obj) (auto simp: numeral_2_eq_2)
qed

lemma dec_StateEntry_json [simp]: "dec_StateEntry (json_norm (json_StateEntry e)) zero_StateEntry = Some e"
  by (simp add: json_StateEntry_def dec_StateEntry_def zero_StateEntry_def)

text \<open>A push-pull payload is received as it was sent, with its entries in the order of their keys.\<close>

lemma pushPull_json_roundtrip:
  assumes "gm_ok (pp_Delta pp)" and "keys_utf8 (pp_Delta pp)" and "wj_pushPull weaknet_JSON pp = Some bs"
  shows "bs \<noteq> [] \<and> wj_kind weaknet_JSON bs = Some kindPushPull \<and>
    wj_un_pushPull weaknet_JSON bs = Some (pp\<lparr>pp_Delta := sort_key fst (pp_Delta pp)\<rparr>)"
proof -
  have bs: "bs = json_marshal (json_pushPull pp)" using assms(3) by (simp add: weaknet_JSON_def)
  have delta: "dec_map dec_StateEntry zero_StateEntry (json_norm (json_map json_StateEntry (pp_Delta pp))) [] = Some (sort_key fst (pp_Delta pp))"
    using assms(2) by (intro dec_map_json [OF assms(1)]) (force simp: keys_utf8_def)
  have norm: "json_norm (json_pushPull pp) = JObj [(''k'', json_uint kindPushPull), (''rep'', JBool (pp_IsReply pp)),
      (''pid'', json_uint (pp_PeerID pp)), (''delta'', json_norm (json_map json_StateEntry (pp_Delta pp))), (''kv'', json_uint (pp_KnownVer pp))]"
    by (simp add: json_pushPull_def)
  have "dec_kind (json_norm (json_pushPull pp)) 0 = Some kindPushPull"
    unfolding norm by (simp add: dec_kind_def find_kind)
  moreover have "dec_pushPull (json_norm (json_pushPull pp)) \<lparr>pp_IsReply = False, pp_PeerID = 0, pp_Delta = [], pp_KnownVer = 0\<rparr> =
      Some (pp\<lparr>pp_Delta := sort_key fst (pp_Delta pp)\<rparr>)"
    unfolding norm by (simp add: dec_pushPull_def delta)
  ultimately show ?thesis
    by (simp add: bs weaknet_JSON_def json_unmarshal_marshal [OF json_writes_pushPull]) (simp add: json_pushPull_def)
qed

text \<open>An acknowledgement, should a peer send one.\<close>

lemma ack_json: "wj_kind weaknet_JSON (json_marshal (JObj [(''k'', json_uint kindAck), (''seq'', json_uint s)])) = Some kindAck \<and>
    wj_un_ack weaknet_JSON (json_marshal (JObj [(''k'', json_uint kindAck), (''seq'', json_uint s)])) = Some s"
proof -
  have w: "json_writes 1 (JObj [(''k'', json_uint kindAck), (''seq'', json_uint s)])"
    unfolding One_nat_def by (rule json_writes_obj) auto
  show ?thesis
    by (simp add: weaknet_JSON_def json_unmarshal_marshal [OF w] dec_kind_def dec_ack_def find_kind)
qed

section \<open>An exchange over the wire\<close>

text \<open>What a peer makes of the message that carries a push-pull payload.\<close>

lemma wn_OnMessage_pushPull:
  assumes "gm_ok (pp_Delta pp)" and "keys_utf8 (pp_Delta pp)" and "Payload m = json_marshal (json_pushPull pp)"
  shows "wn_OnMessage weaknet_JSON env m a = handlePushPull env (From m) (pp\<lparr>pp_Delta := sort_key fst (pp_Delta pp)\<rparr>) a"
proof -
  have "wj_pushPull weaknet_JSON pp = Some (Payload m)" by (simp add: weaknet_JSON_def assms(3))
  from pushPull_json_roundtrip [OF assms(1,2) this] show ?thesis by (simp add: wn_OnMessage_def)
qed

lemma keys_utf8_lookup: "keys_utf8 st \<longleftrightarrow> (\<forall>k. gm_lookup st k \<noteq> None \<longrightarrow> valid_utf8 k)"
  unfolding keys_utf8_def by (metis map_of_eq_None_iff)

lemma keys_utf8_filter: "keys_utf8 st \<Longrightarrow> keys_utf8 (filter P st)"
  by (auto simp: keys_utf8_def)

abbreviation wn_full :: "Weaknet \<Rightarrow> wn_State" where
  "wn_full a \<equiv> filter (\<lambda>(k, e). 0 < se_Version e) (wn_state a)"

text \<open>A received delta is as good as the state it was cut from.\<close>

lemma lookup_delta:
  assumes "gm_ok (wn_state a)" and "\<forall>k e. wn_Get k a = Some e \<longrightarrow> 0 < se_Version e"
  shows "gm_lookup (lww_merge se_Version m (sort_key fst (wn_full a))) k = newer se_Version (gm_lookup m k) (wn_Get k a)"
  using assms by (simp add: lookup_lww_merge distinct_sort_key map_of_sort_key lookup_positive wn_Get_def)

section \<open>Properties\<close>

text \<open>
  C16. One exchange synchronises two nodes, over the wire: in every reachable state, when node \<open>i\<close> pushes to
  node \<open>j\<close>, \<open>j\<close> takes the JSON message and answers it and \<open>i\<close> takes the answer (no handler fails and
  no text is refused), both hold the newest entry of each key, provided their versions are positive,
  equal versions hold equal values, and the keys are UTF-8.
\<close>

theorem weaknet_exchange_synchronises:
  assumes "wn_reach N net" and ok: "gm_ok (wn_state (N i))" "gm_ok (wn_state (N j))"
    and utf8: "keys_utf8 (wn_state (N i))" "keys_utf8 (wn_state (N j))"
    and pos: "\<forall>k e. wn_Get k (N i) = Some e \<or> wn_Get k (N j) = Some e \<longrightarrow> 0 < se_Version e"
    and agree: "\<forall>k e e'. wn_Get k (N i) = Some e \<and> wn_Get k (N j) = Some e' \<and> se_Version e = se_Version e' \<longrightarrow> e = e'"
  shows "\<exists>a1 pp m b1 pp' m' a2. sendPushPull env_i j False (N i) = (a1, [WPushPull j pp]) \<and>
    wn_render weaknet_JSON t [WPushPull j pp] = [ApiSend j m] \<and>
    wn_OnMessage weaknet_JSON env_j (m\<lparr>From := i\<rparr>) (N j) = Inr (b1, [WPushPull i pp']) \<and>
    wn_render weaknet_JSON t' [WPushPull i pp'] = [ApiSend i m'] \<and>
    wn_OnMessage weaknet_JSON env_i (m'\<lparr>From := j\<rparr>) a1 = Inr (a2, []) \<and>
    (\<forall>k. wn_Get k a2 = newer se_Version (wn_Get k (N i)) (wn_Get k (N j)) \<and> wn_Get k b1 = wn_Get k a2)"
proof -
  from reach_zero [OF assms(1)] have z: "all_zero (N i)" "all_zero (N j)" by blast+
  let ?msg = "\<lambda>t pp. zero_Message\<lparr>Type := TypeState, TTL := TTLState, Priority := PriorityState,
    Timestamp := UnixMilli t, Payload := json_marshal (json_pushPull pp)\<rparr>"
  have render: "wn_render weaknet_JSON t [WPushPull p pp] = [ApiSend p (?msg t pp)]" for t p pp by (simp add: weaknet_JSON_def)
  obtain a1 cs where s: "sendPushPull env_i j False (N i) = (a1, cs)" by fastforce
  let ?pp = "\<lparr>pp_IsReply = False, pp_PeerID = env_ID env_i, pp_Delta = wn_full (N i), pp_KnownVer = 0\<rparr>"
  let ?rp = "?pp\<lparr>pp_Delta := sort_key fst (pp_Delta ?pp)\<rparr>"
  from sendPushPull_zero [OF z(1) s] have a1: "all_zero a1" "wn_state a1 = wn_state (N i)" "cs = [WPushPull j ?pp]" by simp_all
  obtain b1 pp' where h: "handlePushPull env_j i ?rp (N j) = Inr (b1, [WPushPull i pp'])" and rep: "pp_IsReply pp'"
    using handlePushPull_request [of ?rp env_j i "N j"] by auto
  have r1: "wn_OnMessage weaknet_JSON env_j ((?msg t ?pp)\<lparr>From := i\<rparr>) (N j) = Inr (b1, [WPushPull i pp'])"
    using wn_OnMessage_pushPull [of ?pp "(?msg t ?pp)\<lparr>From := i\<rparr>"] ok(1) keys_utf8_filter [OF utf8(1)] h by simp
  from handlePushPull_zero [OF z(2) _ h]
  have b1: "wn_state b1 = lww_merge se_Version (wn_state (N j)) (sort_key fst (wn_full (N i)))" "full_delta (wn_state b1) pp'" by auto
  have get_b1: "wn_Get k b1 = newer se_Version (wn_Get k (N j)) (wn_Get k (N i))" for k
    using lookup_delta [OF ok(1), of "wn_state (N j)" k] pos by (simp add: wn_Get_def b1(1))
  have ok_b1: "gm_ok (wn_state b1)" unfolding b1(1) by (rule gm_ok_lww_merge [OF ok(2)])
  have pos_b1: "\<forall>k e. wn_Get k b1 = Some e \<longrightarrow> 0 < se_Version e"
    using pos by (auto simp: get_b1 newer_def split: option.splits if_splits)
  have "keys_utf8 (wn_state b1)"
    using utf8 get_b1 by (auto simp: keys_utf8_lookup wn_Get_def newer_def simp del: map_of_eq_Some_iff split: option.splits)
  then have pp': "gm_ok (pp_Delta pp')" "keys_utf8 (pp_Delta pp')" using ok_b1 b1(2) by (simp_all add: full_delta_def keys_utf8_filter)
  let ?rp' = "pp'\<lparr>pp_Delta := sort_key fst (pp_Delta pp')\<rparr>"
  obtain a2 where h2: "handlePushPull env_i j ?rp' a1 = Inr (a2, [])"
    using handlePushPull_reply [of ?rp' env_i j a1] rep by auto
  then have r2: "wn_OnMessage weaknet_JSON env_i ((?msg t' pp')\<lparr>From := j\<rparr>) a1 = Inr (a2, [])"
    using wn_OnMessage_pushPull [OF pp', of "(?msg t' pp')\<lparr>From := j\<rparr>"] by simp
  from handlePushPull_zero [OF a1(1) _ h2] b1(2)
  have "wn_state a2 = lww_merge se_Version (wn_state (N i)) (sort_key fst (wn_full b1))" by (simp add: a1(2) full_delta_def)
  then have get_a2: "wn_Get k a2 = newer se_Version (wn_Get k (N i)) (wn_Get k b1)" for k
    using lookup_delta [OF ok_b1 pos_b1, of "wn_state (N i)" k] by (simp add: wn_Get_def)
  have "wn_Get k a2 = newer se_Version (wn_Get k (N i)) (wn_Get k (N j)) \<and> wn_Get k b1 = wn_Get k a2" for k
    using newer_exchange [OF agree [THEN spec, of k]] by (simp add: get_a2 get_b1)
  then show ?thesis using s [unfolded a1(3)] r1 r2 render
    by (intro exI [of _ a1] exI [of _ ?pp] exI [of _ "?msg t ?pp"] exI [of _ b1] exI [of _ pp'] exI [of _ "?msg t' pp'"] exI [of _ a2] conjI allI) simp_all
qed

theorem weaknet_exchange_synchronises_witness:
  "\<exists>a1 pp m b1 pp' m' a2. sendPushPull wn_env2 2 False wn_written = (a1, [WPushPull 2 pp]) \<and>
     wn_render weaknet_JSON unix_epoch [WPushPull 2 pp] = [ApiSend 2 m] \<and>
     wn_OnMessage weaknet_JSON wn_env1 (m\<lparr>From := 1\<rparr>) (wn_nodes 2) = Inr (b1, [WPushPull 1 pp']) \<and>
     wn_OnMessage weaknet_JSON wn_env2 (m'\<lparr>From := 2\<rparr>) a1 = Inr (a2, []) \<and>
     wn_Get ''x'' b1 = Some \<lparr>se_Value = [1], se_Version = 1\<rparr>"
proof -
  have e: "wn_Get k (wn_nodes 2) = None" "gm_ok (wn_state (wn_nodes 2))" "keys_utf8 (wn_state (wn_nodes 2))" for k
    by (simp_all add: wn_Get_def wn_nodes_def wn_New_def keys_utf8_def)
  have w: "gm_ok (wn_state wn_written)" "keys_utf8 (wn_state wn_written)"
    by (simp_all add: wn_written_def wn_Set_def wn_New_def keys_utf8_def valid_ascii)
  have pos: "0 < se_Version x" if "wn_Get k wn_written = Some x" for k x
    using that by (auto simp: wn_written_Get split: if_splits)
  from weaknet_exchange_synchronises [OF wn_written_reach, of 1 2 wn_env2 unix_epoch wn_env1 unix_epoch] e w pos
  obtain a1 pp m b1 pp' m' a2 where "sendPushPull wn_env2 2 False wn_written = (a1, [WPushPull 2 pp])"
    "wn_render weaknet_JSON unix_epoch [WPushPull 2 pp] = [ApiSend 2 m]"
    "wn_OnMessage weaknet_JSON wn_env1 (m\<lparr>From := 1\<rparr>) (wn_nodes 2) = Inr (b1, [WPushPull 1 pp'])"
    "wn_OnMessage weaknet_JSON wn_env2 (m'\<lparr>From := 2\<rparr>) a1 = Inr (a2, [])"
    "\<forall>k. wn_Get k a2 = newer se_Version (wn_Get k wn_written) None \<and> wn_Get k b1 = wn_Get k a2"
    by auto
  then show ?thesis by (auto simp: wn_written_Get newer_def)
qed

end
