(* ===== verification/Raft_Json.thy ===== *)
theory Raft_Json
  imports Raft_Node Go_Json_Codec
begin

text \<open>
  The JSON payloads of \<open>node/algorithm/raft/raft.go\<close>, with the member names of the struct tags. The
  kind is the first member of every payload; \<open>OnMessage\<close> decodes it alone first.

  The model does not distinguish a nil slice from an empty one. An empty list of entries is written as
  \<open>null\<close>, which is what the code's nil slice gives; an empty command is written as an empty string, and
  read either way.
\<close>

section \<open>Encoding\<close>

definition json_LogEntry :: "LogEntry \<Rightarrow> json" where
  "json_LogEntry e = JObj [(''term'', json_uint (le_Term e)), (''cmd'', json_bytes (Command e))]"

definition json_requestVote :: "requestVote \<Rightarrow> json" where
  "json_requestVote rv =
     JObj [(''k'', json_uint kindRequestVote), (''term'', json_uint (rv_Term rv)), (''cid'', json_uint (rv_CandidateID rv)),
           (''lli'', json_uint (rv_LastLogIndex rv)), (''llt'', json_uint (rv_LastLogTerm rv))]"

definition json_requestVoteReply :: "requestVoteReply \<Rightarrow> json" where
  "json_requestVoteReply rvr =
     JObj [(''k'', json_uint kindRequestVoteReply), (''term'', json_uint (rvr_Term rvr)), (''granted'', JBool (rvr_VoteGranted rvr))]"

definition json_appendEntries :: "appendEntries \<Rightarrow> json" where
  "json_appendEntries ae =
     JObj [(''k'', json_uint kindAppendEntries), (''term'', json_uint (ae_Term ae)), (''lid'', json_uint (ae_LeaderID ae)),
           (''pli'', json_uint (ae_PrevLogIndex ae)), (''plt'', json_uint (ae_PrevLogTerm ae)),
           (''entries'', if ae_Entries ae = [] then JNull else JArr (map json_LogEntry (ae_Entries ae))),
           (''lc'', json_uint (ae_LeaderCommit ae))]"

definition json_appendReply :: "appendReply \<Rightarrow> json" where
  "json_appendReply ar =
     JObj [(''k'', json_uint kindAppendReply), (''term'', json_uint (ar_Term ar)), (''ok'', JBool (ar_Success ar)),
           (''mi'', json_uint (ar_MatchIndex ar))]"

definition json_payload :: "raft_payload \<Rightarrow> json" where
  "json_payload x =
     (case x of
        PRequestVote rv \<Rightarrow> json_requestVote rv
      | PRequestVoteReply rvr \<Rightarrow> json_requestVoteReply rvr
      | PAppendEntries ae \<Rightarrow> json_appendEntries ae
      | PAppendReply ar \<Rightarrow> json_appendReply ar)"

section \<open>Decoding\<close>

definition dec_LogEntry :: "LogEntry json_decoder" where
  "dec_LogEntry = dec_struct
     [(''term'', fld dec_uint le_Term (\<lambda>x r. r\<lparr>le_Term := x\<rparr>)), (''cmd'', fld dec_bytes Command (\<lambda>x r. r\<lparr>Command := x\<rparr>))]"

definition zero_LogEntry :: LogEntry where
  "zero_LogEntry = \<lparr>le_Term = 0, Command = []\<rparr>"

definition dec_requestVote :: "requestVote json_decoder" where
  "dec_requestVote = dec_struct
     [(''k'', kind_field), (''term'', fld dec_uint rv_Term (\<lambda>x r. r\<lparr>rv_Term := x\<rparr>)),
      (''cid'', fld dec_uint rv_CandidateID (\<lambda>x r. r\<lparr>rv_CandidateID := x\<rparr>)),
      (''lli'', fld dec_uint rv_LastLogIndex (\<lambda>x r. r\<lparr>rv_LastLogIndex := x\<rparr>)),
      (''llt'', fld dec_uint rv_LastLogTerm (\<lambda>x r. r\<lparr>rv_LastLogTerm := x\<rparr>))]"

definition dec_requestVoteReply :: "requestVoteReply json_decoder" where
  "dec_requestVoteReply = dec_struct
     [(''k'', kind_field), (''term'', fld dec_uint rvr_Term (\<lambda>x r. r\<lparr>rvr_Term := x\<rparr>)),
      (''granted'', fld dec_bool rvr_VoteGranted (\<lambda>x r. r\<lparr>rvr_VoteGranted := x\<rparr>))]"

definition dec_appendEntries :: "appendEntries json_decoder" where
  "dec_appendEntries = dec_struct
     [(''k'', kind_field), (''term'', fld dec_uint ae_Term (\<lambda>x r. r\<lparr>ae_Term := x\<rparr>)),
      (''lid'', fld dec_uint ae_LeaderID (\<lambda>x r. r\<lparr>ae_LeaderID := x\<rparr>)),
      (''pli'', fld dec_uint ae_PrevLogIndex (\<lambda>x r. r\<lparr>ae_PrevLogIndex := x\<rparr>)),
      (''plt'', fld dec_uint ae_PrevLogTerm (\<lambda>x r. r\<lparr>ae_PrevLogTerm := x\<rparr>)),
      (''entries'', fld (dec_slice dec_LogEntry zero_LogEntry) ae_Entries (\<lambda>x r. r\<lparr>ae_Entries := x\<rparr>)),
      (''lc'', fld dec_uint ae_LeaderCommit (\<lambda>x r. r\<lparr>ae_LeaderCommit := x\<rparr>))]"

definition dec_appendReply :: "appendReply json_decoder" where
  "dec_appendReply = dec_struct
     [(''k'', kind_field), (''term'', fld dec_uint ar_Term (\<lambda>x r. r\<lparr>ar_Term := x\<rparr>)),
      (''ok'', fld dec_bool ar_Success (\<lambda>x r. r\<lparr>ar_Success := x\<rparr>)),
      (''mi'', fld dec_uint ar_MatchIndex (\<lambda>x r. r\<lparr>ar_MatchIndex := x\<rparr>))]"

text \<open>The JSON functions of the Raft model.\<close>

definition raft_JSON :: raft_json where
  "raft_JSON =
     \<lparr>js_marshal = (\<lambda>x. json_marshal (json_payload x)),
      js_kind = json_unmarshal dec_kind 0,
      js_requestVote = json_unmarshal dec_requestVote \<lparr>rv_Term = 0, rv_CandidateID = 0, rv_LastLogIndex = 0, rv_LastLogTerm = 0\<rparr>,
      js_requestVoteReply = json_unmarshal dec_requestVoteReply \<lparr>rvr_Term = 0, rvr_VoteGranted = False\<rparr>,
      js_appendEntries = json_unmarshal dec_appendEntries
        \<lparr>ae_Term = 0, ae_LeaderID = 0, ae_PrevLogIndex = 0, ae_PrevLogTerm = 0, ae_Entries = [], ae_LeaderCommit = 0\<rparr>,
      js_appendReply = json_unmarshal dec_appendReply \<lparr>ar_Term = 0, ar_Success = False, ar_MatchIndex = 0\<rparr>\<rparr>"

section \<open>Round trip\<close>

lemmas json_payload_defs = json_requestVote_def json_requestVoteReply_def json_appendEntries_def json_appendReply_def
lemmas dec_payload_defs = dec_requestVote_def dec_requestVoteReply_def dec_appendEntries_def dec_appendReply_def

lemma json_writes_LogEntry: "json_writes 1 (json_LogEntry e)"
  unfolding json_LogEntry_def One_nat_def by (rule json_writes_obj) auto

lemma json_norm_LogEntry [simp]: "json_norm (json_LogEntry e) = json_LogEntry e"
  by (simp add: json_LogEntry_def)

lemma dec_LogEntry_json [simp]: "dec_LogEntry (json_LogEntry e) r = Some e"
  by (simp add: dec_LogEntry_def json_LogEntry_def)

lemma json_writes_payload: "json_writes 3 (json_payload x)"
proof -
  have "json_writes 2 (JArr (map json_LogEntry es))" for es
    unfolding numeral_2_eq_2 by (rule json_writes_arr) (use json_writes_LogEntry in auto)
  then show ?thesis
    unfolding numeral_3_eq_3 by (cases x) (auto simp: json_payload_def json_payload_defs numeral_2_eq_2 intro!: json_writes_obj)
qed

lemma json_norm_payload: "json_norm (json_payload x) = json_payload x"
  by (cases x) (simp_all add: json_payload_def json_payload_defs comp_def)

lemma dec_payload_json:
  "dec_requestVote (json_requestVote rv) r1 = Some rv"
  "dec_requestVoteReply (json_requestVoteReply rvr) r2 = Some rvr"
  "dec_appendEntries (json_appendEntries ae) r3 = Some ae"
  "dec_appendReply (json_appendReply ar) r4 = Some ar"
proof -
  have es: "dec_slice dec_LogEntry zero_LogEntry (if es = [] then JNull else JArr (map json_LogEntry es)) old = Some es" for es old
    using those_map_Some [of es "\<lambda>e. dec_LogEntry (json_LogEntry e) zero_LogEntry" id] by (simp add: comp_def)
  show "dec_requestVote (json_requestVote rv) r1 = Some rv"
    by (simp add: dec_requestVote_def json_requestVote_def)
  show "dec_requestVoteReply (json_requestVoteReply rvr) r2 = Some rvr"
    by (simp add: dec_requestVoteReply_def json_requestVoteReply_def)
  show "dec_appendEntries (json_appendEntries ae) r3 = Some ae"
    by (simp add: dec_appendEntries_def json_appendEntries_def es del: dec_slice.simps)
  show "dec_appendReply (json_appendReply ar) r4 = Some ar"
    by (simp add: dec_appendReply_def json_appendReply_def)
qed

lemma dec_kind_json:
  "dec_kind (json_requestVote rv) 0 = Some kindRequestVote" "dec_kind (json_requestVoteReply rvr) 0 = Some kindRequestVoteReply"
  "dec_kind (json_appendEntries ae) 0 = Some kindAppendEntries" "dec_kind (json_appendReply ar) 0 = Some kindAppendReply"
  by (simp_all add: dec_kind_def json_payload_defs find_kind)

text \<open>What the Raft model relies on of its JSON functions, and that Go's satisfy it for every payload.\<close>

definition json_ok :: "raft_json \<Rightarrow> raft_payload \<Rightarrow> bool" where
  "json_ok J x \<longleftrightarrow> js_marshal J x \<noteq> [] \<and>
     (case x of
        PRequestVote rv \<Rightarrow> js_kind J (js_marshal J x) = Some kindRequestVote \<and> js_requestVote J (js_marshal J x) = Some rv
      | PRequestVoteReply rvr \<Rightarrow>
          js_kind J (js_marshal J x) = Some kindRequestVoteReply \<and> js_requestVoteReply J (js_marshal J x) = Some rvr
      | PAppendEntries ae \<Rightarrow> js_kind J (js_marshal J x) = Some kindAppendEntries \<and> js_appendEntries J (js_marshal J x) = Some ae
      | PAppendReply ar \<Rightarrow> js_kind J (js_marshal J x) = Some kindAppendReply \<and> js_appendReply J (js_marshal J x) = Some ar)"

lemma unmarshal_payload: "json_unmarshal dec zero (json_marshal (json_payload x)) = dec (json_payload x) zero"
  using json_unmarshal_marshal [OF json_writes_payload [of x], of dec zero] by (simp add: json_norm_payload)

lemmas unmarshal_payloads =
  unmarshal_payload [where x = "PRequestVote rv" for rv, unfolded json_payload_def raft_payload.case]
  unmarshal_payload [where x = "PRequestVoteReply rvr" for rvr, unfolded json_payload_def raft_payload.case]
  unmarshal_payload [where x = "PAppendEntries ae" for ae, unfolded json_payload_def raft_payload.case]
  unmarshal_payload [where x = "PAppendReply ar" for ar, unfolded json_payload_def raft_payload.case]

lemma raft_JSON_ok: "json_ok raft_JSON x"
proof -
  have "json_marshal (json_payload x) \<noteq> []" by (cases x) (simp_all add: json_payload_def json_payload_defs)
  then show ?thesis
    by (cases x) (simp_all add: json_ok_def raft_JSON_def json_payload_def unmarshal_payloads dec_payload_json dec_kind_json)
qed

end
