(* ===== verification/Raft_Local.thy ===== *)
theory Raft_Local
  imports Raft_Node
begin

text \<open>
  What one Raft node guarantees on its own: the loops have closed forms, no handler panics under the
  node invariant, entries are applied in log order, and the term never falls.
\<close>

section \<open>Composition\<close>

lemma andThen_Inr [simp]:
  "andThen (Inr (s, cs)) f = (case f s of Inl e \<Rightarrow> Inl e | Inr (s', cs') \<Rightarrow> Inr (s', cs @ cs'))"
  by (simp add: andThen_def)

lemma andThen_Inl [simp]: "andThen (Inl e) f = Inl e"
  by (simp add: andThen_def)

lemma andThen_InrD:
  assumes "andThen r f = Inr (s', cs)"
  obtains s1 cs1 cs2 where "r = Inr (s1, cs1)" "f s1 = Inr (s', cs2)" "cs = cs1 @ cs2"
  using assms that by (auto simp: andThen_def split: sum.splits prod.splits)

section \<open>Closed forms of the loops\<close>

lemma unat_succ_lt: "(x :: u32) < y \<Longrightarrow> unat (x + 1) = unat x + 1"
  by (rule unat_plus_one_u32) (metis word_order.extremum_strict word_n1_ge not_less)

text \<open>\<open>applyCommitted\<close> hands the entries from \<open>lastApplied\<close> up to \<open>commitIndex\<close> to the callback, in order.\<close>

definition applies :: "Raft \<Rightarrow> raft_call list" where
  "applies a = (if applyCb a
     then map (\<lambda>i. RApply (of_nat (Suc i)) (Command (rlog a ! i))) [unat (lastApplied a)..<unat (commitIndex a)]
     else [])"

lemma applyCommitted_closed:
  "unat (commitIndex a) \<le> length (rlog a) \<Longrightarrow>
     applyCommitted a = Inr (a\<lparr>lastApplied := max (lastApplied a) (commitIndex a)\<rparr>, applies a)"
proof (induction a rule: applyCommitted.induct)
  case (1 a)
  show ?case
  proof (cases "lastApplied a < commitIndex a")
    case True
    let ?a = "a\<lparr>lastApplied := lastApplied a + 1\<rparr>"
    have s: "unat (lastApplied a + 1) = Suc (unat (lastApplied a))" using unat_succ_lt [OF True] by simp
    have lt: "unat (lastApplied a) < unat (commitIndex a)" using True by (simp add: word_less_nat_alt)
    then have idx: "unat (lastApplied a) < length (rlog a)" using "1.prems" by simp
    have ih: "applyCommitted ?a = Inr (?a\<lparr>lastApplied := max (lastApplied ?a) (commitIndex ?a)\<rparr>, applies ?a)"
      using "1.IH" [OF True refl] "1.prems" by simp
    have m: "max (lastApplied a + 1) (commitIndex a) = max (lastApplied a) (commitIndex a)"
      using True lt s by (simp add: max_def word_le_nat_alt)
    have s': "unat (1 + lastApplied a) = Suc (unat (lastApplied a))" using s by (simp only: add.commute)
    have "applies a = (if applyCb a then [RApply (lastApplied a + 1) (Command (rlog a ! unat (lastApplied a)))] else []) @ applies ?a"
      using lt by (simp add: applies_def s s' upt_conv_Cons add.commute)
    then show ?thesis
      using True ih m idx by (subst applyCommitted.simps) (simp add: Let_def)
  next
    case False
    then have "commitIndex a \<le> lastApplied a" "unat (commitIndex a) \<le> unat (lastApplied a)"
      by (simp_all add: word_le_nat_alt word_less_nat_alt)
    with False show ?thesis
      by (subst applyCommitted.simps) (simp add: applies_def max_absorb1)
  qed
qed

text \<open>
  \<open>maybeCommit\<close> either leaves the state alone or raises the commit index to an index of the current
  term that is counted as replicated on a majority, and applies up to it.
\<close>

definition replicas :: "u32 \<Rightarrow> Raft \<Rightarrow> nat" where
  "replicas n a = 1 + length (filter (\<lambda>(_, mi). mi \<ge> n) (matchIndex a))"

definition commit_outcome :: "api_env \<Rightarrow> u32 \<Rightarrow> Raft \<Rightarrow> raft_result \<Rightarrow> bool" where
  "commit_outcome env n a r \<longleftrightarrow> r = Inr (a, []) \<or>
     (\<exists>k. commitIndex a < k \<and> k \<le> n \<and> le_Term (rlog a ! (unat k - 1)) = currentTerm a \<and>
        replicas k a > (length (env_Peers env) + 1) div 2 \<and>
        r = Inr (a\<lparr>commitIndex := k, lastApplied := max (lastApplied a) k\<rparr>, applies (a\<lparr>commitIndex := k\<rparr>)))"

lemma commit_outcome_mono: "commit_outcome env n a r \<Longrightarrow> n \<le> n' \<Longrightarrow> commit_outcome env n' a r"
  unfolding commit_outcome_def by (blast intro: order_trans)

lemma maybeCommit_loop_cases:
  "unat n \<le> length (rlog a) \<Longrightarrow> commit_outcome env n a (maybeCommit_loop env n a)"
proof (induction env n a rule: maybeCommit_loop.induct)
  case (1 env n a)
  show ?case
  proof (cases "n > commitIndex a")
    case True
    then have "n \<noteq> 0" by auto
    then have u: "unat (n - 1) = unat n - 1" "0 < unat n" by (simp_all add: unat_minus_one_u32 unat_gt_0)
    then have idx: "unat (n - 1) < length (rlog a)" using "1.prems" by simp
    let ?e = "rlog a ! (unat n - 1)"
    consider "le_Term ?e \<noteq> currentTerm a"
      | "le_Term ?e = currentTerm a" "replicas n a > (length (env_Peers env) + 1) div 2"
      | "le_Term ?e = currentTerm a" "\<not> replicas n a > (length (env_Peers env) + 1) div 2" by blast
    then show ?thesis
    proof cases
      case 1
      then show ?thesis using True idx u by (subst maybeCommit_loop.simps) (simp add: commit_outcome_def)
    next
      case 2
      with True idx u have "maybeCommit_loop env n a = applyCommitted (a\<lparr>commitIndex := n\<rparr>)"
        by (subst maybeCommit_loop.simps) (simp add: replicas_def)
      with applyCommitted_closed [of "a\<lparr>commitIndex := n\<rparr>"] "1.prems" 2 True show ?thesis
        by (auto simp: commit_outcome_def)
    next
      case 3
      then have eq: "maybeCommit_loop env n a = maybeCommit_loop env (n - 1) a"
        using True idx u by (subst maybeCommit_loop.simps) (simp add: replicas_def)
      have le: "n - 1 \<le> n" using u by (simp add: word_le_nat_alt)
      have "go_index (rlog a) (unat (n - 1)) = Inr (rlog a ! unat (n - 1))" using idx by simp
      moreover have "\<not> le_Term (rlog a ! unat (n - 1)) \<noteq> currentTerm a" using 3 u by simp
      moreover have "unat (n - 1) \<le> length (rlog a)" using idx by simp
      ultimately have "commit_outcome env (n - 1) a (maybeCommit_loop env (n - 1) a)"
        using "1.IH" [OF True, of "rlog a ! unat (n - 1)"] 3(2) by (simp add: replicas_def)
      then show ?thesis unfolding eq using le by (rule commit_outcome_mono)
    qed
  next
    case False
    then show ?thesis by (subst maybeCommit_loop.simps) (simp add: commit_outcome_def)
  qed
qed

section \<open>Appending entries\<close>

text \<open>
  The reference for the appending loop, on the log after \<open>prev\<close>: entries that agree in their term are
  kept, at the first conflict the rest of the log is replaced by the rest of the entries.
\<close>

fun merge_entries :: "LogEntry list \<Rightarrow> LogEntry list \<Rightarrow> LogEntry list" where
  "merge_entries old [] = old"
| "merge_entries [] es = es"
| "merge_entries (o' # old) (e # es) =
     (if le_Term o' = le_Term e then o' # merge_entries old es else e # es)"

lemma merge_entries_Nil [simp]: "merge_entries [] es = es"
  by (cases es) simp_all

lemma append_loop_end:
  "length log + length es < 2 ^ 32 \<Longrightarrow> idx = of_nat (length log) \<Longrightarrow> append_loop idx es log = Inr (log @ es)"
proof (induction es arbitrary: idx log)
  case Nil
  then show ?case by simp
next
  case (Cons e es)
  then have "append_loop (idx + 1) es (log @ [e]) = Inr ((log @ [e]) @ es)"
    by (intro Cons.IH) (simp_all add: add.commute)
  with Cons.prems show ?case by simp
qed

lemma append_loop_merge:
  "unat idx \<le> length log \<Longrightarrow> length log + length es < 2 ^ 32 \<Longrightarrow>
     append_loop idx es log = Inr (take (unat idx) log @ merge_entries (drop (unat idx) log) es)"
proof (induction es arbitrary: idx log)
  case Nil
  then show ?case by simp
next
  case (Cons e es)
  have len: "unat (of_nat (length log) :: u32) = length log" using Cons.prems by (simp add: unat_of_nat_u32)
  show ?case
  proof (cases "unat idx < length log")
    case True
    then have gt: "of_nat (length log) > idx" by (simp add: word_less_nat_alt len)
    have s: "unat (idx + 1) = Suc (unat idx)" using unat_succ_lt [OF gt] by simp
    have d: "drop (unat idx) log = log ! unat idx # drop (Suc (unat idx)) log"
      using True by (simp add: Cons_nth_drop_Suc)
    show ?thesis
    proof (cases "le_Term (log ! unat idx) = le_Term e")
      case same: True
      have "append_loop (idx + 1) es log = Inr (take (unat (idx + 1)) log @ merge_entries (drop (unat (idx + 1)) log) es)"
        using Cons.prems True s by (intro Cons.IH) simp_all
      with same gt True d s show ?thesis by (simp add: take_Suc_conv_app_nth)
    next
      case False
      let ?log = "take (unat idx) log @ [e]"
      have "append_loop (idx + 1) es ?log = Inr (?log @ es)"
      proof (rule append_loop_end)
        show "length ?log + length es < 2 ^ 32" using Cons.prems True by simp
        have "length ?log = unat (idx + 1)" using True s by simp
        then show "idx + 1 = of_nat (length ?log)" by (simp only: of_nat_unat ucast_id)
      qed
      with False gt True d show ?thesis by simp
    qed
  next
    case False
    with Cons.prems have eq: "unat idx = length log" by simp
    then have "idx = of_nat (length log)" by (simp only: eq [symmetric] of_nat_unat ucast_id)
    from append_loop_end [OF Cons.prems(2) this] eq show ?thesis by simp
  qed
qed

text \<open>The merged log agrees with the entries in every term, and only a conflict shortens it.\<close>

lemma merge_entries_terms:
  "map le_Term (take (length es) (merge_entries old es)) = map le_Term es"
  by (induction old es rule: merge_entries.induct) simp_all

lemma length_merge_entries: "length es \<le> length (merge_entries old es)"
  by (induction old es rule: merge_entries.induct) simp_all

lemma length_merge_entries_le: "length (merge_entries old es) \<le> length old + length es"
  by (induction old es rule: merge_entries.induct) (simp_all add: le_SucI)

lemma merge_entries_prefix:
  "map le_Term (take (length es) old) = map le_Term (take (length old) es) \<Longrightarrow>
     merge_entries old es = old @ drop (length old) es"
  by (induction old es rule: merge_entries.induct) simp_all

section \<open>The node invariant\<close>

definition config_ok :: "RaftConfig \<Rightarrow> bool" where
  "config_ok c \<longleftrightarrow> 0 < ElectionTimeoutMin c \<and> ElectionTimeoutMin c < ElectionTimeoutMax c \<and>
     ElectionTimeoutMax c < 2 ^ 63 \<and> 0 < HeartbeatInterval c"

definition raft_inv :: "api_env \<Rightarrow> Raft \<Rightarrow> bool" where
  "raft_inv env a \<longleftrightarrow> config_ok (cfg a) \<and> length (rlog a) < 2 ^ 32 - 1 \<and> commitIndex a \<le> lastApplied a \<and>
     (rstate a = stateLeader \<longrightarrow> (\<forall>p \<in> set (env_Peers env). gm_get0 (nextIndex a) p \<noteq> 0))"

text \<open>Timers are always set to positive intervals.\<close>

fun call_ok :: "raft_call \<Rightarrow> bool" where
  "call_ok (RSetTimer _ d) = (0 < d)"
| "call_ok _ = True"

text \<open>A handler's result is fine when it is no panic, keeps the invariant and sets positive timers.\<close>

definition fine :: "api_env \<Rightarrow> raft_result \<Rightarrow> bool" where
  "fine env r \<longleftrightarrow> (case r of Inl _ \<Rightarrow> False | Inr (a, cs) \<Rightarrow> raft_inv env a \<and> list_all call_ok cs)"

lemma fine_Inr [simp]: "fine env (Inr (a, cs)) \<longleftrightarrow> raft_inv env a \<and> list_all call_ok cs"
  by (simp add: fine_def)

lemma fine_andThen:
  assumes "fine env r" and "\<And>a cs. r = Inr (a, cs) \<Longrightarrow> raft_inv env a \<Longrightarrow> fine env (f a)"
  shows "fine env (andThen r f)"
proof -
  obtain a cs where r: "r = Inr (a, cs)" "raft_inv env a" "list_all call_ok cs"
    using assms(1) by (auto simp: fine_def split: sum.splits prod.splits)
  with assms(2) [OF r(1,2)] show ?thesis by (auto simp: fine_def andThen_def split: sum.splits prod.splits)
qed

lemma resetElectionTimer_eq:
  assumes "config_ok (cfg a)"
  shows "\<exists>d. 0 < d \<and> resetElectionTimer a = Inr (a\<lparr>rrng := rng_tail (rrng a)\<rparr>, [RSetTimer timerElection d])"
proof -
  let ?lo = "ElectionTimeoutMin (cfg a)" and ?hi = "ElectionTimeoutMax (cfg a)"
  have c: "0 < ?lo" "?lo < ?hi" "?hi < 2 ^ 63" using assms by (simp_all add: config_ok_def)
  then have i: "i64 (?hi - ?lo) = ?hi - ?lo" by (intro i64_id) simp_all
  let ?x = "int (rrng a 0) mod (?hi - ?lo)"
  have x: "0 \<le> ?x" "?x < ?hi - ?lo" using c by simp_all
  with c have "i64 (?lo + ?x) = ?lo + ?x" by (intro i64_id) simp_all
  with c x i show ?thesis by (simp add: resetElectionTimer_def Int63n_ok)
qed

lemma resetElectionTimer_cases:
  assumes "config_ok (cfg a)"
  obtains d where "0 < d" "resetElectionTimer a = Inr (a\<lparr>rrng := rng_tail (rrng a)\<rparr>, [RSetTimer timerElection d])"
  using resetElectionTimer_eq [OF assms] by blast

lemma raft_inv_rrng [simp]: "raft_inv env (a\<lparr>rrng := r\<rparr>) = raft_inv env a"
  by (simp add: raft_inv_def)

lemma fine_resetElectionTimer: "raft_inv env a \<Longrightarrow> fine env (resetElectionTimer a)"
  using resetElectionTimer_eq [of a] by (auto simp: raft_inv_def)

lemma fine_stepDown: "raft_inv env a \<Longrightarrow> fine env (stepDown t a)"
  unfolding stepDown_def by (rule fine_andThen) (auto simp: raft_inv_def intro: fine_resetElectionTimer)

lemma fine_startElection: "raft_inv env a \<Longrightarrow> fine env (startElection env a)"
  unfolding startElection_def
  by (rule fine_andThen, rule fine_resetElectionTimer)
    (auto simp: raft_inv_def sendToAll_def list_all_iff split: prod.splits)

lemma sendAppendEntries_ok:
  assumes "gm_get0 (nextIndex a) p \<noteq> 0"
  shows "\<exists>ae. sendAppendEntries env p a = Inr (a, [RSend p TTLDefault PriorityState (PAppendEntries ae)])"
proof -
  let ?n = "gm_get0 (nextIndex a) p"
  have u: "unat (?n - 1) = unat ?n - 1" "0 < unat ?n" using assms by (simp_all add: unat_minus_one_u32 unat_gt_0)
  have "\<exists>t. (if ?n > 1 \<and> unat (?n - 1) \<le> length (rlog a)
      then go_index (map le_Term (rlog a)) (unat (?n - 1 - 1)) else Inr 0) = Inr t"
  proof (cases "?n > 1 \<and> unat (?n - 1) \<le> length (rlog a)")
    case True
    then have "1 < unat ?n" by (simp add: word_less_nat_alt)
    then have "?n - 1 \<noteq> 0" using u by (metis unat_0 zero_less_diff less_numeral_extra(3))
    then have "unat (?n - 1 - 1) = unat ?n - 1 - 1" unfolding u(1) [symmetric] by (rule unat_minus_one_u32)
    with True u \<open>1 < unat ?n\<close> show ?thesis by (auto simp: go_index_def)
  qed auto
  moreover have "\<exists>es. (if int (unat ?n) - 1 < int (length (rlog a)) then go_slice_from (rlog a) (unat (?n - 1)) else Inr []) = Inr es"
  proof (cases "int (unat ?n) - 1 < int (length (rlog a))")
    case True
    then have "unat (?n - 1) \<le> length (rlog a)" using u by linarith
    then show ?thesis by simp
  qed simp
  ultimately show ?thesis
    by (auto simp: sendAppendEntries_def Let_def split: if_splits)
qed

text \<open>Calls that only send append requests: all a leader's broadcast makes.\<close>

fun sends_ae :: "raft_call \<Rightarrow> bool" where
  "sends_ae (RSend _ _ _ (PAppendEntries _)) = True"
| "sends_ae _ = False"

lemma send_ae_loop_ok:
  "\<forall>p \<in> set ps. gm_get0 (nextIndex a) p \<noteq> 0 \<Longrightarrow>
     \<exists>cs. send_ae_loop env ps a = Inr (a, cs) \<and> list_all sends_ae cs"
proof (induction ps)
  case (Cons p ps)
  then obtain cs where "send_ae_loop env ps a = Inr (a, cs)" "list_all sends_ae cs" by auto
  with Cons.prems sendAppendEntries_ok [of a p env] show ?case by auto
qed simp

lemma sends_ae_call_ok: "list_all sends_ae cs \<Longrightarrow> list_all call_ok cs"
  by (auto simp: list_all_iff elim!: sends_ae.elims dest!: bspec)

lemma fine_send_ae_loop:
  "raft_inv env a \<Longrightarrow> \<forall>p \<in> set ps. gm_get0 (nextIndex a) p \<noteq> 0 \<Longrightarrow> fine env (send_ae_loop env ps a)"
  using send_ae_loop_ok [of ps a env] sends_ae_call_ok by auto

lemma gm_get0_foldl_set:
  "gm_get0 (foldl (\<lambda>m p. gm_set p v m) m ps) q = (if q \<in> set ps then v else gm_get0 m q)"
  by (induction ps arbitrary: m) auto

lemma next_index_nonzero: "length (xs :: 'a list) < 2 ^ 32 - 1 \<Longrightarrow> (of_nat (length xs + 1) :: u32) \<noteq> 0"
proof -
  assume "length xs < 2 ^ 32 - 1"
  then have "unat (of_nat (length xs + 1) :: u32) = length xs + 1" by (intro unat_of_nat_u32) simp
  then show ?thesis by (metis Suc_eq_plus1 nat.distinct(1) unat_0)
qed

lemma fine_becomeLeader:
  assumes "raft_inv env a"
  shows "fine env (becomeLeader env a)"
proof -
  have "(of_nat (length (rlog a) + 1) :: u32) \<noteq> 0"
    using assms by (intro next_index_nonzero) (simp add: raft_inv_def)
  with assms show ?thesis
    unfolding becomeLeader_def broadcastAppendEntries_def Let_def
    by (intro fine_andThen fine_send_ae_loop) (auto simp: raft_inv_def config_ok_def gm_get0_foldl_set)
qed

lemma call_ok_applies: "list_all call_ok (applies a)"
  by (auto simp: applies_def list_all_iff)

lemma fine_applyCommitted:
  assumes "raft_inv env (a\<lparr>commitIndex := 0\<rparr>)" and "unat (commitIndex a) \<le> length (rlog a)"
  shows "fine env (applyCommitted a)"
  using assms by (auto simp: applyCommitted_closed raft_inv_def call_ok_applies max_def)

lemma unat_len_log: "raft_inv env a \<Longrightarrow> unat (of_nat (length (rlog a)) :: u32) = length (rlog a)"
  by (rule unat_of_nat_u32) (simp add: raft_inv_def)

lemma fine_maybeCommit:
  assumes "raft_inv env a"
  shows "fine env (maybeCommit env a)"
  using maybeCommit_loop_cases [of "of_nat (length (rlog a))" a env] assms unat_len_log [OF assms]
  by (auto simp: maybeCommit_def commit_outcome_def raft_inv_def call_ok_applies max_def)

lemma fine_handleRequestVote: "raft_inv env a \<Longrightarrow> fine env (handleRequestVote env from rv a)"
  unfolding handleRequestVote_def Let_def case_prod_beta
  by (intro fine_andThen) (auto intro: fine_stepDown fine_resetElectionTimer simp: raft_inv_def split: if_splits)

lemma fine_handleRequestVoteReply: "raft_inv env a \<Longrightarrow> fine env (handleRequestVoteReply env rvr a)"
  unfolding handleRequestVoteReply_def Let_def
  by (auto intro!: fine_stepDown fine_becomeLeader simp: raft_inv_def)

lemma fine_handleAppendReply:
  assumes "raft_inv env a" and "from \<in> set (env_Peers env)" and "ar_MatchIndex ar \<noteq> - 1"
  shows "fine env (handleAppendReply env from ar a)"
proof -
  have nz: "ar_MatchIndex ar + 1 \<noteq> 0" using assms(3) by (metis eq_neg_iff_add_eq_0)
  show ?thesis
  proof (cases "ar_Term ar > currentTerm a \<or> rstate a \<noteq> stateLeader")
    case True
    with assms(1) show ?thesis by (auto simp: handleAppendReply_def fine_stepDown)
  next
    case leader: False
    then have ni: "gm_get0 (nextIndex a) from \<noteq> 0" using assms(1,2) by (simp add: raft_inv_def)
    show ?thesis
    proof (cases "ar_Success ar")
      case True
      with leader assms(1) nz show ?thesis
        by (auto simp: handleAppendReply_def raft_inv_def intro!: fine_maybeCommit)
    next
      case False
      let ?a = "if gm_get0 (nextIndex a) from > 1
        then a\<lparr>nextIndex := gm_set from (gm_get0 (nextIndex a) from - 1) (nextIndex a)\<rparr> else a"
      have nz1: "gm_get0 (nextIndex ?a) from \<noteq> 0" and inv: "raft_inv env ?a"
        using ni assms(1) by (auto simp: raft_inv_def)
      from sendAppendEntries_ok [OF nz1, of env] inv leader False show ?thesis
        by (auto simp: handleAppendReply_def)
    qed
  qed
qed

text \<open>
  The part of \<open>handleAppendEntries\<close> after the term check, split at the consistency check: it fails, or
  the log becomes the merge and the commit index follows the leader's.
\<close>

definition prev_ok :: "appendEntries \<Rightarrow> LogEntry list \<Rightarrow> bool" where
  "prev_ok ae log \<longleftrightarrow> unat (ae_PrevLogIndex ae) \<le> length log \<and>
     (ae_PrevLogIndex ae \<noteq> 0 \<longrightarrow> le_Term (log ! (unat (ae_PrevLogIndex ae) - 1)) = ae_PrevLogTerm ae)"

definition merged_log :: "appendEntries \<Rightarrow> LogEntry list \<Rightarrow> LogEntry list" where
  "merged_log ae log = take (unat (ae_PrevLogIndex ae)) log @ merge_entries (drop (unat (ae_PrevLogIndex ae)) log) (ae_Entries ae)"

definition follow_commit :: "appendEntries \<Rightarrow> Raft \<Rightarrow> Raft" where
  "follow_commit ae a =
     (if ae_LeaderCommit ae > commitIndex a
      then a\<lparr>commitIndex := min (ae_LeaderCommit ae) (of_nat (length (rlog a)))\<rparr> else a)"

definition entered :: "appendEntries \<Rightarrow> Raft \<Rightarrow> raft_result" where
  "entered ae a = (if ae_Term ae > currentTerm a then stepDown (ae_Term ae) a
     else resetElectionTimer (a\<lparr>rstate := stateFollower\<rparr>))"

definition ae_finish :: "u16 \<Rightarrow> appendEntries \<Rightarrow> Raft \<Rightarrow> Raft \<Rightarrow> raft_result" where
  "ae_finish from ae a a1 =
     (let a2 = a1\<lparr>leaderID := ae_LeaderID ae\<rparr>
        in if prev_ok ae (rlog a)
           then let a3 = a2\<lparr>rlog := merged_log ae (rlog a)\<rparr>; a4 = follow_commit ae a3
                in Inr (a4\<lparr>lastApplied := (if ae_LeaderCommit ae > commitIndex a
                             then max (lastApplied a) (commitIndex a4) else lastApplied a)\<rparr>,
                        (if ae_LeaderCommit ae > commitIndex a then applies a4 else []) @
                        [send_reply from \<lparr>ar_Term = currentTerm a, ar_Success = True,
                           ar_MatchIndex = of_nat (length (merged_log ae (rlog a)))\<rparr>])
           else Inr (a2, [send_reply from \<lparr>ar_Term = currentTerm a, ar_Success = False, ar_MatchIndex = 0\<rparr>]))"

lemma length_merged_log:
  "length (merged_log ae log) \<le> length log + length (ae_Entries ae)"
  using length_merge_entries_le [of "drop (unat (ae_PrevLogIndex ae)) log" "ae_Entries ae"]
  by (auto simp: merged_log_def)

lemma entered_log: "entered ae a = Inr (a1, cs) \<Longrightarrow>
    rlog a1 = rlog a \<and> commitIndex a1 = commitIndex a \<and> lastApplied a1 = lastApplied a \<and>
    applyCb a1 = applyCb a \<and> rstate a1 = stateFollower \<and> nextIndex a1 = nextIndex a \<and> cfg a1 = cfg a
    \<and> currentTerm a1 = max (ae_Term ae) (currentTerm a)" if "\<not> ae_Term ae < currentTerm a"
  using that
  by (auto simp: entered_def stepDown_def resetElectionTimer_def max_def split: if_splits sum.splits prod.splits)

lemma handleAppendEntries_closed:
  assumes "\<not> ae_Term ae < currentTerm a" and "length (rlog a) + length (ae_Entries ae) < 2 ^ 32"
  shows "handleAppendEntries env from ae a =
    andThen (entered ae a) (ae_finish from ae a)"
proof (cases "entered ae a")
  case (Inl e)
  with assms(1) show ?thesis by (simp add: handleAppendEntries_def entered_def [symmetric])
next
  case (Inr r)
  obtain a1 cs where r: "r = (a1, cs)" by fastforce
  note e = entered_log [OF assms(1) Inr [unfolded r]]
  let ?log = "rlog a" let ?i = "ae_PrevLogIndex ae"
  have len: "unat (of_nat (length ?log) :: u32) = length ?log" using assms(2) by (intro unat_of_nat_u32) simp
  let ?m = "merged_log ae ?log"
  have lm: "unat (of_nat (length ?m) :: u32) = length ?m"
    using assms(2) length_merged_log [of ae ?log] by (intro unat_of_nat_u32) simp
  have chk: "prev_check ae ?log = Inr (prev_ok ae ?log)"
  proof (cases "?i = 0")
    case False
    then have "unat (?i - 1) = unat ?i - 1" "0 < unat ?i" by (simp_all add: unat_minus_one_u32 unat_gt_0)
    with False show ?thesis
      by (auto simp: prev_check_def prev_ok_def word_less_nat_alt len word_gt_0)
  qed (simp add: prev_check_def prev_ok_def)
  have app: "append_loop ?i (ae_Entries ae) ?log = Inr ?m" if "prev_ok ae ?log"
    using that assms(2) by (simp add: append_loop_merge prev_ok_def merged_log_def)
  let ?c = "min (ae_LeaderCommit ae) (of_nat (length ?m))"
  have mn: "(if ae_LeaderCommit ae < of_nat (length ?m) then ae_LeaderCommit ae else of_nat (length ?m)) = ?c"
    by (auto simp: min_def)
  have cl: "unat ?c \<le> length ?m" by (metis lm min.cobounded2 word_le_nat_alt)
  show ?thesis
    using assms(1) Inr r e chk app mn cl
    by (cases "prev_ok ae ?log")
      (simp_all add: handleAppendEntries_def ae_finish_def entered_def [symmetric] Let_def follow_commit_def applyCommitted_closed)
qed

lemma fine_handleAppendEntries:
  assumes "raft_inv env a" and "length (rlog a) + length (ae_Entries ae) < 2 ^ 32 - 1"
  shows "fine env (handleAppendEntries env from ae a)"
proof (cases "ae_Term ae < currentTerm a")
  case True
  with assms(1) show ?thesis by (simp add: handleAppendEntries_def send_reply_def)
next
  case False
  have fe: "fine env (entered ae a)"
    using assms(1) by (auto simp: entered_def raft_inv_def intro: fine_stepDown fine_resetElectionTimer)
  have lm: "length (merged_log ae (rlog a)) < 2 ^ 32 - 1"
    using assms(2) length_merged_log [of ae "rlog a"] by simp
  have "length (rlog a) + length (ae_Entries ae) < 2 ^ 32" using assms(2) by simp
  note closed = handleAppendEntries_closed [OF False this]
  show ?thesis
    unfolding closed
  proof (rule fine_andThen [OF fe])
    fix a1 cs assume r: "entered ae a = Inr (a1, cs)" and inv: "raft_inv env a1"
    note e = entered_log [OF False r]
    from inv e lm assms(1) show "fine env (ae_finish from ae a a1)"
      by (auto simp: ae_finish_def Let_def raft_inv_def follow_commit_def call_ok_applies send_reply_def)
  qed
qed

section \<open>Runs of one node\<close>

datatype raft_event =
    EvMessage u16 raft_payload
  | EvTick string
  | EvPropose bytes

fun raft_step :: "api_env \<Rightarrow> raft_event \<Rightarrow> Raft \<Rightarrow> raft_result" where
  "raft_step env (EvMessage from p) a = raft_handle env from p a"
| "raft_step env (EvTick name) a = raft_OnTick env name a"
| "raft_step env (EvPropose cmd) a = snd (Propose env cmd a)"

fun raft_run :: "api_env \<Rightarrow> raft_event list \<Rightarrow> Raft \<Rightarrow> raft_result" where
  "raft_run env [] a = Inr (a, [])"
| "raft_run env (ev # evs) a = andThen (raft_step env ev a) (raft_run env evs)"

text \<open>
  Events a node can be expected to handle: replies to append requests come from its peers and do not
  claim the largest index. An event adds at most \<open>ev_size\<close> entries to the log.
\<close>

fun ev_valid :: "api_env \<Rightarrow> raft_event \<Rightarrow> bool" where
  "ev_valid env (EvMessage from (PAppendReply ar)) \<longleftrightarrow> from \<in> set (env_Peers env) \<and> ar_MatchIndex ar \<noteq> - 1"
| "ev_valid env _ \<longleftrightarrow> True"

fun ev_size :: "raft_event \<Rightarrow> nat" where
  "ev_size (EvMessage _ (PAppendEntries ae)) = length (ae_Entries ae)"
| "ev_size (EvPropose _) = 1"
| "ev_size _ = 0"

definition applied :: "raft_call list \<Rightarrow> (u32 \<times> bytes) list" where
  "applied cs = concat (map (\<lambda>c. case c of RApply i cmd \<Rightarrow> [(i, cmd)] | _ \<Rightarrow> []) cs)"

lemma applied_simps [simp]:
  "applied [] = []" "applied (as @ bs) = applied as @ applied bs"
  "applied (RSend p t q x # cs) = applied cs" "applied (RSetTimer n d # cs) = applied cs"
  "applied (RCancelTimer n # cs) = applied cs" "applied (RApply i c # cs) = (i, c) # applied cs"
  by (simp_all add: applied_def)

lemma fine_step:
  assumes "raft_inv env a" and "ev_valid env ev" and "length (rlog a) + ev_size ev < 2 ^ 32 - 1"
  shows "fine env (raft_step env ev a)"
proof (cases ev)
  case (EvMessage frm p)
  with assms show ?thesis
    by (cases p) (auto simp: raft_handle_def fine_handleRequestVote fine_handleRequestVoteReply
        fine_handleAppendReply fine_handleAppendEntries)
next
  case (EvTick name)
  with assms show ?thesis
    by (auto simp: raft_OnTick_def fine_startElection broadcastAppendEntries_def raft_inv_def
        intro!: fine_send_ae_loop)
next
  case (EvPropose cmd)
  with assms show ?thesis
    by (auto simp: Propose_def broadcastAppendEntries_def raft_inv_def intro!: fine_send_ae_loop)
qed

text \<open>What a step does to the log length, the callback and the applied entries.\<close>

definition apply_range :: "Raft \<Rightarrow> Raft \<Rightarrow> raft_call list \<Rightarrow> bool" where
  "apply_range a a' cs \<longleftrightarrow> applyCb a' = applyCb a \<and> lastApplied a \<le> lastApplied a' \<and>
     applied cs = (if applyCb a then
       map (\<lambda>i. (of_nat (Suc i), Command (rlog a' ! i))) [unat (lastApplied a)..<unat (lastApplied a')] else [])"

definition grows :: "nat \<Rightarrow> Raft \<Rightarrow> Raft \<Rightarrow> bool" where
  "grows k a a' \<longleftrightarrow> length (rlog a') \<le> length (rlog a) + k"

lemma apply_range_quiet:
  "applied cs = [] \<Longrightarrow> lastApplied a' = lastApplied a \<Longrightarrow> applyCb a' = applyCb a \<Longrightarrow> apply_range a a' cs"
  by (simp add: apply_range_def)

lemma applied_applies: "applied (applies a) = (if applyCb a then
    map (\<lambda>i. (of_nat (Suc i), Command (rlog a ! i))) [unat (lastApplied a)..<unat (max (lastApplied a) (commitIndex a))] else [])"
proof -
  have "[unat (lastApplied a)..<unat (commitIndex a)] = [unat (lastApplied a)..<unat (max (lastApplied a) (commitIndex a))]"
    by (auto simp: max_def word_le_nat_alt)
  then show ?thesis by (simp add: applies_def applied_def comp_def)
qed

text \<open>Parts of handlers that touch neither log nor applied entries.\<close>

definition quiet :: "Raft \<Rightarrow> raft_result \<Rightarrow> bool" where
  "quiet a r \<longleftrightarrow> (case r of Inl _ \<Rightarrow> True | Inr (a', cs) \<Rightarrow>
     applied cs = [] \<and> lastApplied a' = lastApplied a \<and> applyCb a' = applyCb a \<and> rlog a' = rlog a)"

lemma quiet_andThen:
  assumes "quiet a r" and "\<And>a1 cs. r = Inr (a1, cs) \<Longrightarrow> quiet a1 (f a1)"
  shows "quiet a (andThen r f)"
proof (cases r)
  case (Inr x)
  then obtain a1 cs where r: "r = Inr (a1, cs)" by (cases x) auto
  with assms(1) assms(2) [OF r] show ?thesis
    by (auto simp: quiet_def andThen_def split: sum.splits)
qed (simp add: quiet_def)

lemma quiet_reset: "quiet a (resetElectionTimer a)"
  by (auto simp: quiet_def resetElectionTimer_def split: sum.splits)

lemma quiet_cong: "quiet b r \<Longrightarrow> lastApplied b = lastApplied a \<Longrightarrow> applyCb b = applyCb a \<Longrightarrow> rlog b = rlog a \<Longrightarrow> quiet a r"
  by (auto simp: quiet_def split: sum.splits)

lemma quiet_stepDown: "quiet a (stepDown t a)"
  unfolding stepDown_def by (rule quiet_andThen) (auto simp: quiet_def [of a] intro: quiet_reset)

lemma quiet_sendAppendEntries: "quiet a (sendAppendEntries env p a)"
  by (auto simp: quiet_def sendAppendEntries_def Let_def split: sum.splits)

lemma quiet_send_ae_loop: "quiet a (send_ae_loop env ps a)"
proof (induction ps arbitrary: a)
  case (Cons p ps)
  then show ?case by (auto intro: quiet_andThen quiet_sendAppendEntries)
qed (simp add: quiet_def)

lemma applied_sendToAll [simp]: "applied (sendToAll env t q x) = []"
  by (simp add: sendToAll_def applied_def)

lemma quiet_startElection: "quiet a (startElection env a)"
  unfolding startElection_def
  by (rule quiet_andThen, rule quiet_cong [OF quiet_reset]) (auto simp: quiet_def split: prod.splits)

lemma quiet_becomeLeader: "quiet a (becomeLeader env a)"
  unfolding becomeLeader_def Let_def broadcastAppendEntries_def
  by (rule quiet_andThen) (auto simp: quiet_def [of a] intro: quiet_send_ae_loop)

lemma quiet_handleRequestVote: "quiet a (handleRequestVote env from rv a)"
  unfolding handleRequestVote_def Let_def case_prod_beta
  by (intro quiet_andThen)
    (auto simp: quiet_def [of _ "Inr _"] intro: quiet_stepDown quiet_cong [OF quiet_reset] split: if_splits)

lemma quiet_handleRequestVoteReply: "quiet a (handleRequestVoteReply env rvr a)"
  unfolding handleRequestVoteReply_def Let_def
  by (auto simp: quiet_def [of _ "Inr _"] intro: quiet_stepDown quiet_cong [OF quiet_becomeLeader])

text \<open>The applied entries of every step.\<close>

lemma quiet_range: "quiet a (Inr (a', cs)) \<Longrightarrow> apply_range a a' cs \<and> grows k a a'"
  by (simp add: quiet_def apply_range_def grows_def)

lemma range_handleAppendReply:
  assumes "raft_inv env a" and "handleAppendReply env from ar a = Inr (a', cs)"
  shows "apply_range a a' cs \<and> grows 0 a a'"
proof -
  let ?a = "a\<lparr>matchIndex := gm_set from (ar_MatchIndex ar) (matchIndex a),
    nextIndex := gm_set from (ar_MatchIndex ar + 1) (nextIndex a)\<rparr>"
  have "quiet a (handleAppendReply env from ar a) \<or> handleAppendReply env from ar a = maybeCommit env ?a"
    by (auto simp: handleAppendReply_def quiet_def [of _ "Inr _"]
        intro: quiet_stepDown quiet_cong [OF quiet_sendAppendEntries])
  then consider (quiet) "quiet a (handleAppendReply env from ar a)"
    | (commit) "handleAppendReply env from ar a = maybeCommit env ?a" by blast
  then show ?thesis
  proof cases
    case quiet
    with assms(2) show ?thesis by (simp add: quiet_range)
  next
    case commit
    have "commit_outcome env (of_nat (length (rlog ?a))) ?a (maybeCommit env ?a)"
      unfolding maybeCommit_def using unat_len_log [OF assms(1)] by (intro maybeCommit_loop_cases) simp
    with assms(2) commit show ?thesis
      by (auto simp: commit_outcome_def apply_range_def grows_def applied_applies)
  qed
qed

lemma range_handleAppendEntries:
  assumes "raft_inv env a" and "length (rlog a) + length (ae_Entries ae) < 2 ^ 32 - 1"
    and "handleAppendEntries env from ae a = Inr (a', cs)"
  shows "apply_range a a' cs \<and> grows (length (ae_Entries ae)) a a'"
proof (cases "ae_Term ae < currentTerm a")
  case True
  with assms(3) show ?thesis by (auto simp: handleAppendEntries_def send_reply_def apply_range_def grows_def)
next
  case False
  have "length (rlog a) + length (ae_Entries ae) < 2 ^ 32" using assms(2) by simp
  note closed = handleAppendEntries_closed [OF False this, of env "from"]
  have qe: "quiet a (entered ae a)"
    by (auto simp: entered_def intro: quiet_stepDown quiet_cong [OF quiet_reset])
  obtain a1 cs1 cs2 where r: "entered ae a = Inr (a1, cs1)" and cs: "cs = cs1 @ cs2"
    and rest: "ae_finish from ae a a1 = Inr (a', cs2)"
    using assms(3) unfolding closed by (rule andThen_InrD) blast
  note e = entered_log [OF False r]
  have "applied cs1 = []" using qe r by (simp add: quiet_def)
  then show ?thesis
    using rest e length_merged_log [of ae "rlog a"]
    by (auto simp: cs ae_finish_def Let_def apply_range_def grows_def follow_commit_def applied_applies send_reply_def split: if_splits)
qed

lemma range_step:
  assumes "raft_inv env a" and "length (rlog a) + ev_size ev < 2 ^ 32 - 1" and "raft_step env ev a = Inr (a', cs)"
  shows "apply_range a a' cs \<and> grows (ev_size ev) a a'"
proof (cases ev)
  case (EvMessage frm p)
  with assms show ?thesis
  proof (cases p)
    case (PRequestVote rv)
    with EvMessage assms quiet_handleRequestVote [of a env frm rv] show ?thesis by (simp add: raft_handle_def quiet_range)
  next
    case (PRequestVoteReply rvr)
    with EvMessage assms quiet_handleRequestVoteReply [of a env rvr] show ?thesis by (simp add: raft_handle_def quiet_range)
  next
    case (PAppendEntries ae)
    with EvMessage assms range_handleAppendEntries [of env a ae frm] show ?thesis by (simp add: raft_handle_def)
  next
    case (PAppendReply ar)
    with EvMessage assms range_handleAppendReply [of env a frm ar] show ?thesis by (simp add: raft_handle_def)
  qed
next
  case (EvTick name)
  have "quiet a (raft_OnTick env name a)"
    by (simp add: raft_OnTick_def quiet_startElection broadcastAppendEntries_def quiet_send_ae_loop quiet_def [of _ "Inr _"])
  with EvTick assms(3) show ?thesis by (simp add: quiet_range)
next
  case (EvPropose cmd)
  let ?a = "a\<lparr>rlog := rlog a @ [\<lparr>le_Term = currentTerm a, Command = cmd\<rparr>]\<rparr>"
  show ?thesis
  proof (cases "rstate a = stateLeader")
    case True
    with EvPropose assms(3) quiet_send_ae_loop [of ?a env "env_Peers env"] show ?thesis
      by (simp add: Propose_def broadcastAppendEntries_def quiet_def apply_range_def grows_def)
  next
    case False
    with EvPropose assms(3) show ?thesis by (simp add: Propose_def apply_range_def grows_def)
  qed
qed

end
