(* ===== verification/Node_Algorithm.thy ===== *)
theory Node_Algorithm
  imports Node_Command Gossip_Json Weaknet_Json Raft_Json Raft_Local
begin

text \<open>
  The interface of \<open>node/algorithm/algorithm.go\<close> as a contract, the node that runs an algorithm behind it,
  and the three algorithms with their JSON payloads as implementations. Messages, timer ticks and the
  send loop are events of a run; each handler runs under the lock of its algorithm and is one step.
\<close>

section \<open>A node with an algorithm\<close>

datatype run_event =
    EvRecv go_time Message
  | EvTimer go_time string
  | EvDrain "string \<Rightarrow> Message \<Rightarrow> bool"

type_synonym 's on_message = "api_env \<Rightarrow> Message \<Rightarrow> 's \<Rightarrow> 's handled"
type_synonym 's on_tick = "api_env \<Rightarrow> string \<Rightarrow> 's \<Rightarrow> 's handled"

text \<open>The tick of a timer: the algorithm's handler, and the calls it makes.\<close>

definition timer_fires :: "'s on_tick \<Rightarrow> go_time \<Rightarrow> string \<Rightarrow> Node \<times> 's \<Rightarrow> (Node \<times> 's) go" where
  "timer_fires onTick now name ns =
     (case onTick (node_env now (fst ns)) name (snd ns) of
        Inl e \<Rightarrow> Inl e
      | Inr (s, cs) \<Rightarrow> (case exec_calls now cs (fst ns) of Inl e \<Rightarrow> Inl e | Inr n \<Rightarrow> Inr (n, s)))"

fun run_event_step :: "'s on_message \<Rightarrow> 's on_tick \<Rightarrow> run_event \<Rightarrow> Node \<times> 's \<Rightarrow> (Node \<times> 's) go" where
  "run_event_step onMessage onTick (EvRecv now m) ns = recv_one onMessage now m ns"
| "run_event_step onMessage onTick (EvTimer now name) ns = timer_fires onTick now name ns"
| "run_event_step onMessage onTick (EvDrain tr_ok) ns = Inr (snd (send_drain tr_ok (fst ns)), snd ns)"

text \<open>Whether the message of an event is as an algorithm expects it.\<close>

definition expects :: "(u16 list \<Rightarrow> Message \<Rightarrow> 's \<Rightarrow> bool) \<Rightarrow> run_event \<Rightarrow> Node \<times> 's \<Rightarrow> bool" where
  "expects expected ev ns = (case ev of EvRecv now m \<Rightarrow> expected (pm_List (nd_pm (fst ns))) m (snd ns) | _ \<Rightarrow> True)"

section \<open>What a run leaves alone\<close>

text \<open>No event changes the configuration, the peers, whether the node is stopped, or whether it counts.\<close>

definition same_frame :: "Node \<Rightarrow> Node \<Rightarrow> bool" where
  "same_frame n n' \<longleftrightarrow> nd_pm n' = nd_pm n \<and> nd_cfg n' = nd_cfg n \<and> nd_stopClosed n' = nd_stopClosed n \<and>
     nd_once n' = nd_once n \<and> (nd_mc n' = None \<longleftrightarrow> nd_mc n = None)"

lemma same_frame_refl [simp]: "same_frame n n"
  by (simp add: same_frame_def)

lemma same_frame_trans [trans]: "same_frame n m \<Longrightarrow> same_frame m k \<Longrightarrow> same_frame n k"
  by (simp add: same_frame_def)

lemma SendQueue_Push_mc: "SendQueue_Push msg (q, mc) = Inr (q', mc') \<Longrightarrow> mc' = None \<longleftrightarrow> mc = None"
  by (auto simp: SendQueue_Push_def push_locked_def Let_def split: if_splits sum.splits option.splits)

lemma frame_push: "node_push msg n = Inr n' \<Longrightarrow> same_frame n n'"
  by (auto simp: node_push_def same_frame_def split: sum.splits dest: SendQueue_Push_mc)

lemma frame_nextSeq: "same_frame n (snd (nextSeq sid n))"
  by (simp add: nextSeq_def same_frame_def Let_def)

lemma frame_Send:
  assumes "node_Send now p m n = Inr (e, n')"
  shows "same_frame n n'"
proof (cases "pm_Get p (nd_pm n)")
  case None
  with assms show ?thesis by (simp add: node_Send_def)
next
  case (Some pr)
  let ?m = "m\<lparr>From := opt_id (nd_cfg n), To := p\<rparr>"
  obtain seq n1 where s: "nextSeq (StreamID ?m) n = (seq, n1)" by fastforce
  with assms Some have "node_push (stamp_time now (?m\<lparr>Seq := seq\<rparr>)) n1 = Inr n'"
    by (simp add: node_Send_def Let_def split: sum.splits)
  from frame_push [OF this] frame_nextSeq [of n "StreamID ?m"] s show ?thesis by (auto intro: same_frame_trans)
qed

lemma frame_broadcast: "broadcast_loop ids m n = Inr n' \<Longrightarrow> same_frame n n'"
proof (induction ids m n rule: broadcast_loop.induct)
  case (2 p ids m n)
  let ?m = "m\<lparr>To := p\<rparr>"
  obtain seq n1 where s: "nextSeq (StreamID ?m) n = (seq, n1)" by fastforce
  with "2.prems" obtain n2 where p: "node_push (?m\<lparr>Seq := seq\<rparr>) n1 = Inr n2" and b: "broadcast_loop ids m n2 = Inr n'"
    by (auto simp: Let_def split: sum.splits)
  from frame_nextSeq [of n "StreamID ?m"] s have "same_frame n n1" by simp
  also have "same_frame n1 n2" by (rule frame_push [OF p])
  also have "same_frame n2 n'" by (rule "2.IH" [OF refl s [symmetric] refl refl p b])
  finally show ?case .
qed simp

lemma frame_exec_call: "exec_call now c n = Inr n' \<Longrightarrow> same_frame n n'"
  by (cases c) (auto simp: node_Broadcast_def node_SetTimer_def node_CancelTimer_def Let_def same_frame_def [of n "_\<lparr>nd_tm := _\<rparr>"]
      split: sum.splits intro: frame_Send frame_broadcast)

lemma frame_exec_calls: "exec_calls now cs n = Inr n' \<Longrightarrow> same_frame n n'"
  by (induction cs arbitrary: n) (auto split: sum.splits dest: frame_exec_call intro: same_frame_trans)

lemma frame_send_drain:
  assumes "node_inv n"
  shows "same_frame n (snd (send_drain tr_ok n))" and "node_inv (snd (send_drain tr_ok n))"
proof -
  obtain outs n' where d: "send_drain tr_ok n = (outs, n')" by fastforce
  from send_drain_routed [OF assms d] obtain q' where "sq_inv q'"
    "n' = n\<lparr>nd_sq := q', nd_mc := map_option (fold (count_sent tr_ok) outs) (nd_mc n)\<rparr>" by metis
  with assms d show "same_frame n (snd (send_drain tr_ok n))" "node_inv (snd (send_drain tr_ok n))"
    by (simp_all add: same_frame_def node_inv_def)
qed

text \<open>Receiving: the message is dropped, or the algorithm handles it at a node with the same frame.\<close>

lemma recv_one_cases:
  assumes "node_inv n"
  obtains n1 where "node_inv n1" "same_frame n n1" "recv_one onMessage now msg (n, s) = Inr (n1, s)"
  | n1 where "node_inv n1" "same_frame n n1" "recv_one onMessage now msg (n, s) =
      (case onMessage (node_env now n1) msg s of
         Inl e \<Rightarrow> Inl e
       | Inr (s, cs) \<Rightarrow> (case exec_calls now cs n1 of Inl e \<Rightarrow> Inl e | Inr n \<Rightarrow> Inr (n, s)))"
proof -
  let ?mc = "map_option (RecordRecv now msg (HeaderSize + length (Payload msg))) (nd_mc n)"
  obtain out rt where d: "Dispatch now msg ((nd_rt n)\<lparr>rt_mc := ?mc\<rparr>) = (out, rt)" by fastforce
  from assms obtain h where "router_tracks ((nd_rt n)\<lparr>rt_mc := ?mc\<rparr>) h"
    by (auto simp: node_inv_def router_tracks_mc)
  note spec = Dispatch_spec [OF this d]
  let ?n = "n\<lparr>nd_rt := rt, nd_mc := rt_mc rt\<rparr>"
  have inv: "node_inv ?n" "same_frame n ?n" using spec(2,3) assms by (auto simp: node_inv_def same_frame_def)
  show thesis
  proof (cases out)
    case None
    with inv d show thesis by (intro that(1) [of ?n]) (simp_all add: recv_one_def)
  next
    case (Some m)
    with spec(1) have "m = msg" by (simp split: if_splits)
    with Some inv d show thesis by (intro that(2) [of ?n]) (simp_all add: recv_one_def Let_def)
  qed
qed

section \<open>The contract of an algorithm\<close>

text \<open>
  A handler that is given a state in order returns, leaves the state in order and sets timers only to
  positive intervals. What is in order may depend on the peers, and handlers may rely on messages
  being as expected.
\<close>

locale algorithm =
  fixes onStart :: "go_time \<Rightarrow> 's \<Rightarrow> 's handled"
    and onStop :: "go_time \<Rightarrow> 's \<Rightarrow> 's handled"
    and onMessage :: "'s on_message"
    and onTick :: "'s on_tick"
    and ok :: "u16 list \<Rightarrow> 's \<Rightarrow> bool"
    and expected :: "u16 list \<Rightarrow> Message \<Rightarrow> 's \<Rightarrow> bool"
  assumes start_ok: "ok ps s \<Longrightarrow> \<exists>s' cs. onStart now s = Inr (s', cs) \<and> ok ps s' \<and> list_all timers_positive cs"
    and stop_ok: "ok ps s \<Longrightarrow> \<exists>s' cs. onStop now s = Inr (s', cs) \<and> ok ps s' \<and> list_all timers_positive cs"
    and message_ok: "ok (env_Peers env) s \<Longrightarrow> expected (env_Peers env) m s \<Longrightarrow>
      \<exists>s' cs. onMessage env m s = Inr (s', cs) \<and> ok (env_Peers env) s' \<and> list_all timers_positive cs"
    and tick_ok: "ok (env_Peers env) s \<Longrightarrow>
      \<exists>s' cs. onTick env name s = Inr (s', cs) \<and> ok (env_Peers env) s' \<and> list_all timers_positive cs"
begin

definition in_order :: "Node \<times> 's \<Rightarrow> bool" where
  "in_order ns \<longleftrightarrow> node_inv (fst ns) \<and> ok (pm_List (nd_pm (fst ns))) (snd ns)"

lemma calls_in_order:
  assumes "node_inv n" and "list_all timers_positive cs" and "ok (pm_List (nd_pm n)) s"
  shows "\<exists>n'. exec_calls now cs n = Inr n' \<and> in_order (n', s) \<and> same_frame n n'"
proof -
  from exec_calls_total [OF assms(1,2)] obtain n' where e: "exec_calls now cs n = Inr n'" "node_inv n'" by blast
  with frame_exec_calls [OF e(1)] assms(3) show ?thesis by (auto simp: in_order_def same_frame_def)
qed

text \<open>A node with such an algorithm never panics, and stays in order.\<close>

lemma step_in_order:
  assumes "in_order (n, s)" and "expects expected ev (n, s)"
  shows "\<exists>n' s'. run_event_step onMessage onTick ev (n, s) = Inr (n', s') \<and> in_order (n', s') \<and> same_frame n n'"
proof (cases ev)
  case (EvRecv now m)
  from assms(1) have n: "node_inv n" and o: "ok (pm_List (nd_pm n)) s" by (simp_all add: in_order_def)
  from recv_one_cases [OF n, of onMessage now m s] show ?thesis
  proof cases
    case (1 n1)
    with o EvRecv show ?thesis by (auto simp: in_order_def same_frame_def)
  next
    case (2 n1)
    have pm: "env_Peers (node_env now n1) = pm_List (nd_pm n)" using 2(2) by (simp add: node_env_def same_frame_def)
    with message_ok [of "node_env now n1" s m] o assms(2) EvRecv obtain s' cs where
      h: "onMessage (node_env now n1) m s = Inr (s', cs)" "ok (pm_List (nd_pm n)) s'" "list_all timers_positive cs"
      by (auto simp: expects_def)
    with calls_in_order [OF 2(1) h(3), of s' now] 2(2) obtain n' where
      "exec_calls now cs n1 = Inr n'" "in_order (n', s')" "same_frame n1 n'" by (auto simp: same_frame_def)
    with 2(2,3) h(1) EvRecv show ?thesis by (auto intro: same_frame_trans)
  qed
next
  case (EvTimer now name)
  from assms(1) have n: "node_inv n" and o: "ok (pm_List (nd_pm n)) s" by (simp_all add: in_order_def)
  with tick_ok [of "node_env now n" s name] obtain s' cs where
    h: "onTick (node_env now n) name s = Inr (s', cs)" "ok (pm_List (nd_pm n)) s'" "list_all timers_positive cs"
    by (auto simp: node_env_def)
  from calls_in_order [OF n h(3,2), of now] h(1) EvTimer show ?thesis by (auto simp: timer_fires_def)
next
  case (EvDrain tr_ok)
  with assms(1) frame_send_drain [of n tr_ok] show ?thesis by (auto simp: in_order_def same_frame_def)
qed

end

section \<open>Gossip\<close>

definition gossip_ok :: "u16 list \<Rightarrow> Gossip \<Rightarrow> bool" where
  "gossip_ok ps a \<longleftrightarrow> 0 < gs_interval a \<and> 0 \<le> gs_fanout a"

lemma gossip_tick_ok:
  assumes "gossip_ok ps a"
  shows "\<exists>a' cs. gossip_OnTick marshal env name a = Inr (a', cs) \<and> gossip_ok ps a' \<and> list_all timers_positive cs"
proof -
  let ?a = "evictSeen (env_Now env) a"
  have o: "gossip_ok ps ?a" "gs_fanout ?a = gs_fanout a" using assms by (simp_all add: evictSeen_def gossip_ok_def)
  have "0 \<le> gs_fanout ?a" using assms by (simp add: gossip_ok_def o(2))
  from sampleN_cases [OF this, of "gs_rng ?a" "env_Peers env"] obtain ts r where
    "sampleN (gs_rng ?a) (env_Peers env) (gs_fanout ?a) = Inr (ts, r)" by metis
  with assms o show ?thesis
    by (auto simp: gossip_OnTick_def gossipRound_def gossip_ok_def list_all_iff split: option.splits)
qed

interpretation gossip_algo: algorithm "\<lambda>now. gossip_Start" "\<lambda>now. gossip_Stop" "gossip_OnMessage gossip_unmarshal"
    "gossip_OnTick gossip_marshal" gossip_ok "\<lambda>ps m a. True"
proof
  fix ps a now
  assume "gossip_ok ps a"
  then show "\<exists>a' cs. gossip_Start a = Inr (a', cs) \<and> gossip_ok ps a' \<and> list_all timers_positive cs"
    "\<exists>a' cs. gossip_Stop a = Inr (a', cs) \<and> gossip_ok ps a' \<and> list_all timers_positive cs"
    by (simp_all add: gossip_Start_def gossip_Stop_def gossip_ok_def)
next
  fix env :: api_env and a m
  assume "gossip_ok (env_Peers env) a"
  then show "\<exists>a' cs. gossip_OnMessage gossip_unmarshal env m a = Inr (a', cs) \<and> gossip_ok (env_Peers env) a' \<and> list_all timers_positive cs"
    by (auto simp: gossip_OnMessage_def gossip_merge_def gossip_ok_def Let_def split: option.splits)
qed (rule gossip_tick_ok)

section \<open>WeakNet\<close>

definition wn_handled :: "go_time \<Rightarrow> wn_result \<Rightarrow> Weaknet handled" where
  "wn_handled now r = (case r of Inl e \<Rightarrow> Inl e | Inr (a, cs) \<Rightarrow> Inr (a, wn_render weaknet_JSON now cs))"

definition wn_ok :: "u16 list \<Rightarrow> Weaknet \<Rightarrow> bool" where
  "wn_ok ps a \<longleftrightarrow> 0 < SyncInterval (wn_cfg a) \<and> 0 < go_quot (RetransmitTimeout (wn_cfg a)) 2 \<and>
     0 < go_quot (PeerStaleDuration (wn_cfg a)) 2 \<and> 0 \<le> Fanout (wn_cfg a)"

fun wn_call_ok :: "wn_call \<Rightarrow> bool" where
  "wn_call_ok (WSetTimer _ d) = (0 < d)"
| "wn_call_ok _ = True"

lemma wn_render_ok: "list_all wn_call_ok cs \<Longrightarrow> list_all timers_positive (wn_render J now cs)"
  by (induction cs rule: wn_render.induct) (auto split: option.splits)

lemma wn_handled_ok:
  assumes "r = Inr (a', cs)" and "wn_cfg a' = wn_cfg a" and "list_all wn_call_ok cs" and "wn_ok ps a"
  shows "\<exists>a' cs. wn_handled now r = Inr (a', cs) \<and> wn_ok ps a' \<and> list_all timers_positive cs"
  using assms by (simp add: wn_handled_def wn_ok_def wn_render_ok)

lemma getPeerStats_cfg: "wn_cfg (snd (getPeerStats p a)) = wn_cfg a"
  by (simp add: getPeerStats_def Let_def split: option.splits)

lemma sendPushPull_ok: "wn_cfg (fst (sendPushPull env p b a)) = wn_cfg a \<and> list_all wn_call_ok (snd (sendPushPull env p b a))"
  using getPeerStats_cfg [of p a] by (simp add: sendPushPull_def Let_def case_prod_beta)

lemma push_loop_ok: "wn_cfg (fst (push_loop env ps a)) = wn_cfg a \<and> list_all wn_call_ok (snd (push_loop env ps a))"
  by (induction ps arbitrary: a) (simp_all add: sendPushPull_ok case_prod_beta Let_def)

lemma handlePushPull_ok:
  "\<exists>a' cs. handlePushPull env frm pp a = Inr (a', cs) \<and> wn_cfg a' = wn_cfg a \<and> list_all wn_call_ok cs"
proof -
  let ?a = "snd (getPeerStats frm (snd (mergeState (pp_Delta pp) a)))"
  have c: "wn_cfg ?a = wn_cfg a" by (simp add: getPeerStats_cfg mergeState_def)
  have "\<exists>a' cs. Inr (sendPushPull env frm True x) = Inr (a', cs) \<and> wn_cfg a' = wn_cfg a \<and> list_all wn_call_ok cs"
    if "wn_cfg x = wn_cfg a" for x using sendPushPull_ok [of env frm True x] that by (cases "sendPushPull env frm True x") simp
  with c show ?thesis by (auto simp: handlePushPull_def Let_def case_prod_beta)
qed

lemma wn_tick_ok:
  assumes "wn_ok ps a"
  shows "\<exists>a' cs. wn_OnTick env name a = Inr (a', cs) \<and> wn_cfg a' = wn_cfg a \<and> list_all wn_call_ok cs"
proof -
  have "0 \<le> Fanout (wn_cfg a)" using assms by (simp add: wn_ok_def)
  from sampleN_cases [OF this, of "wn_rng a" "activePeers (env_Now env) (env_Peers env) a"] obtain ts r where
    s: "sampleN (wn_rng a) (activePeers (env_Now env) (env_Peers env) a) (Fanout (wn_cfg a)) = Inr (ts, r)" by metis
  have "\<exists>a' cs. syncRound env a = Inr (a', cs) \<and> wn_cfg a' = wn_cfg a \<and> list_all wn_call_ok cs"
    using push_loop_ok [of env ts "a\<lparr>wn_rng := r\<rparr>"] s by (cases "push_loop env ts (a\<lparr>wn_rng := r\<rparr>)") (simp add: syncRound_def)
  then show ?thesis
    by (auto simp: wn_OnTick_def retransmitCheck_def purgeStalePeers_def Let_def list_all_iff)
qed

lemma wn_message_ok:
  "\<exists>a' cs. wn_OnMessage J env m a = Inr (a', cs) \<and> wn_cfg a' = wn_cfg a \<and> list_all wn_call_ok cs"
  using handlePushPull_ok by (auto simp: wn_OnMessage_def split: option.splits)

interpretation wn_algo: algorithm "\<lambda>now a. wn_handled now (wn_Start a)" "\<lambda>now a. wn_handled now (wn_Stop a)"
    "\<lambda>env m a. wn_handled (env_Now env) (wn_OnMessage weaknet_JSON env m a)"
    "\<lambda>env name a. wn_handled (env_Now env) (wn_OnTick env name a)" wn_ok "\<lambda>ps m a. True"
proof
  fix ps a now
  assume o: "wn_ok ps a"
  show "\<exists>a' cs. wn_handled now (wn_Start a) = Inr (a', cs) \<and> wn_ok ps a' \<and> list_all timers_positive cs"
    by (rule wn_handled_ok [OF wn_Start_def refl _ o]) (use o in \<open>simp add: wn_ok_def\<close>)
  show "\<exists>a' cs. wn_handled now (wn_Stop a) = Inr (a', cs) \<and> wn_ok ps a' \<and> list_all timers_positive cs"
    by (rule wn_handled_ok [OF wn_Stop_def refl _ o]) simp
next
  fix env :: api_env and a m
  assume "wn_ok (env_Peers env) a"
  with wn_message_ok [of weaknet_JSON env m a] wn_handled_ok
  show "\<exists>a' cs. wn_handled (env_Now env) (wn_OnMessage weaknet_JSON env m a) = Inr (a', cs) \<and> wn_ok (env_Peers env) a' \<and> list_all timers_positive cs"
    by metis
next
  fix env :: api_env and a name
  assume "wn_ok (env_Peers env) a"
  with wn_tick_ok [OF this, of env name] wn_handled_ok
  show "\<exists>a' cs. wn_handled (env_Now env) (wn_OnTick env name a) = Inr (a', cs) \<and> wn_ok (env_Peers env) a' \<and> list_all timers_positive cs"
    by metis
qed

section \<open>Raft\<close>

definition raft_handled :: "go_time \<Rightarrow> raft_result \<Rightarrow> Raft handled" where
  "raft_handled now r = (case r of Inl e \<Rightarrow> Inl e | Inr (a, cs) \<Rightarrow> Inr (a, raft_render raft_JSON now cs))"

definition raft_ok :: "u16 list \<Rightarrow> Raft \<Rightarrow> bool" where
  "raft_ok ps a \<longleftrightarrow> raft_inv \<lparr>env_ID = 0, env_Peers = ps, env_Now = 0\<rparr> a"

text \<open>
  What a Raft node relies on: append replies come from peers and do not claim the largest index, and
  the log does not outgrow 32 bits.
\<close>

definition raft_expected :: "u16 list \<Rightarrow> Message \<Rightarrow> Raft \<Rightarrow> bool" where
  "raft_expected ps m a =
     (if Type m \<noteq> TypeConsensus then True
      else if js_kind raft_JSON (Payload m) = Some kindAppendEntries
      then (case js_appendEntries raft_JSON (Payload m) of
              None \<Rightarrow> True | Some ae \<Rightarrow> length (rlog a) + length (ae_Entries ae) < 2 ^ 32 - 1)
      else if js_kind raft_JSON (Payload m) = Some kindAppendReply
      then (case js_appendReply raft_JSON (Payload m) of
              None \<Rightarrow> True | Some ar \<Rightarrow> From m \<in> set ps \<and> ar_MatchIndex ar \<noteq> - 1)
      else True)"

lemma raft_inv_peers: "raft_inv env a \<longleftrightarrow> raft_ok (env_Peers env) a"
  by (simp add: raft_ok_def raft_inv_def)

lemma raft_render_ok: "list_all call_ok cs \<Longrightarrow> list_all timers_positive (raft_render J now cs)"
  by (induction cs rule: raft_render.induct) auto

lemma raft_handled_ok:
  assumes "fine env r"
  shows "\<exists>a' cs. raft_handled now r = Inr (a', cs) \<and> raft_ok (env_Peers env) a' \<and> list_all timers_positive cs"
  using assms by (auto simp: fine_def raft_handled_def raft_inv_peers raft_render_ok split: sum.splits prod.splits)

lemma raft_message_ok:
  assumes "raft_inv env a" and "raft_expected (env_Peers env) m a"
  shows "fine env (raft_OnMessage raft_JSON env m a)"
proof (cases "Type m \<noteq> TypeConsensus \<or> Payload m = []")
  case True
  with assms(1) show ?thesis by (auto simp: raft_OnMessage_def)
next
  case False
  then show ?thesis
    using assms fine_handleRequestVote [OF assms(1)] fine_handleRequestVoteReply [OF assms(1)]
      fine_handleAppendEntries [OF assms(1)] fine_handleAppendReply [OF assms(1)]
    by (auto simp: raft_OnMessage_def raft_expected_def kindRequestVote_def kindRequestVoteReply_def kindAppendEntries_def
        kindAppendReply_def split: option.splits if_splits)
qed

lemma raft_tick_ok:
  assumes "raft_inv env a"
  shows "fine env (raft_OnTick env name a)"
proof -
  have "fine env (raft_step env (EvTick name) a)"
    by (rule fine_step [OF assms]) (use assms in \<open>simp_all add: raft_inv_def\<close>)
  then show ?thesis by simp
qed

interpretation raft_algo: algorithm "\<lambda>now a. raft_handled now (raft_Start a)" "\<lambda>now a. raft_handled now (raft_Stop a)"
    "\<lambda>env m a. raft_handled (env_Now env) (raft_OnMessage raft_JSON env m a)"
    "\<lambda>env name a. raft_handled (env_Now env) (raft_OnTick env name a)" raft_ok raft_expected
proof
  fix ps a now
  assume o: "raft_ok ps a"
  let ?env = "\<lparr>env_ID = 0, env_Peers = ps, env_Now = 0\<rparr>"
  from o have i: "raft_inv ?env a" by (simp add: raft_ok_def)
  from raft_handled_ok [OF fine_resetElectionTimer [OF i], of now]
  show "\<exists>a' cs. raft_handled now (raft_Start a) = Inr (a', cs) \<and> raft_ok ps a' \<and> list_all timers_positive cs"
    by (simp add: raft_Start_def)
  from i have "fine ?env (raft_Stop a)" by (simp add: raft_Stop_def)
  from raft_handled_ok [OF this, of now]
  show "\<exists>a' cs. raft_handled now (raft_Stop a) = Inr (a', cs) \<and> raft_ok ps a' \<and> list_all timers_positive cs" by simp
next
  fix env :: api_env and a m
  assume "raft_ok (env_Peers env) a" "raft_expected (env_Peers env) m a"
  then show "\<exists>a' cs. raft_handled (env_Now env) (raft_OnMessage raft_JSON env m a) = Inr (a', cs) \<and> raft_ok (env_Peers env) a' \<and> list_all timers_positive cs"
    by (intro raft_handled_ok raft_message_ok) (simp_all add: raft_inv_peers)
next
  fix env :: api_env and a name
  assume "raft_ok (env_Peers env) a"
  then show "\<exists>a' cs. raft_handled (env_Now env) (raft_OnTick env name a) = Inr (a', cs) \<and> raft_ok (env_Peers env) a' \<and> list_all timers_positive cs"
    by (intro raft_handled_ok raft_tick_ok) (simp add: raft_inv_peers)
qed

section \<open>The algorithm the command runs\<close>

text \<open>The interface value of \<open>main\<close>: each method of the interface calls that of the chosen algorithm.\<close>

definition lift_algo :: "('s \<Rightarrow> main_algo) \<Rightarrow> 's handled \<Rightarrow> main_algo handled" where
  "lift_algo C r = (case r of Inl e \<Rightarrow> Inl e | Inr (s, cs) \<Rightarrow> Inr (C s, cs))"

definition algo_Start :: "go_time \<Rightarrow> main_algo \<Rightarrow> main_algo handled" where
  "algo_Start now a =
     (case a of
        RunGossip g \<Rightarrow> lift_algo RunGossip (gossip_Start g)
      | RunRaft r \<Rightarrow> lift_algo RunRaft (raft_handled now (raft_Start r))
      | RunWeaknet w \<Rightarrow> lift_algo RunWeaknet (wn_handled now (wn_Start w)))"

definition algo_Stop :: "go_time \<Rightarrow> main_algo \<Rightarrow> main_algo handled" where
  "algo_Stop now a =
     (case a of
        RunGossip g \<Rightarrow> lift_algo RunGossip (gossip_Stop g)
      | RunRaft r \<Rightarrow> lift_algo RunRaft (raft_handled now (raft_Stop r))
      | RunWeaknet w \<Rightarrow> lift_algo RunWeaknet (wn_handled now (wn_Stop w)))"

definition algo_OnMessage :: "main_algo on_message" where
  "algo_OnMessage env m a =
     (case a of
        RunGossip g \<Rightarrow> lift_algo RunGossip (gossip_OnMessage gossip_unmarshal env m g)
      | RunRaft r \<Rightarrow> lift_algo RunRaft (raft_handled (env_Now env) (raft_OnMessage raft_JSON env m r))
      | RunWeaknet w \<Rightarrow> lift_algo RunWeaknet (wn_handled (env_Now env) (wn_OnMessage weaknet_JSON env m w)))"

definition algo_OnTick :: "main_algo on_tick" where
  "algo_OnTick env name a =
     (case a of
        RunGossip g \<Rightarrow> lift_algo RunGossip (gossip_OnTick gossip_marshal env name g)
      | RunRaft r \<Rightarrow> lift_algo RunRaft (raft_handled (env_Now env) (raft_OnTick env name r))
      | RunWeaknet w \<Rightarrow> lift_algo RunWeaknet (wn_handled (env_Now env) (wn_OnTick env name w)))"

definition algo_ok :: "u16 list \<Rightarrow> main_algo \<Rightarrow> bool" where
  "algo_ok ps a = (case a of RunGossip g \<Rightarrow> gossip_ok ps g | RunRaft r \<Rightarrow> raft_ok ps r | RunWeaknet w \<Rightarrow> wn_ok ps w)"

definition algo_expected :: "u16 list \<Rightarrow> Message \<Rightarrow> main_algo \<Rightarrow> bool" where
  "algo_expected ps m a = (case a of RunRaft r \<Rightarrow> raft_expected ps m r | _ \<Rightarrow> True)"

lemma lift_algo_ok:
  assumes "\<exists>s cs. r = Inr (s, cs) \<and> P s \<and> Q cs" and "\<And>s. algo_ok ps (C s) \<longleftrightarrow> P s"
  shows "\<exists>a cs. lift_algo C r = Inr (a, cs) \<and> algo_ok ps a \<and> Q cs"
  using assms by (auto simp: lift_algo_def)

lemma algo_ok_simps [simp]:
  "algo_ok ps (RunGossip g) = gossip_ok ps g" "algo_ok ps (RunRaft r) = raft_ok ps r" "algo_ok ps (RunWeaknet w) = wn_ok ps w"
  by (simp_all add: algo_ok_def)

lemmas lift_start = gossip_algo.start_ok [THEN lift_algo_ok] raft_algo.start_ok [THEN lift_algo_ok] wn_algo.start_ok [THEN lift_algo_ok]
lemmas lift_stop = gossip_algo.stop_ok [THEN lift_algo_ok] raft_algo.stop_ok [THEN lift_algo_ok] wn_algo.stop_ok [THEN lift_algo_ok]
lemmas lift_message = gossip_algo.message_ok [OF _ TrueI, THEN lift_algo_ok] raft_algo.message_ok [THEN lift_algo_ok]
  wn_algo.message_ok [OF _ TrueI, THEN lift_algo_ok]
lemmas lift_tick = gossip_algo.tick_ok [THEN lift_algo_ok] raft_algo.tick_ok [THEN lift_algo_ok] wn_algo.tick_ok [THEN lift_algo_ok]

interpretation main_algo: algorithm algo_Start algo_Stop algo_OnMessage algo_OnTick algo_ok algo_expected
proof
  fix ps a now
  assume "algo_ok ps a"
  then show "\<exists>a' cs. algo_Start now a = Inr (a', cs) \<and> algo_ok ps a' \<and> list_all timers_positive cs"
    "\<exists>a' cs. algo_Stop now a = Inr (a', cs) \<and> algo_ok ps a' \<and> list_all timers_positive cs"
    by (cases a; simp add: algo_Start_def algo_Stop_def lift_start lift_stop)+
next
  fix env :: api_env and a m
  assume "algo_ok (env_Peers env) a" "algo_expected (env_Peers env) m a"
  then show "\<exists>a' cs. algo_OnMessage env m a = Inr (a', cs) \<and> algo_ok (env_Peers env) a' \<and> list_all timers_positive cs"
    by (cases a) (simp_all add: algo_expected_def algo_OnMessage_def lift_message)
next
  fix env :: api_env and a name
  assume "algo_ok (env_Peers env) a"
  then show "\<exists>a' cs. algo_OnTick env name a = Inr (a', cs) \<and> algo_ok (env_Peers env) a' \<and> list_all timers_positive cs"
    by (cases a) (simp_all add: algo_OnTick_def lift_tick)
qed

end
