(* ===== verification/Go_Float.thy ===== *)
theory Go_Float
  imports Uav_Prelude "HOL-Library.Log_Nat"
begin

text \<open>
  Go's \<open>float64\<close> as the statistics of the metrics use it. A finite float is the rational number it
  stands for; every operation computes exactly and rounds to 53 significant bits, to the nearest
  float and to the one with an even significand in the middle, as IEEE 754 prescribes. Infinities,
  NaNs and the ranges of subnormal and overflowing results are left out: the counters, durations and
  latencies of the code keep all values between \<open>2\<^sup>-\<^sup>1\<^sup>0\<^sup>0\<close> and \<open>2\<^sup>2\<^sup>0\<^sup>0\<close>.
\<close>

section \<open>Rounding\<close>

text \<open>Rounding to an integer, half to even.\<close>

definition rhe :: "rat \<Rightarrow> int" where
  "rhe x = (let f = \<lfloor>x\<rfloor>; d = x - of_int f
     in if d < 1 / 2 then f else if d > 1 / 2 then f + 1 else if even f then f else f + 1)"

text \<open>The exponent of the leading digit of a positive number, in base \<open>b\<close>; in base 2, its binade.\<close>

definition ilog :: "nat \<Rightarrow> rat \<Rightarrow> int" where
  "ilog b x = (let (p, q) = quotient_of x; k = int (floorlog b (nat p)) - int (floorlog b (nat q))
     in if of_nat b powi k \<le> x then k else k - 1)"

abbreviation ilog2 :: "rat \<Rightarrow> int" where
  "ilog2 \<equiv> ilog 2"

definition round64 :: "rat \<Rightarrow> rat" where
  "round64 x = (if x = 0 then 0 else
     let e = ilog2 \<bar>x\<bar> - 52 in of_int (rhe (x / 2 powi e)) * 2 powi e)"

text \<open>Conversion to \<open>int\<close> drops the fraction.\<close>

definition go_trunc :: "rat \<Rightarrow> int" where
  "go_trunc x = (if x \<ge> 0 then \<lfloor>x\<rfloor> else \<lceil>x\<rceil>)"

section \<open>Laws\<close>

lemma rhe_int [simp]: "rhe (of_int n) = n"
  by (simp add: rhe_def)

lemma rhe_bounds: "\<lfloor>x\<rfloor> \<le> rhe x" "rhe x \<le> \<lfloor>x\<rfloor> + 1"
  by (simp_all add: rhe_def Let_def)

lemma rhe_mono:
  assumes "x \<le> y"
  shows "rhe x \<le> rhe y"
proof (cases "\<lfloor>x\<rfloor> = \<lfloor>y\<rfloor>")
  case True
  with assms show ?thesis by (auto simp: rhe_def Let_def)
next
  case False
  with floor_mono [OF assms] have "\<lfloor>x\<rfloor> + 1 \<le> \<lfloor>y\<rfloor>" by simp
  with rhe_bounds [of x] rhe_bounds [of y] show ?thesis by linarith
qed

lemma base_powi_pos: "1 < b \<Longrightarrow> (0 :: rat) < of_nat b powi k"
  by (simp add: zero_less_power_int)

lemma base_powi_add: "1 < b \<Longrightarrow> (of_nat b :: rat) powi k * of_nat b powi l = of_nat b powi (k + l)"
  by (rule power_int_add [symmetric]) simp

lemma powi_pos: "(0 :: rat) < 2 powi k"
  by (simp add: zero_less_power_int)

lemma powi_mono: "k \<le> l \<Longrightarrow> (2 :: rat) powi k \<le> 2 powi l"
  by (rule power_int_increasing) simp_all

lemma powi_add: "(2 :: rat) powi k * 2 powi l = 2 powi (k + l)"
  by (rule power_int_add [symmetric]) simp

lemma floorlog_powi:
  assumes "0 < p" and "1 < b"
  shows "(of_nat b :: rat) powi (int (floorlog b (nat p)) - 1) \<le> of_int p" "of_int p < (of_nat b :: rat) powi int (floorlog b (nat p))"
proof -
  let ?n = "floorlog b (nat p)"
  from assms have bd: "b ^ (?n - 1) \<le> nat p" "nat p < b ^ ?n" using floorlog_bounds [of "nat p" b] by simp_all
  from assms have n: "1 \<le> ?n" by (simp add: floorlog_def)
  have "(of_nat b :: rat) powi int ?n = of_nat (b ^ ?n)" by simp
  moreover have p: "(of_int p :: rat) = of_nat (nat p)" using assms(1) by simp
  ultimately show "of_int p < (of_nat b :: rat) powi int ?n" using bd(2) by (simp only: of_nat_less_iff)
  have "(of_nat b :: rat) powi (int ?n - 1) = of_nat (b ^ (?n - 1))"
    using n by (simp add: of_nat_diff [symmetric] power_int_def nat_diff_distrib)
  with p bd(1) show "(of_nat b :: rat) powi (int ?n - 1) \<le> of_int p" by (simp only: of_nat_le_iff)
qed

lemma ilog:
  assumes "0 < x" and "1 < b"
  shows "of_nat b powi ilog b x \<le> x" and "x < of_nat b powi (ilog b x + 1)"
proof -
  obtain p q where pq: "quotient_of x = (p, q)" by fastforce
  have q: "0 < q" by (rule quotient_of_denom_pos [OF pq])
  have x: "x = of_int p / of_int q" by (rule quotient_of_div [OF pq])
  with assms q have p: "0 < p" by (simp add: zero_less_divide_iff)
  let ?u = "int (floorlog b (nat p))" and ?v = "int (floorlog b (nat q))" and ?b = "of_nat b :: rat"
  note fp = floorlog_powi [OF p assms(2)] and fq = floorlog_powi [OF q assms(2)]
  note pos = base_powi_pos [OF assms(2)] and add = base_powi_add [OF assms(2)]
  have "x * ?b powi (?v - 1) \<le> x * of_int q" using fq(1) assms by simp
  also have "\<dots> = of_int p" using q by (simp add: x)
  also have "\<dots> < ?b powi ?u" by (rule fp(2))
  also have "\<dots> = ?b powi (?u - ?v + 1) * ?b powi (?v - 1)" unfolding add by simp
  finally have up: "x < ?b powi (?u - ?v + 1)" using pos [of "?v - 1"] by simp
  have "?b powi (?u - ?v - 1) * ?b powi ?v = ?b powi (?u - 1)" unfolding add by simp
  also have "\<dots> \<le> x * of_int q" using fp(1) q by (simp add: x)
  also have "\<dots> \<le> x * ?b powi ?v" using fq(2) assms by simp
  finally have low: "?b powi (?u - ?v - 1) \<le> x" using pos [of ?v] by simp
  show "?b powi ilog b x \<le> x" "x < ?b powi (ilog b x + 1)"
    using up low by (simp_all add: ilog_def pq Let_def)
qed

lemma ilog2:
  assumes "0 < x"
  shows "2 powi ilog2 x \<le> x" and "x < 2 powi (ilog2 x + 1)"
  using ilog [OF assms, of 2] by simp_all

lemma ilog2_mono:
  assumes "0 < x" and "x \<le> y"
  shows "ilog2 x \<le> ilog2 y"
proof (rule ccontr)
  assume "\<not> ilog2 x \<le> ilog2 y"
  then have "(2 :: rat) powi (ilog2 y + 1) \<le> 2 powi ilog2 x" by (intro powi_mono) simp
  with ilog2 [of x] ilog2 [of y] assms show False by simp
qed

lemma round64_binade:
  assumes "0 < x"
  shows "2 powi ilog2 x \<le> round64 x" and "round64 x \<le> 2 powi (ilog2 x + 1)"
proof -
  let ?e = "ilog2 x - 52"
  have r: "round64 x = of_int (rhe (x / 2 powi ?e)) * 2 powi ?e" using assms by (simp add: round64_def Let_def)
  have p: "(2 :: rat) powi ilog2 x = of_int (2 ^ 52) * 2 powi ?e" "(2 :: rat) powi (ilog2 x + 1) = of_int (2 ^ 53) * 2 powi ?e"
    using powi_add [of 52 ?e] powi_add [of 53 ?e] by (simp_all add: add.commute)
  have "of_int (2 ^ 52) \<le> x / 2 powi ?e" "x / 2 powi ?e \<le> of_int (2 ^ 53)"
    using ilog2 [OF assms] unfolding p by (simp_all add: pos_le_divide_eq pos_divide_le_eq powi_pos)
  then have "2 ^ 52 \<le> rhe (x / 2 powi ?e)" "rhe (x / 2 powi ?e) \<le> 2 ^ 53"
    using rhe_mono [of "of_int (2 ^ 52)"] rhe_mono [of _ "of_int (2 ^ 53)"] by (metis rhe_int)+
  then have "(of_int (2 ^ 52) :: rat) \<le> of_int (rhe (x / 2 powi ?e))" "of_int (rhe (x / 2 powi ?e)) \<le> (of_int (2 ^ 53) :: rat)"
    by (simp_all only: of_int_le_iff)
  then show "2 powi ilog2 x \<le> round64 x" "round64 x \<le> 2 powi (ilog2 x + 1)"
    unfolding r p by (simp_all only: mult_le_cancel_right_pos [OF powi_pos])
qed

lemma round64_0 [simp]: "round64 0 = 0"
  by (simp add: round64_def)

lemma round64_mono:
  assumes "0 \<le> x" and "x \<le> y"
  shows "round64 x \<le> round64 y"
proof (cases "x = 0")
  case True
  show ?thesis
  proof (cases "y = 0")
    case False
    with assms have "0 < y" by simp
    from round64_binade(1) [OF this] powi_pos [of "ilog2 y"] True show ?thesis by (simp only: round64_0)
  qed (use True in simp)
next
  case False
  with assms have xy: "0 < x" "0 < y" by simp_all
  show ?thesis
  proof (cases "ilog2 x = ilog2 y")
    case True
    let ?e = "ilog2 y - 52"
    have "rhe (x / 2 powi ?e) \<le> rhe (y / 2 powi ?e)"
      using assms(2) by (intro rhe_mono divide_right_mono) (simp_all add: less_imp_le powi_pos)
    with xy True show ?thesis by (simp add: round64_def Let_def mult_right_mono powi_pos less_imp_le)
  next
    case False
    with ilog2_mono [OF xy(1) assms(2)] have "(2 :: rat) powi (ilog2 x + 1) \<le> 2 powi ilog2 y" by (intro powi_mono) simp
    with round64_binade [OF xy(1)] round64_binade [OF xy(2)] show ?thesis by simp
  qed
qed

section \<open>Floats and their neighbourhoods\<close>

text \<open>The binade is determined by its bounds.\<close>

lemma powi_less: "(2 :: rat) powi k < 2 powi l \<Longrightarrow> k < l"
  using powi_mono [of l k] by linarith

lemma ilog2_unique:
  assumes "2 powi k \<le> x" and "x < 2 powi (k + 1)"
  shows "ilog2 x = k"
proof -
  have x: "0 < x" using powi_pos [of k] assms(1) by linarith
  have "(2 :: rat) powi k < 2 powi (ilog2 x + 1)" "(2 :: rat) powi ilog2 x < 2 powi (k + 1)" using ilog2 [OF x] assms by linarith+
  then show ?thesis using powi_less [of k] powi_less [of "ilog2 x"] by force
qed

lemma rhe_minus: "rhe (- x) = - rhe x"
proof (cases "x = of_int \<lfloor>x\<rfloor>")
  case True
  then have "rhe x = \<lfloor>x\<rfloor>" "rhe (- x) = - \<lfloor>x\<rfloor>" using rhe_int [of "\<lfloor>x\<rfloor>"] rhe_int [of "- \<lfloor>x\<rfloor>"] by simp_all
  then show ?thesis by simp
next
  case False
  define f d where fd: "f = \<lfloor>x\<rfloor>" "d = x - of_int f"
  have d: "0 < d" "d < 1" using False unfolding fd by linarith+
  have "\<lfloor>- x\<rfloor> = - f - 1" using d unfolding fd by linarith
  moreover have "- x - of_int (- f - 1) = 1 - d" by (simp add: fd)
  ultimately have "rhe (- x) = (if 1 - d < 1 / 2 then - f - 1 else if 1 - d > 1 / 2 then - f else if even (- f - 1) then - f - 1 else - f)"
    by (simp add: rhe_def Let_def)
  moreover have "rhe x = (if d < 1 / 2 then f else if d > 1 / 2 then f + 1 else if even f then f else f + 1)"
    by (simp add: rhe_def Let_def fd)
  ultimately show ?thesis by auto
qed

lemma round64_minus: "round64 (- x) = - round64 x"
  by (simp add: round64_def Let_def rhe_minus)

text \<open>A number with 53 significant bits is a float.\<close>

lemma round64_exact:
  assumes "0 < M" and "M \<le> 2 ^ 53"
  shows "round64 (of_int M * 2 powi e) = of_int M * 2 powi e"
proof -
  have less: "round64 (of_int M * 2 powi e) = of_int M * 2 powi e" if "0 < M" "M < 2 ^ 53" for M e
  proof -
    let ?x = "of_int M * 2 powi e :: rat" let ?f = "ilog2 ?x - 52"
    have x: "0 < ?x" using that(1) powi_pos [of e] by simp
    have "(of_int M :: rat) < of_int (2 ^ 53)" using that(2) by (simp only: of_int_less_iff)
    then have "?x < of_int (2 ^ 53) * 2 powi e" by (rule mult_strict_right_mono [OF _ powi_pos])
    also have "\<dots> = 2 powi (53 + e)" using powi_add [of 53 e] by simp
    finally have "?x < 2 powi (53 + e)" .
    with ilog2(1) [OF x] have "ilog2 ?x < 53 + e" by (intro powi_less) linarith
    then have "e = ?f + int (nat (e - ?f))" by simp
    then obtain k where k: "e = ?f + int k" ..
    have "(2 :: rat) powi e = 2 ^ k * 2 powi ?f" using powi_add [of "int k" ?f] k by (simp add: add.commute)
    then have "?x / 2 powi ?f = of_int (M * 2 ^ k)" using powi_pos [of ?f] by (simp add: field_simps)
    then have "round64 ?x = of_int (M * 2 ^ k) * 2 powi ?f" using x by (simp add: round64_def Let_def del: of_int_mult)
    also have "\<dots> = ?x" using \<open>2 powi e = _\<close> by simp
    finally show ?thesis .
  qed
  show ?thesis
  proof (cases "M = 2 ^ 53")
    case True
    then have "of_int M * 2 powi e = of_int (2 ^ 52) * (2 :: rat) powi (1 + e)" using powi_add [of 1 e] by simp
    with less [of "2 ^ 52" "1 + e"] show ?thesis by simp
  qed (use less assms in simp)
qed

text \<open>Integers below \<open>2\<^sup>5\<^sup>3\<close> are floats.\<close>

lemma round64_int:
  assumes "0 \<le> n" and "n < 2 ^ 53"
  shows "round64 (of_int n) = of_int n"
  using round64_exact [of n 0] assms by (cases "n = 0") simp_all

lemma round64_parts:
  assumes "0 < x"
  obtains M where "round64 x = of_int M * 2 powi (ilog2 x - 52)" "2 ^ 52 \<le> M" "M \<le> 2 ^ 53"
proof -
  let ?e = "ilog2 x - 52" let ?M = "rhe (x / 2 powi ?e)"
  have r: "round64 x = of_int ?M * 2 powi ?e" using assms by (simp add: round64_def Let_def)
  have p: "(2 :: rat) powi ilog2 x = of_int (2 ^ 52) * 2 powi ?e" "(2 :: rat) powi (ilog2 x + 1) = of_int (2 ^ 53) * 2 powi ?e"
    using powi_add [of 52 ?e] powi_add [of 53 ?e] by (simp_all add: add.commute)
  from round64_binade [OF assms] have "(of_int (2 ^ 52) :: rat) \<le> of_int ?M" "(of_int ?M :: rat) \<le> of_int (2 ^ 53)"
    unfolding p r by (simp_all only: mult_le_cancel_right_pos [OF powi_pos])
  then have "2 ^ 52 \<le> ?M" "?M \<le> 2 ^ 53" by (simp_all only: of_int_le_iff)
  with r show thesis by (rule that)
qed

text \<open>Results of floating-point operations are floats.\<close>

lemma round64_idem [simp]: "round64 (round64 x) = round64 x"
proof -
  have pos: "round64 (round64 x) = round64 x" if "0 < x" for x
  proof -
    from round64_parts [OF that] obtain M where M: "round64 x = of_int M * 2 powi (ilog2 x - 52)" "2 ^ 52 \<le> M" "M \<le> 2 ^ 53" .
    then have "0 < M" by simp
    from round64_exact [OF this M(3)] show ?thesis by (simp only: M(1))
  qed
  consider "x = 0" | "0 < x" | "0 < - x" by linarith
  then show ?thesis
  proof cases
    case 3
    from pos [OF this] show ?thesis by (simp add: round64_minus)
  qed (simp_all add: pos)
qed

text \<open>Whatever is closer to a float than its \<open>2\<^sup>5\<^sup>4\<close>th part is rounded to it.\<close>

lemma rhe_near: "\<bar>y - of_int M\<bar> < 1 / 2 \<Longrightarrow> rhe y = M"
proof (cases "of_int M \<le> y")
  case True
  moreover assume "\<bar>y - of_int M\<bar> < 1 / 2"
  ultimately have "\<lfloor>y\<rfloor> = M" by linarith
  with True \<open>\<bar>y - of_int M\<bar> < 1 / 2\<close> show ?thesis by (simp add: rhe_def)
next
  case False
  moreover assume "\<bar>y - of_int M\<bar> < 1 / 2"
  ultimately have "\<lfloor>y\<rfloor> = M - 1" by linarith
  with False \<open>\<bar>y - of_int M\<bar> < 1 / 2\<close> show ?thesis by (simp add: rhe_def Let_def)
qed

lemma round64_scaled:
  assumes "0 < y" and "\<bar>y - of_int M * 2 powi (ilog2 y - 52)\<bar> < 2 powi (ilog2 y - 53)"
  shows "round64 y = of_int M * 2 powi (ilog2 y - 52)"
proof -
  let ?p = "2 powi (ilog2 y - 52) :: rat"
  have half: "(2 :: rat) powi (ilog2 y - 53) = ?p / 2" using powi_add [of 1 "ilog2 y - 53"] by simp
  have "y / ?p - of_int M = (y - of_int M * ?p) / ?p" using powi_pos [of "ilog2 y - 52"] by (simp add: diff_divide_distrib)
  then have "\<bar>y / ?p - of_int M\<bar> = \<bar>y - of_int M * ?p\<bar> / ?p" using powi_pos [of "ilog2 y - 52"] by (simp add: abs_divide)
  also have "\<dots> < 1 / 2" using assms(2) powi_pos [of "ilog2 y - 52"] unfolding half by (simp add: pos_divide_less_eq)
  finally have "rhe (y / ?p) = M" by (rule rhe_near)
  then show ?thesis using assms(1) by (simp add: round64_def Let_def)
qed

lemma round64_near:
  assumes "0 < x" and "round64 x = x" and "\<bar>y - x\<bar> < x / 2 ^ 54"
  shows "round64 y = x"
proof -
  let ?k = "ilog2 x"
  from round64_parts [OF assms(1)] obtain M where M: "x = of_int M * 2 powi (?k - 52)" "2 ^ 52 \<le> M" "M \<le> 2 ^ 53"
    using assms(2) by metis
  note b = ilog2 [OF assms(1)]
  have "x / 2 ^ 54 < 2 powi (?k + 1) / 2 ^ 54" using b(2) by (simp add: divide_strict_right_mono)
  also have "\<dots> = 2 powi (?k - 53)" using powi_add [of "?k - 53" 54] by (simp add: add.commute)
  finally have d: "\<bar>y - x\<bar> < 2 powi (?k - 53)" using assms(3) by linarith
  have y: "0 < y" using assms(1,3) by (simp add: abs_if field_simps split: if_splits)
  have below: "of_int M * 2 powi (?k - 52) + 2 powi (?k - 52) \<le> (2 :: rat) powi (?k + 1)"
  proof -
    have "(of_int M * 2 powi (?k - 52) :: rat) < of_int (2 ^ 53) * 2 powi (?k - 52)"
      using b(2) powi_add [of 53 "?k - 52"] by (simp add: M(1) [symmetric] add.commute)
    then have "of_int M < (of_int (2 ^ 53) :: rat)" by (simp only: mult_less_cancel_right_pos [OF powi_pos])
    then have "M + 1 \<le> 2 ^ 53" by (simp only: of_int_less_iff)
    then have "(of_int (M + 1) :: rat) \<le> of_int (2 ^ 53)" by (simp only: of_int_le_iff)
    then have "of_int (M + 1) * (2 :: rat) powi (?k - 52) \<le> of_int (2 ^ 53) * 2 powi (?k - 52)" by (simp only: mult_le_cancel_right_pos [OF powi_pos])
    also have "\<dots> = 2 powi (?k + 1)" using powi_add [of 53 "?k - 52"] by (simp add: add.commute)
    finally show ?thesis by (simp add: distrib_right)
  qed
  have half: "(2 :: rat) powi (?k - 53) = 2 powi (?k - 52) / 2" using powi_add [of 1 "?k - 53"] by simp
  have up: "y < 2 powi (?k + 1)" using d below powi_pos [of "?k - 52"] unfolding half M(1) [symmetric] by linarith
  show ?thesis
  proof (cases "2 powi ?k \<le> y")
    case True
    then have "ilog2 y = ?k" using up by (rule ilog2_unique)
    with round64_scaled [OF y, of M] d M(1) show ?thesis by simp
  next
    case False
    have "(2 :: rat) powi ?k = of_int (2 ^ 52) * 2 powi (?k - 52)" using powi_add [of 52 "?k - 52"] by simp
    moreover have "M = 2 ^ 52"
    proof (rule ccontr)
      assume "M \<noteq> 2 ^ 52"
      with M(2) have "2 ^ 52 + 1 \<le> M" by simp
      then have "(of_int (2 ^ 52 + 1) :: rat) \<le> of_int M" by (simp only: of_int_le_iff)
      then have "of_int (2 ^ 52 + 1) * (2 :: rat) powi (?k - 52) \<le> of_int M * 2 powi (?k - 52)" by (simp only: mult_le_cancel_right_pos [OF powi_pos])
      also have "\<dots> = x" by (rule M(1) [symmetric])
      finally have "2 powi ?k + 2 powi (?k - 52) \<le> x" using \<open>(2 :: rat) powi ?k = _\<close> by (simp add: distrib_right)
      with False d powi_pos [of "?k - 52"] show False unfolding half by linarith
    qed
    ultimately have x: "x = 2 powi ?k" using M(1) by simp
    then have d': "x - y < 2 powi (?k - 54)" using assms(3) powi_add [of "?k - 54" 54] by (simp add: abs_if split: if_splits)
    have "(2 :: rat) powi ?k = 2 powi (?k - 1) + 2 powi (?k - 1)" "(2 :: rat) powi (?k - 54) \<le> 2 powi (?k - 1)"
      using powi_add [of 1 "?k - 1"] powi_mono [of "?k - 54" "?k - 1"] by simp_all
    with d' x have "2 powi (?k - 1) \<le> y" by linarith
    moreover from False have "y < 2 powi (?k - 1 + 1)" by simp
    ultimately have l: "ilog2 y = ?k - 1" by (rule ilog2_unique)
    have x2: "x = of_int (2 ^ 53) * 2 powi (ilog2 y - 52)" using x powi_add [of 53 "?k - 53"] by (simp add: l)
    have "y < x" using False x by simp
    with d' have "\<bar>y - x\<bar> < 2 powi (ilog2 y - 53)" unfolding l by simp
    then have "\<bar>y - of_int (2 ^ 53) * 2 powi (ilog2 y - 52)\<bar> < 2 powi (ilog2 y - 53)" by (simp only: x2)
    from round64_scaled [OF y this] show ?thesis by (simp only: x2)
  qed
qed

end
