(* ===== verification/Go_Format.thy ===== *)
theory Go_Format
  imports Go_Text Go_Float
begin

text \<open>
  The formats in which the program prints numbers and times: the verbs \<open>%d\<close>, \<open>%8d\<close>, \<open>%-4d\<close> and \<open>%.nf\<close> of
  \<open>fmt\<close>, RFC 3339 times, and the records of \<open>encoding/csv\<close>. Floats are the rationals of \<open>Go_Float\<close>; the
  offset of the local time zone is an argument.
\<close>

section \<open>Integers\<close>

text \<open>The number a string of digits stands for, in front of which \<open>n\<close> was read.\<close>

fun digits_val :: "nat \<Rightarrow> string \<Rightarrow> nat" where
  "digits_val n [] = n"
| "digits_val n (c # cs) = digits_val (10 * n + (byte c - 48)) cs"

text \<open>Padding with zeros on the left (\<open>appendInt\<close>), with spaces on the left (\<open>%8d\<close>) and on the right (\<open>%-4d\<close>).\<close>

definition pad0 :: "nat \<Rightarrow> nat \<Rightarrow> string" where
  "pad0 w n = replicate (w - length (show_nat n)) (CHR ''0'') @ show_nat n"

definition pad_left :: "nat \<Rightarrow> string \<Rightarrow> string" where
  "pad_left w s = replicate (w - length s) (CHR '' '') @ s"

definition pad_right :: "nat \<Rightarrow> string \<Rightarrow> string" where
  "pad_right w s = s @ replicate (w - length s) (CHR '' '')"

lemma digits_val_append: "digits_val n (s @ t) = digits_val (digits_val n s) t"
  by (induction n s rule: digits_val.induct) simp_all

lemma digits_val_zeros: "digits_val 0 (replicate k (CHR ''0'') @ s) = digits_val 0 s"
  by (induction k) simp_all

lemma digits_val_show [simp]: "digits_val 0 (show_nat n) = n"
proof (induction n rule: show_nat.induct)
  case (1 n)
  then show ?case
    using digit_char [of n] digit_char [of "n mod 10"]
    by (cases "n < 10") (simp_all add: show_nat.simps [of n] digits_val_append)
qed

lemma digits_val_pad0 [simp]: "digits_val 0 (pad0 w n) = n"
  by (simp add: pad0_def digits_val_zeros)

lemma length_show_nat: "n < 10 ^ k \<Longrightarrow> 0 < k \<Longrightarrow> length (show_nat n) \<le> k"
proof (induction n arbitrary: k rule: show_nat.induct)
  case (1 n)
  show ?case
  proof (cases "n < 10")
    case False
    with "1.prems" obtain j where k: "k = Suc j" "0 < j" by (cases k; cases "k - 1") auto
    with "1.prems" have "n div 10 < 10 ^ j" by (simp add: less_mult_imp_div_less mult.commute)
    with "1.IH" [OF False this k(2)] False k show ?thesis by (simp add: show_nat.simps [of n])
  qed (use "1.prems" in \<open>simp add: show_nat.simps [of n]\<close>)
qed

lemma length_pad0: "n < 10 ^ w \<Longrightarrow> 0 < w \<Longrightarrow> length (pad0 w n) = w"
  using length_show_nat [of n w] by (simp add: pad0_def)

lemma show_nat_digits: "\<forall>c \<in> set (show_nat n). is_digit c"
  using show_nat_chars [of _ n] by (auto simp: is_digit_def)

lemma pad0_digits: "\<forall>c \<in> set (pad0 w n). is_digit c"
  using show_nat_digits [of n] by (auto simp: pad0_def is_digit_def)

section \<open>Floats\<close>

text \<open>\<open>%.nf\<close>: the exact decimal value rounded to \<open>n\<close> digits after the point, half to even.\<close>

definition fixed_text :: "nat \<Rightarrow> nat \<Rightarrow> string" where
  "fixed_text prec n = show_nat (n div 10 ^ prec) @ (if prec = 0 then [] else CHR ''.'' # pad0 prec (n mod 10 ^ prec))"

definition show_fixed :: "nat \<Rightarrow> rat \<Rightarrow> string" where
  "show_fixed prec x = (if x < 0 then ''-'' else []) @ fixed_text prec (nat (rhe (\<bar>x\<bar> * 10 ^ prec)))"

text \<open>What such a text stands for.\<close>

definition fixed_abs :: "string \<Rightarrow> rat" where
  "fixed_abs s =
     (let fr = drop 1 (dropWhile is_digit s)
      in of_nat (digits_val 0 (takeWhile is_digit s)) + of_nat (digits_val 0 fr) / 10 ^ length fr)"

definition fixed_val :: "string \<Rightarrow> rat" where
  "fixed_val s = (if s \<noteq> [] \<and> hd s = CHR ''-'' then - fixed_abs (tl s) else fixed_abs s)"

lemma rhe_nonneg: "0 \<le> x \<Longrightarrow> 0 \<le> rhe x"
  using rhe_bounds(1) [of x] by (meson order_trans zero_le_floor)

lemma rhe_close: "\<bar>of_int (rhe x) - x\<bar> \<le> 1 / 2"
proof -
  define d where "d = x - of_int \<lfloor>x\<rfloor>"
  have "0 \<le> d" "d < 1" unfolding d_def by linarith+
  moreover have "of_int (rhe x) - x = (if d < 1 / 2 then - d else if d > 1 / 2 then 1 - d else if even \<lfloor>x\<rfloor> then - d else 1 - d)"
    by (simp add: rhe_def Let_def d_def)
  ultimately show ?thesis by (simp add: abs_if)
qed

lemma digit_not: "is_digit c \<Longrightarrow> c \<noteq> CHR ''-'' \<and> c \<noteq> CHR ''.'' \<and> c \<noteq> CHR '','' \<and> \<not> is_space c"
  by (auto simp: is_digit_def is_space_def)

lemma takeWhile_digits: "\<forall>c \<in> set s. is_digit c \<Longrightarrow> \<not> is_digit c' \<Longrightarrow>
    takeWhile is_digit (s @ c' # t) = s \<and> dropWhile is_digit (s @ c' # t) = c' # t"
  by (simp add: takeWhile_tail dropWhile_append3)

lemma show_nat_span: "takeWhile is_digit (show_nat n) = show_nat n" "dropWhile is_digit (show_nat n) = []"
  using show_nat_digits [of n] by (simp_all add: takeWhile_eq_all_conv dropWhile_eq_Nil_conv)

lemma fixed_abs_text: "fixed_abs (fixed_text prec n) = of_nat n / 10 ^ prec"
proof (cases "prec = 0")
  case True
  then show ?thesis by (simp add: fixed_abs_def fixed_text_def show_nat_span)
next
  case False
  have "\<not> is_digit (CHR ''.'')" by (simp add: is_digit_def)
  note parts = takeWhile_digits [OF show_nat_digits this, of "n div 10 ^ prec" "pad0 prec (n mod 10 ^ prec)"]
  have "length (pad0 prec (n mod 10 ^ prec)) = prec" using False by (intro length_pad0) simp_all
  moreover have "of_nat (n div 10 ^ prec) + of_nat (n mod 10 ^ prec) / 10 ^ prec = (of_nat n / 10 ^ prec :: rat)"
  proof -
    have "(of_nat n :: rat) = of_nat (n div 10 ^ prec * 10 ^ prec + n mod 10 ^ prec)" by (simp only: div_mult_mod_eq)
    also have "\<dots> = of_nat (n div 10 ^ prec) * 10 ^ prec + of_nat (n mod 10 ^ prec)" by (simp only: of_nat_add of_nat_mult of_nat_power of_nat_numeral)
    finally have "(of_nat n :: rat) = of_nat (n div 10 ^ prec) * 10 ^ prec + of_nat (n mod 10 ^ prec)" .
    from arg_cong [OF this, of "\<lambda>y. y / 10 ^ prec"] show ?thesis by (simp add: add_divide_distrib)
  qed
  ultimately show ?thesis using False parts by (simp add: fixed_abs_def fixed_text_def Let_def)
qed

lemma fixed_text_hd: "fixed_text prec n \<noteq> []" "is_digit (hd (fixed_text prec n))"
  using show_nat_digits [of "n div 10 ^ prec"] by (simp_all add: fixed_text_def)

lemma fixed_val_signed: "fixed_val ((if neg then ''-'' else []) @ fixed_text prec n) = (if neg then - 1 else 1) * (of_nat n / 10 ^ prec)"
  using fixed_text_hd [of prec n] digit_not [of "hd (fixed_text prec n)"] by (simp add: fixed_val_def fixed_abs_text)

text \<open>A printed float is off by at most half a unit of its last digit.\<close>

lemma fixed_val_show: "\<bar>fixed_val (show_fixed prec x) - x\<bar> \<le> 1 / 2 / 10 ^ prec"
proof -
  let ?r = "rhe (\<bar>x\<bar> * 10 ^ prec)" and ?p = "10 ^ prec :: rat"
  have r: "of_nat (nat ?r) = (of_int ?r :: rat)" using rhe_nonneg [of "\<bar>x\<bar> * ?p"] by simp
  define y where "y = of_int ?r / ?p"
  have "fixed_val (show_fixed prec x) = (if x < 0 then - 1 else 1) * y"
    unfolding show_fixed_def fixed_val_signed r y_def ..
  moreover have "\<bar>of_int ?r - \<bar>x\<bar> * ?p\<bar> / ?p \<le> 1 / 2 / ?p" using rhe_close by (intro divide_right_mono) simp_all
  moreover have "(of_int ?r - \<bar>x\<bar> * ?p) / ?p = of_int ?r / ?p - \<bar>x\<bar>" by (simp add: diff_divide_distrib)
  then have "\<bar>of_int ?r - \<bar>x\<bar> * ?p\<bar> / ?p = \<bar>y - \<bar>x\<bar>\<bar>" unfolding y_def by (metis abs_divide abs_numeral power_abs)
  ultimately have "fixed_val (show_fixed prec x) = (if x < 0 then - 1 else 1) * y" "\<bar>y - \<bar>x\<bar>\<bar> \<le> 1 / 2 / ?p" by simp_all
  then show ?thesis by (cases "x < 0") (simp_all add: abs_if split: if_splits)
qed

section \<open>Times\<close>

text \<open>The date of a day counted from 1 January of year 1, in the proleptic Gregorian calendar (\<open>absDate\<close>).\<close>

definition isLeap :: "int \<Rightarrow> bool" where
  "isLeap year \<longleftrightarrow> year mod 4 = 0 \<and> (year mod 100 \<noteq> 0 \<or> year mod 400 = 0)"

definition daysBefore :: "int list" where
  "daysBefore = [0, 31, 59, 90, 120, 151, 181, 212, 243, 273, 304, 334, 365]"

text \<open>The year and the day of the year, by cycles of 400, 100, 4 and 1 years.\<close>

definition year_day :: "int \<Rightarrow> int \<times> int" where
  "year_day d =
     (let n400 = d div 146097; d = d - 146097 * n400;
          n100 = d div 36524; n100 = n100 - n100 div 4; d = d - 36524 * n100;
          n4 = d div 1461; d = d - 1461 * n4;
          n1 = d div 365; n1 = n1 - n1 div 4
      in (1 + 400 * n400 + 100 * n100 + 4 * n4 + n1, d - 365 * n1))"

text \<open>The month (from 1) and the day of the month.\<close>

definition month_day :: "int \<Rightarrow> int \<Rightarrow> int \<times> int" where
  "month_day year yday =
     (if isLeap year \<and> yday = 59 then (2, 29)
      else let yday = (if isLeap year \<and> yday > 59 then yday - 1 else yday);
               m = yday div 31; fin = daysBefore ! nat (m + 1)
           in if yday \<ge> fin then (m + 2, yday - fin + 1) else (m + 1, yday - daysBefore ! nat m + 1))"

text \<open>The day a date stands for. The printed date is that of the day it was computed from.\<close>

definition day_number :: "int \<Rightarrow> int \<Rightarrow> int \<Rightarrow> int" where
  "day_number year month day =
     365 * (year - 1) + (year - 1) div 4 - (year - 1) div 100 + (year - 1) div 400 +
     daysBefore ! nat (month - 1) + (if isLeap year \<and> month > 2 then 1 else 0) + day - 1"

lemma div_bounds: "0 < k \<Longrightarrow> k * (x div k) \<le> x \<and> x < k * (x div k) + k" for x k :: int
  using pos_mod_bound [of k x] pos_mod_sign [of k x] mult_div_mod_eq [of k x] by linarith

text \<open>Four periods and a day, as four years make up a leap cycle and four centuries the calendar's period.\<close>

lemma cycle:
  fixes x k :: int
  assumes "0 < k" and "0 \<le> x" and "x \<le> 4 * k" and "n = x div k - x div k div 4"
  shows "0 \<le> n" and "n \<le> 3" and "0 \<le> x - k * n" and "x - k * n < k \<or> n = 3 \<and> x - k * n = k"
proof -
  define q where "q = x div k"
  have b: "k * q \<le> x" "x < k * q + k" using div_bounds [OF assms(1), of x] by (simp_all add: q_def)
  have "0 \<le> q" using assms(1,2) by (simp add: q_def pos_imp_zdiv_nonneg_iff)
  have "k * q \<le> k * 4" using b(1) assms(3) by simp
  then have "q \<le> 4" using assms(1) by simp
  have n: "n = q - q div 4" using assms(4) by (simp add: q_def)
  have "0 \<le> n \<and> n \<le> 3 \<and> 0 \<le> x - k * n \<and> (x - k * n < k \<or> n = 3 \<and> x - k * n = k)"
  proof (cases "q = 4")
    case True
    with n b(1) assms(1,3) show ?thesis by simp
  next
    case False
    with \<open>0 \<le> q\<close> \<open>q \<le> 4\<close> have "q div 4 = 0" by simp
    with n have "n = q" by simp
    with b \<open>0 \<le> q\<close> \<open>q \<le> 4\<close> False show ?thesis by simp
  qed
  then show "0 \<le> n" "n \<le> 3" "0 \<le> x - k * n" "x - k * n < k \<or> n = 3 \<and> x - k * n = k" by simp_all
qed

lemma year_day_number:
  assumes "year_day d = (year, yday)"
  shows "365 * (year - 1) + (year - 1) div 4 - (year - 1) div 100 + (year - 1) div 400 + yday = d"
    and "0 \<le> yday" and "yday < (if isLeap year then 366 else 365)"
proof -
  define n400 d1 n100 d2 n4 d3 n1 where
    n: "n400 = d div 146097" "d1 = d - 146097 * n400" "n100 = d1 div 36524 - d1 div 36524 div 4" "d2 = d1 - 36524 * n100"
      "n4 = d2 div 1461" "d3 = d2 - 1461 * n4" "n1 = d3 div 365 - d3 div 365 div 4"
  have "year_day d = (1 + 400 * n400 + 100 * n100 + 4 * n4 + n1, d3 - 365 * n1)" unfolding year_day_def Let_def n ..
  with assms have y: "year = 1 + 400 * n400 + 100 * n100 + 4 * n4 + n1" and yd: "yday = d3 - 365 * n1" by simp_all
  have d1: "0 \<le> d1" "d1 \<le> 4 * 36524" using div_bounds [of 146097 d] by (simp_all add: n(1,2))
  note c100 = cycle [OF zero_less_numeral d1 n(3), folded n(4)]
  have n4: "0 \<le> n4" "n4 \<le> 24" using div_bounds [of 1461 d2] c100(3,4) by (auto simp: n(5))
  have d3: "0 \<le> d3" "d3 \<le> 4 * 365" using div_bounds [of 1461 d2] by (simp_all add: n(5,6))
  note c1 = cycle [OF zero_less_numeral d3 n(7), folded yd]
  note r = c100(1,2) c1(1,2)
  have "(year - 1) div 4 = 100 * n400 + 25 * n100 + n4" using r y by (intro int_div_pos_eq [where r = n1]) simp_all
  moreover have "(year - 1) div 100 = 4 * n400 + n100" using r n4 y by (intro int_div_pos_eq [where r = "4 * n4 + n1"]) simp_all
  moreover have "(year - 1) div 400 = n400" using r n4 y by (intro int_div_pos_eq [where r = "100 * n100 + 4 * n4 + n1"]) simp_all
  ultimately have q: "(year - 1) div 4 = 100 * n400 + 25 * n100 + n4" "(year - 1) div 100 = 4 * n400 + n100" "(year - 1) div 400 = n400" by simp_all
  show "365 * (year - 1) + (year - 1) div 4 - (year - 1) div 100 + (year - 1) div 400 + yday = d"
    unfolding q unfolding y yd n(6) n(4) n(2) by simp
  show "0 \<le> yday" by (rule c1(3))
  show "yday < (if isLeap year then 366 else 365)"
  proof (cases "n1 = 3 \<and> yday = 365")
    case True
    then have four: "year = 4 * (100 * n400 + 25 * n100 + n4 + 1)" using y by simp
    have "isLeap year"
    proof (cases "n4 = 24")
      case True
      with \<open>n1 = 3 \<and> yday = 365\<close> yd n(6) have "d2 = 36524" using c100(4) by auto
      with c100(4) have "n100 = 3" by simp
      with four True have "year = 400 * (n400 + 1)" by simp
      then show ?thesis by (simp add: isLeap_def mod_mult_left_eq)
    next
      case False
      with n4 four have "year mod 100 = 4 * n4 + 4" by (intro int_mod_pos_eq [where q = "4 * n400 + n100"]) simp_all
      with n4 four show ?thesis by (simp add: isLeap_def)
    qed
    with c1(4) show ?thesis by auto
  qed (use c1(4) in auto)
qed

lemma month_of:
  assumes "0 \<le> y" and "y < 365" and "m = y div 31"
    and "(month, day) = (if y \<ge> daysBefore ! nat (m + 1) then (m + 2, y - daysBefore ! nat (m + 1) + 1) else (m + 1, y - daysBefore ! nat m + 1))"
  shows "month \<in> {1..12} \<and> day \<in> {1..31} \<and> daysBefore ! nat (month - 1) + day - 1 = y \<and> (month > 2 \<longleftrightarrow> y \<ge> 59)"
proof -
  have m: "31 * m \<le> y" "y < 31 * m + 31" using div_bounds [of 31 y] assms(3) by simp_all
  with assms(1,2) have "0 \<le> m" "m \<le> 11" by linarith+
  then have "m = 0 \<or> m = 1 \<or> m = 2 \<or> m = 3 \<or> m = 4 \<or> m = 5 \<or> m = 6 \<or> m = 7 \<or> m = 8 \<or> m = 9 \<or> m = 10 \<or> m = 11" by presburger
  then show ?thesis
    by (elim disjE) (use assms(1,2,4) m in \<open>simp_all add: daysBefore_def split: if_splits\<close>)
qed

theorem date_of_day:
  assumes "year_day d = (year, yday)" and "month_day year yday = (month, day)"
  shows "day_number year month day = d \<and> month \<in> {1..12} \<and> day \<in> {1..31}"
proof -
  note y = year_day_number [OF assms(1)]
  have "daysBefore ! nat (month - 1) + (if isLeap year \<and> month > 2 then 1 else 0) + day - 1 = yday \<and> month \<in> {1..12} \<and> day \<in> {1..31}"
  proof (cases "isLeap year \<and> yday = 59")
    case True
    with assms(2) show ?thesis by (auto simp: month_day_def daysBefore_def)
  next
    case False
    define z where "z = (if isLeap year \<and> yday > 59 then yday - 1 else yday)"
    have z: "0 \<le> z" "z < 365" using y(2,3) False by (auto simp: z_def split: if_splits)
    have "(month, day) = (if z \<ge> daysBefore ! nat (z div 31 + 1) then (z div 31 + 2, z - daysBefore ! nat (z div 31 + 1) + 1)
        else (z div 31 + 1, z - daysBefore ! nat (z div 31) + 1))"
      using assms(2) False by (simp add: month_day_def Let_def z_def [symmetric])
    from month_of [OF z refl this] False show ?thesis by (auto simp: z_def split: if_splits)
  qed
  with y(1) show ?thesis by (simp add: day_number_def)
qed

definition appendInt :: "nat \<Rightarrow> int \<Rightarrow> string" where
  "appendInt w x = (if x < 0 then ''-'' else []) @ pad0 w (nat \<bar>x\<bar>)"

text \<open>The offset of a time zone, in seconds east of Greenwich.\<close>

definition show_zone :: "int \<Rightarrow> string" where
  "show_zone off =
     (if off = 0 then ''Z''
      else let z = go_quot off 60; a = \<bar>z\<bar>
           in (if z < 0 then ''-'' else ''+'') @ appendInt 2 (a div 60) @ '':'' @ appendInt 2 (a mod 60))"

text \<open>Date and time of day, and \<open>Format(time.RFC3339)\<close>.\<close>

definition date_time :: "int \<Rightarrow> string" where
  "date_time sec =
     (let (year, yday) = year_day (sec div 86400); (month, day) = month_day year yday; s = sec mod 86400
      in appendInt 4 year @ ''-'' @ appendInt 2 month @ ''-'' @ appendInt 2 day @ ''T'' @
         appendInt 2 (s div 3600) @ '':'' @ appendInt 2 (s mod 3600 div 60) @ '':'' @ appendInt 2 (s mod 60))"

definition RFC3339 :: "(go_time \<Rightarrow> int) \<Rightarrow> go_time \<Rightarrow> string" where
  "RFC3339 zone t = date_time (t div Second + zone t) @ show_zone (zone t)"

section \<open>CSV\<close>

text \<open>
  \<open>csv.Writer\<close> with a comma. A field is quoted when it contains a separator, a quote or a line break,
  when it starts with a space (of Unicode, here in UTF-8), or when it is a backslash and a point.
\<close>

definition space_runes :: "string list" where
  "space_runes =
     map chars ([[194, 133], [194, 160], [225, 154, 128], [226, 128, 168], [226, 128, 169], [226, 128, 175],
       [226, 129, 159], [227, 128, 128]] @ map (\<lambda>i. [226, 128, i]) [128..<139])"

definition fieldNeedsQuotes :: "string \<Rightarrow> bool" where
  "fieldNeedsQuotes f \<longleftrightarrow> f \<noteq> [] \<and>
     (f = chars [92, 46] \<or> list_ex (\<lambda>c. byte c \<in> {10, 13, 34, 44}) f \<or>
      is_space (hd f) \<or> list_ex (\<lambda>u. take (length u) f = u) space_runes)"

definition csv_field :: "string \<Rightarrow> string" where
  "csv_field f =
     (if fieldNeedsQuotes f
      then chars [34] @ concat (map (\<lambda>c. if byte c = 34 then [c, c] else [c]) f) @ chars [34] else f)"

fun sep_by :: "char \<Rightarrow> string list \<Rightarrow> string" where
  "sep_by c [] = []"
| "sep_by c [s] = s"
| "sep_by c (s # t # us) = s @ c # sep_by c (t # us)"

abbreviation newline :: char where
  "newline \<equiv> CHR 0x0A"

definition csv_record :: "string list \<Rightarrow> string" where
  "csv_record fs = sep_by (CHR '','') (map csv_field fs) @ [newline]"

text \<open>Reading records without quotes: lines, split at commas.\<close>

definition csv_rows :: "string \<Rightarrow> string list list" where
  "csv_rows text = map (split_on (CHR '','')) (butlast (split_on newline text))"

text \<open>Characters that never need a quote.\<close>

definition plain :: "char \<Rightarrow> bool" where
  "plain c \<longleftrightarrow> 33 \<le> byte c \<and> byte c < 127 \<and> byte c \<notin> {34, 44, 92}"

abbreviation plain_row :: "string list \<Rightarrow> bool" where
  "plain_row fs \<equiv> \<forall>f \<in> set fs. \<forall>c \<in> set f. plain c"

lemma plain_separators: "plain c \<Longrightarrow> c \<noteq> CHR '','' \<and> c \<noteq> newline"
  by (auto simp: plain_def)

lemma csv_field_plain:
  assumes "\<forall>c \<in> set f. plain c"
  shows "csv_field f = f"
proof (cases f)
  case (Cons c cs)
  with assms have c: "plain c" by simp
  have "\<not> is_space c" "byte c < 127" using c by (auto simp: plain_def is_space_def)
  moreover from c have "f \<noteq> chars [92, 46]" by (auto simp: Cons chars_def plain_def)
  moreover have "\<not> list_ex (\<lambda>c. byte c \<in> {10, 13, 34, 44}) f" using assms by (auto simp: list_ex_iff plain_def)
  moreover have "take (length u) f \<noteq> u" if "u \<in> set space_runes" for u
  proof
    assume "take (length u) f = u"
    moreover from that have "u \<noteq> []" "127 \<le> byte (hd u)" by (auto simp: space_runes_def chars_def)
    ultimately show False using \<open>byte c < 127\<close> by (cases u) (auto simp: Cons)
  qed
  ultimately show ?thesis by (auto simp: csv_field_def fieldNeedsQuotes_def list_ex_iff Cons)
qed (simp add: csv_field_def fieldNeedsQuotes_def)

lemma split_sep_by: "fs \<noteq> [] \<Longrightarrow> \<forall>f \<in> set fs. c \<notin> set f \<Longrightarrow> split_on c (sep_by c fs) = fs"
  by (induction c fs rule: sep_by.induct) (simp_all add: split_on_none split_on_append)

lemma sep_by_chars: "set (sep_by c fs) \<subseteq> insert c (\<Union>f \<in> set fs. set f)"
  by (induction c fs rule: sep_by.induct) auto

lemma csv_record_plain: "plain_row fs \<Longrightarrow> csv_record fs = sep_by (CHR '','') fs @ [newline]"
proof -
  assume "plain_row fs"
  then have "map csv_field fs = fs" by (simp add: csv_field_plain map_idI)
  then show ?thesis by (simp add: csv_record_def)
qed

lemma csv_line_plain: "plain_row fs \<Longrightarrow> newline \<notin> set (sep_by (CHR '','') fs)"
  using sep_by_chars [of "CHR '',''" fs] plain_separators by fastforce

text \<open>Plain records are read back from the text of a file.\<close>

lemma csv_rows_records:
  assumes "\<forall>fs \<in> set rs. fs \<noteq> [] \<and> plain_row fs"
  shows "csv_rows (concat (map csv_record rs)) = rs"
proof -
  have "split_on newline (concat (map csv_record rs)) = map (sep_by (CHR '','')) rs @ [[]]"
    using assms
  proof (induction rs)
    case (Cons fs rs)
    then have p: "plain_row fs" by simp
    from Cons show ?case by (simp add: csv_record_plain [OF p] split_on_append [OF csv_line_plain [OF p]])
  qed simp
  moreover have "split_on (CHR '','') (sep_by (CHR '','') fs) = fs" if "fs \<in> set rs" for fs
    using assms that plain_separators by (intro split_sep_by) auto
  then have "map (split_on (CHR '','')) (map (sep_by (CHR '','')) rs) = rs" by (simp add: map_idI)
  ultimately show ?thesis by (simp add: csv_rows_def)
qed

lemma csv_rows_nonempty: "newline \<in> set text \<Longrightarrow> csv_rows text \<noteq> []"
proof -
  assume "newline \<in> set text"
  then obtain s t where "text = s @ newline # t" "newline \<notin> set s" by (meson split_list_first)
  then show ?thesis using split_on_nonempty [of newline t] by (simp add: csv_rows_def split_on_append)
qed

text \<open>All numbers and times are plain.\<close>

lemma digit_plain: "is_digit c \<Longrightarrow> plain c"
  by (auto simp: is_digit_def plain_def)

lemma plain_show_nat: "\<forall>c \<in> set (show_nat n). plain c"
  using show_nat_digits [of n] digit_plain by blast

lemma plain_pad0: "\<forall>c \<in> set (pad0 w n). plain c"
  using pad0_digits [of w n] digit_plain by blast

lemma plain_show_fixed: "\<forall>c \<in> set (show_fixed prec x). plain c"
  using plain_show_nat plain_pad0 by (auto simp: show_fixed_def fixed_text_def plain_def)

lemma plain_appendInt: "\<forall>c \<in> set (appendInt w x). plain c"
  using plain_pad0 by (auto simp: appendInt_def plain_def)

lemma plain_RFC3339: "\<forall>c \<in> set (RFC3339 zone t). plain c"
proof -
  have signs: "plain (CHR ''-'')" "plain (CHR ''+'')" "plain (CHR '':'')" "plain (CHR ''T'')" "plain (CHR ''Z'')"
    by (simp_all add: plain_def)
  show ?thesis
    by (simp add: RFC3339_def date_time_def show_zone_def Let_def case_prod_beta ball_Un plain_appendInt signs)
qed

end
