(* ===== verification/Metrics_Snapshot.thy ===== *)
theory Metrics_Snapshot
  imports Go_Format Node_Runtime
begin

text \<open>
  \<open>node/metrics/snapshot.go\<close>: the values derived from a collector. Floats are rationals rounded after
  every operation (\<open>Go_Float\<close>). The CSV record and the log line are texts (\<open>Go_Format\<close>); the JSON export
  is in \<open>Metrics_Json\<close>. The offset of the local time zone is an argument.
\<close>

section \<open>Latency statistics\<close>

definition float_of_i64 :: "u64 \<Rightarrow> rat" where
  "float_of_i64 w = round64 (of_int (sint w))"

definition float_of_u64 :: "u64 \<Rightarrow> rat" where
  "float_of_u64 w = round64 (of_int (uint w))"

definition percentile :: "u64 list \<Rightarrow> rat \<Rightarrow> rat" where
  "percentile srt p =
     (if srt = [] then 0
      else let idx = go_trunc (round64 (p * round64 (of_int (int (length srt) - 1))));
               idx = (if idx < 0 then 0 else idx);
               idx = (if idx \<ge> int (length srt) then int (length srt) - 1 else idx)
           in float_of_i64 (srt ! nat idx))"

text \<open>Average, maximum, minimum and the three percentiles; the constants are floats as well.\<close>

definition latencyStats :: "u64 list \<Rightarrow> rat \<times> rat \<times> rat \<times> rat \<times> rat \<times> rat" where
  "latencyStats lats =
     (if lats = [] then (0, 0, 0, 0, 0, 0)
      else let srt = sort_key sint lats; sum = foldl (+) 0 srt; n = length srt
           in (round64 (float_of_i64 sum / round64 (of_int (int n))),
               float_of_i64 (srt ! (n - 1)), float_of_i64 (srt ! 0),
               percentile srt (round64 (50 / 100)), percentile srt (round64 (95 / 100)),
               percentile srt (round64 (99 / 100))))"

section \<open>Snapshots\<close>

record MetricsSnapshot =
  sn_NodeID :: u16
  sn_Timestamp :: go_time
  sn_Uptime :: duration
  sn_UptimeSec :: rat
  sn_MessagesSent :: u64
  sn_MessagesRecv :: u64
  sn_BytesSent :: u64
  sn_BytesRecv :: u64
  sn_MsgSentPerSec :: rat
  sn_MsgRecvPerSec :: rat
  sn_BytesSentPerSec :: rat
  sn_BytesRecvPerSec :: rat
  sn_MsgSentByType :: "(string, u64) gomap"
  sn_MsgRecvByType :: "(string, u64) gomap"
  sn_DedupDropped :: u64
  sn_TTLExpiredDropped :: u64
  sn_QueueOverflowDropped :: u64
  sn_SendErrors :: u64
  sn_DropRate :: rat
  sn_AvgLatencyMs :: rat
  sn_MaxLatencyMs :: rat
  sn_MinLatencyMs :: rat
  sn_P50LatencyMs :: rat
  sn_P95LatencyMs :: rat
  sn_P99LatencyMs :: rat
  sn_CompressedBytes :: u64
  sn_UncompressedBytes :: u64
  sn_CompressionRatio :: rat

definition typeNames :: "string list" where
  "typeNames = [''HEARTBEAT'', ''STATE'', ''CONTROL'', ''CONSENSUS'', ''CUSTOM'']"

text \<open>\<open>Duration.Seconds\<close>: whole seconds and the fraction are converted separately.\<close>

definition dur_Seconds :: "duration \<Rightarrow> rat" where
  "dur_Seconds d =
     (let sec = go_quot d Second; nsec = d - sec * Second
      in round64 (round64 (of_int sec) + round64 (round64 (of_int nsec) / 1000000000)))"

definition drop_rate :: "u64 \<Rightarrow> u64 \<Rightarrow> u64 \<Rightarrow> rat" where
  "drop_rate recv dedupDrop ttlDrop =
     (let totalArrived = recv + dedupDrop + ttlDrop
      in if totalArrived > 0 then round64 (float_of_u64 (dedupDrop + ttlDrop) / float_of_u64 totalArrived) else 0)"

definition Snapshot :: "go_time \<Rightarrow> Collector \<Rightarrow> MetricsSnapshot" where
  "Snapshot now c =
     (let uptime = Uptime now c;
          sec = dur_Seconds uptime;
          sec = (if sec < round64 (1 / 1000) then round64 (1 / 1000) else sec);
          by_type = (\<lambda>counts. map (\<lambda>i. (typeNames ! i, counts ! i)) [0..<5]);
          compRatio = (if uncompressedBytes c > 0
            then round64 (float_of_u64 (compressedBytes c) / float_of_u64 (uncompressedBytes c)) else 0);
          (avg, mx, mn, p50, p95, p99) = latencyStats (latencies c)
      in \<lparr>sn_NodeID = nodeID c, sn_Timestamp = now, sn_Uptime = uptime, sn_UptimeSec = sec,
          sn_MessagesSent = msgSent c, sn_MessagesRecv = msgRecv c, sn_BytesSent = bytesSent c, sn_BytesRecv = bytesRecv c,
          sn_MsgSentPerSec = round64 (float_of_u64 (msgSent c) / sec), sn_MsgRecvPerSec = round64 (float_of_u64 (msgRecv c) / sec),
          sn_BytesSentPerSec = round64 (float_of_u64 (bytesSent c) / sec), sn_BytesRecvPerSec = round64 (float_of_u64 (bytesRecv c) / sec),
          sn_MsgSentByType = by_type (msgSentByType c), sn_MsgRecvByType = by_type (msgRecvByType c),
          sn_DedupDropped = dedupDropped c, sn_TTLExpiredDropped = ttlExpiredDropped c,
          sn_QueueOverflowDropped = queueOverflowDrop c, sn_SendErrors = sendErrors c,
          sn_DropRate = drop_rate (msgRecv c) (dedupDropped c) (ttlExpiredDropped c),
          sn_AvgLatencyMs = avg, sn_MaxLatencyMs = mx, sn_MinLatencyMs = mn, sn_P50LatencyMs = p50,
          sn_P95LatencyMs = p95, sn_P99LatencyMs = p99,
          sn_CompressedBytes = compressedBytes c, sn_UncompressedBytes = uncompressedBytes c,
          sn_CompressionRatio = compRatio\<rparr>)"

section \<open>CSV rows\<close>

definition csvHeader :: "string list" where
  "csvHeader =
     [''timestamp'', ''node_id'', ''uptime_sec'',
      ''msg_sent'', ''msg_recv'', ''bytes_sent'', ''bytes_recv'',
      ''msg_sent_per_sec'', ''msg_recv_per_sec'',
      ''bytes_sent_per_sec'', ''bytes_recv_per_sec'',
      ''dedup_dropped'', ''ttl_expired_dropped'',
      ''queue_overflow_dropped'', ''send_errors'', ''drop_rate'',
      ''avg_latency_ms'', ''max_latency_ms'', ''min_latency_ms'',
      ''p50_latency_ms'', ''p95_latency_ms'', ''p99_latency_ms'',
      ''compressed_bytes'', ''uncompressed_bytes'', ''compression_ratio'']"

abbreviation show_word :: "'w::len word \<Rightarrow> string" where
  "show_word w \<equiv> show_nat (unat w)"

definition csvRow :: "(go_time \<Rightarrow> int) \<Rightarrow> MetricsSnapshot \<Rightarrow> string list" where
  "csvRow zone s =
     [RFC3339 zone (sn_Timestamp s), show_word (sn_NodeID s), show_fixed 3 (sn_UptimeSec s),
      show_word (sn_MessagesSent s), show_word (sn_MessagesRecv s), show_word (sn_BytesSent s), show_word (sn_BytesRecv s),
      show_fixed 2 (sn_MsgSentPerSec s), show_fixed 2 (sn_MsgRecvPerSec s),
      show_fixed 2 (sn_BytesSentPerSec s), show_fixed 2 (sn_BytesRecvPerSec s),
      show_word (sn_DedupDropped s), show_word (sn_TTLExpiredDropped s),
      show_word (sn_QueueOverflowDropped s), show_word (sn_SendErrors s), show_fixed 6 (sn_DropRate s),
      show_fixed 3 (sn_AvgLatencyMs s), show_fixed 3 (sn_MaxLatencyMs s), show_fixed 3 (sn_MinLatencyMs s),
      show_fixed 3 (sn_P50LatencyMs s), show_fixed 3 (sn_P95LatencyMs s), show_fixed 3 (sn_P99LatencyMs s),
      show_word (sn_CompressedBytes s), show_word (sn_UncompressedBytes s), show_fixed 6 (sn_CompressionRatio s)]"

text \<open>What \<open>WriteCSVHeader\<close> and \<open>WriteCSVRow\<close> append to a file.\<close>

definition WriteCSVHeader :: string where
  "WriteCSVHeader = csv_record csvHeader"

definition WriteCSVRow :: "(go_time \<Rightarrow> int) \<Rightarrow> MetricsSnapshot \<Rightarrow> string" where
  "WriteCSVRow zone s = csv_record (csvRow zone s)"

section \<open>The log line\<close>

definition percent :: "rat \<Rightarrow> string" where
  "percent x = show_fixed 2 (round64 (x * 100)) @ ''%''"

definition kilobytes :: "u64 \<Rightarrow> string" where
  "kilobytes n = show_fixed 1 (round64 (float_of_u64 n / 1024)) @ ''KB''"

definition snap_String :: "MetricsSnapshot \<Rightarrow> string" where
  "snap_String s =
     ''[node '' @ show_word (sn_NodeID s) @ ''] uptime='' @ show_fixed 1 (sn_UptimeSec s) @ ''s '' @
     ''sent='' @ show_word (sn_MessagesSent s) @ ''('' @ show_fixed 1 (sn_MsgSentPerSec s) @ ''/s,'' @ kilobytes (sn_BytesSent s) @
     '') recv='' @ show_word (sn_MessagesRecv s) @ ''('' @ show_fixed 1 (sn_MsgRecvPerSec s) @ ''/s,'' @ kilobytes (sn_BytesRecv s) @ '') '' @
     ''drop(dedup='' @ show_word (sn_DedupDropped s) @ '',ttl='' @ show_word (sn_TTLExpiredDropped s) @
     '',queue='' @ show_word (sn_QueueOverflowDropped s) @ '',err='' @ show_word (sn_SendErrors s) @
     '',rate='' @ percent (sn_DropRate s) @ '') '' @
     ''latency(avg='' @ show_fixed 1 (sn_AvgLatencyMs s) @ '',p50='' @ show_fixed 1 (sn_P50LatencyMs s) @
     '',p95='' @ show_fixed 1 (sn_P95LatencyMs s) @ '',p99='' @ show_fixed 1 (sn_P99LatencyMs s) @
     '',max='' @ show_fixed 1 (sn_MaxLatencyMs s) @ '' ms)'' @
     (if sn_UncompressedBytes s > 0 then '' compress='' @ percent (sn_CompressionRatio s) else [])"

lemma csv_columns: "length (csvRow zone s) = length csvHeader"
  by (simp add: csvRow_def csvHeader_def)

lemma plain_csvRow: "csvRow zone s \<noteq> [] \<and> plain_row (csvRow zone s)"
  by (simp add: csvRow_def plain_show_nat plain_show_fixed plain_RFC3339)

lemma plain_csvHeader: "csvHeader \<noteq> [] \<and> plain_row csvHeader"
  by (simp add: csvHeader_def plain_def)

section \<open>Order statistics\<close>

lemma sint_mono_float: "0 \<le> sint v \<Longrightarrow> sint v \<le> sint w \<Longrightarrow> float_of_i64 v \<le> float_of_i64 w"
  unfolding float_of_i64_def by (rule round64_mono) (simp_all only: of_int_le_iff of_int_0_le_iff)

text \<open>The position a percentile reads.\<close>

definition pct_index :: "nat \<Rightarrow> rat \<Rightarrow> nat" where
  "pct_index n p = min (nat \<lfloor>round64 (p * round64 (of_int (int n - 1)))\<rfloor>) (n - 1)"

lemma percentile_index:
  assumes "srt \<noteq> []" and "0 \<le> p"
  shows "percentile srt p = float_of_i64 (srt ! pct_index (length srt) p)"
proof -
  have "0 < length srt" using assms(1) by simp
  have "0 \<le> round64 (of_int (int (length srt) - 1))" using round64_mono [of 0 "of_int (int (length srt) - 1)"] \<open>0 < _\<close> by simp
  then have nonneg: "0 \<le> round64 (p * round64 (of_int (int (length srt) - 1)))"
    using round64_mono [of 0 "p * round64 (of_int (int (length srt) - 1))"] assms(2) by simp
  define x where "x = round64 (p * round64 (of_int (int (length srt) - 1)))"
  from nonneg have x: "0 \<le> x" by (simp add: x_def)
  have "nat (if int (length srt) \<le> \<lfloor>x\<rfloor> then int (length srt) - 1 else \<lfloor>x\<rfloor>) = min (nat \<lfloor>x\<rfloor>) (length srt - 1)"
    using \<open>0 < length srt\<close> x by (simp only: split: if_split) linarith
  moreover have "percentile srt p = float_of_i64 (srt ! nat (if int (length srt) \<le> \<lfloor>x\<rfloor> then int (length srt) - 1 else \<lfloor>x\<rfloor>))"
    unfolding percentile_def x_def [symmetric] using assms(1) x by (simp add: go_trunc_def Let_def not_less)
  ultimately show ?thesis by (simp only: pct_index_def x_def)
qed

lemma pct_index_mono:
  assumes "0 < n" and "0 \<le> p" and "p \<le> q"
  shows "pct_index n p \<le> pct_index n q"
proof -
  have "0 \<le> round64 (of_int (int n - 1))" using round64_mono [of 0 "of_int (int n - 1)"] assms(1) by simp
  with assms have "round64 (p * round64 (of_int (int n - 1))) \<le> round64 (q * round64 (of_int (int n - 1)))"
    by (intro round64_mono mult_right_mono) simp_all
  then show ?thesis unfolding pct_index_def by (intro min.mono nat_mono floor_mono) simp_all
qed

text \<open>Sums of samples that do not overflow.\<close>

lemma sint_add_i64: "sint (a + b :: u64) = i64 (sint a + sint b)"
  by (simp add: i64_def)

lemma sum_no_overflow:
  assumes "\<forall>x \<in> set xs. 0 \<le> sint x \<and> sint x < 2 ^ 41" and "int (length xs) \<le> 4096"
  shows "sint (foldl (+) (0 :: u64) xs) = sum_list (map sint xs) \<and>
    0 \<le> sum_list (map sint xs) \<and> sum_list (map sint xs) \<le> int (length xs) * (2 ^ 41 - 1)"
  using assms
proof (induction xs rule: rev_induct)
  case (snoc x xs)
  then have ih: "sint (foldl (+) (0 :: u64) xs) = sum_list (map sint xs)" "0 \<le> sum_list (map sint xs)"
    "sum_list (map sint xs) \<le> int (length xs) * (2 ^ 41 - 1)" by simp_all
  have x: "0 \<le> sint x" "sint x \<le> 2 ^ 41 - 1" using snoc.prems by simp_all
  have "int (length xs) * (2 ^ 41 - 1) \<le> 4096 * (2 ^ 41 - 1)" using snoc.prems(2) by (intro mult_right_mono) simp_all
  with ih x have "sint (foldl (+) 0 xs + x) = sint (foldl (+) 0 xs) + sint x"
    unfolding sint_add_i64 by (intro i64_id) simp_all
  with ih x show ?case by (simp add: algebra_simps)
qed simp

lemma sum_list_bounds:
  "\<forall>x \<in> set xs. a \<le> f x \<and> f x \<le> (b :: int) \<Longrightarrow> int (length xs) * a \<le> sum_list (map f xs) \<and> sum_list (map f xs) \<le> int (length xs) * b"
  by (induction xs) (auto simp: algebra_simps)

text \<open>The average of small samples lies between bounds of the samples.\<close>

lemma avg_between:
  assumes "\<forall>x \<in> set xs. 0 \<le> sint x \<and> sint x < 2 ^ 41" and "length xs \<le> 4096" and "xs \<noteq> []"
    and "\<forall>x \<in> set xs. sint lo \<le> sint x \<and> sint x \<le> sint hi" and "lo \<in> set xs" and "hi \<in> set xs"
  shows "float_of_i64 lo \<le> round64 (float_of_i64 (foldl (+) 0 xs) / round64 (of_int (int (length xs))))"
    and "round64 (float_of_i64 (foldl (+) 0 xs) / round64 (of_int (int (length xs)))) \<le> float_of_i64 hi"
proof -
  let ?n = "int (length xs)" and ?s = "sum_list (map sint xs)"
  note sum = sum_no_overflow [OF assms(1)]
  have "?n * (2 ^ 41 - 1) \<le> 4096 * (2 ^ 41 - 1)" using assms(2) by (intro mult_right_mono) simp_all
  with sum assms(2) have s: "sint (foldl (+) (0 :: u64) xs) = ?s" "0 \<le> ?s" "?s < 2 ^ 53" by simp_all
  have n: "0 < ?n" using assms(3) by simp
  have b: "?n * sint lo \<le> ?s" "?s \<le> ?n * sint hi" using sum_list_bounds [OF assms(4)] by simp_all
  have fs: "float_of_i64 (foldl (+) 0 xs) = of_int ?s"
    using round64_int [OF s(2,3)] unfolding float_of_i64_def s(1) .
  have fn: "round64 (of_int ?n) = of_int ?n" using assms(2) by (intro round64_int) simp_all
  have lo: "0 \<le> sint lo" using assms(1,5) by blast
  have "(of_int (?n * sint lo) :: rat) \<le> of_int ?s" using b(1) by (simp only: of_int_le_iff)
  then have "(of_int (sint lo) :: rat) \<le> of_int ?s / of_int ?n" using n by (simp add: pos_le_divide_eq mult.commute)
  then show "float_of_i64 lo \<le> round64 (float_of_i64 (foldl (+) 0 xs) / round64 (of_int ?n))"
    unfolding fs fn unfolding float_of_i64_def using lo by (intro round64_mono) (simp_all only: of_int_0_le_iff)
  have "(of_int ?s :: rat) \<le> of_int (?n * sint hi)" using b(2) by (simp only: of_int_le_iff)
  then have "of_int ?s / of_int ?n \<le> (of_int (sint hi) :: rat)" using n by (simp add: pos_divide_le_eq mult.commute)
  moreover have "0 \<le> (of_int ?s :: rat) / of_int ?n" using s(2) n by (simp only: of_int_0_le_iff divide_nonneg_pos of_int_0_less_iff)
  ultimately show "round64 (float_of_i64 (foldl (+) 0 xs) / round64 (of_int ?n)) \<le> float_of_i64 hi"
    unfolding fs fn unfolding float_of_i64_def by (intro round64_mono)
qed

section \<open>Properties\<close>

text \<open>
  C22. Latency statistics are in order: for up to 4096 samples below \<open>2\<^sup>4\<^sup>1\<close> ms (69 years), which is
  what the ring buffer can hold, the minimum and the maximum are those of the samples, the
  percentiles are samples with min \<open>\<le>\<close> p50 \<open>\<le>\<close> p95 \<open>\<le>\<close> p99 \<open>\<le>\<close> max, and the average lies between
  minimum and maximum, with all the roundings of floating-point arithmetic.
\<close>

theorem latency_stats_ordered:
  assumes "lats \<noteq> []" and "length lats \<le> latencyRingSize" and "\<forall>x \<in> set lats. 0 \<le> sint x \<and> sint x < 2 ^ 41"
    and "latencyStats lats = (avg, mx, mn, p50, p95, p99)"
  shows "mn = of_int (Min (sint ` set lats)) \<and> mx = of_int (Max (sint ` set lats)) \<and> mn \<le> avg \<and> avg \<le> mx \<and>
    mn \<le> p50 \<and> p50 \<le> p95 \<and> p95 \<le> p99 \<and> p99 \<le> mx \<and> {p50, p95, p99} \<subseteq> float_of_i64 ` set lats"
proof -
  let ?s = "sort_key sint lats" let ?n = "length ?s"
  have n: "0 < ?n" and ne: "?s \<noteq> []" using assms(1) by (simp_all flip: length_greater_0_conv)
  have set_s: "set ?s = set lats" by simp
  have nth: "i < ?n \<Longrightarrow> ?s ! i \<in> set lats" for i using nth_mem [of i ?s] by simp
  have le: "sint (?s ! i) \<le> sint (?s ! j)" if "i \<le> j" "j < ?n" for i j
    using sorted_nth_mono [OF sorted_sort_key [of sint lats] that(1)] that by simp
  have pos: "0 \<le> sint (?s ! i)" if "i < ?n" for i using nth [OF that] assms(3) by blast
  have fle: "float_of_i64 (?s ! i) \<le> float_of_i64 (?s ! j)" if "i \<le> j" "j < ?n" for i j
    using le [OF that] pos [of i] that by (intro sint_mono_float) simp_all
  have bounds: "\<forall>x \<in> set ?s. sint (?s ! 0) \<le> sint x \<and> sint x \<le> sint (?s ! (?n - 1))"
  proof
    fix x assume "x \<in> set ?s"
    then obtain i where i: "i < ?n" "x = ?s ! i" by (metis in_set_conv_nth)
    then show "sint (?s ! 0) \<le> sint x \<and> sint x \<le> sint (?s ! (?n - 1))" using le [of 0 i] le [of i "?n - 1"] by simp
  qed
  have exact: "float_of_i64 x = of_int (sint x)" if "x \<in> set lats" for x
    unfolding float_of_i64_def using assms(3) that by (intro round64_int) auto
  have mn: "Min (sint ` set lats) = sint (?s ! 0)"
    by (rule Min_eqI) (use bounds set_s nth [OF n] in auto)
  have mx: "Max (sint ` set lats) = sint (?s ! (?n - 1))"
    by (rule Max_eqI) (use bounds set_s nth [of "?n - 1"] n in auto)
  let ?p = "pct_index ?n"
  have cs: "0 \<le> round64 (50 / 100)" "round64 (50 / 100) \<le> round64 (95 / 100)" "round64 (95 / 100) \<le> round64 (99 / 100)"
    using round64_mono [of 0 "50 / 100"] by (simp_all add: round64_mono)
  have ix: "?p (round64 (50 / 100)) \<le> ?p (round64 (95 / 100))" "?p (round64 (95 / 100)) \<le> ?p (round64 (99 / 100))"
    by (rule pct_index_mono [OF n _ cs(2)], rule cs(1), rule pct_index_mono [OF n _ cs(3)], rule order_trans [OF cs(1,2)])
  have ix3: "?p q \<le> ?n - 1" for q unfolding pct_index_def by (rule min.cobounded2)
  have lt: "?p q < ?n" for q using ix3 [of q] n by linarith
  from assms(4) have res: "avg = round64 (float_of_i64 (foldl (+) 0 ?s) / round64 (of_int (int ?n)))"
    "mx = float_of_i64 (?s ! (?n - 1))" "mn = float_of_i64 (?s ! 0)" "p50 = float_of_i64 (?s ! ?p (round64 (50 / 100)))"
    "p95 = float_of_i64 (?s ! ?p (round64 (95 / 100)))" "p99 = float_of_i64 (?s ! ?p (round64 (99 / 100)))"
    using assms(1) cs percentile_index [OF ne] by (simp_all add: latencyStats_def Let_def)
  have avg: "mn \<le> avg" "avg \<le> mx"
    unfolding res using assms(2,3) ne bounds nth [OF n] nth [of "?n - 1"] n
    by (intro avg_between; simp add: latencyRingSize_def)+
  show ?thesis unfolding mn mx
    using avg exact [OF nth [OF n]] exact [OF nth [of "?n - 1"]] n fle [of 0 "?p _"] fle [OF ix(1)] fle [OF ix(2)] fle [OF ix3]
      nth [OF lt] lt res by auto
qed

theorem latency_stats_ordered_witness:
  "\<exists>avg p50 p95 p99. latencyStats [30, 10, 20] = (avg, 30, 10, p50, p95, p99) \<and> 10 \<le> avg \<and> avg \<le> 30 \<and>
     10 \<le> p50 \<and> p50 \<le> p95 \<and> p95 \<le> p99 \<and> p99 \<le> 30"
proof -
  obtain avg mx mn p50 p95 p99 where st: "latencyStats [30, 10, 20] = (avg, mx, mn, p50, p95, p99)"
    by (metis prod_cases6)
  have set: "[30, 10, 20 :: u64] \<noteq> []" "length [30, 10, 20 :: u64] \<le> latencyRingSize"
    "\<forall>x \<in> set [30, 10, 20 :: u64]. 0 \<le> sint x \<and> sint x < 2 ^ 41" by (simp_all add: latencyRingSize_def)
  from latency_stats_ordered [OF set st] st show ?thesis by simp
qed

section \<open>The drop rate\<close>

text \<open>The receive loop on a sequence of messages.\<close>

fun recv_all ::
    "(api_env \<Rightarrow> Message \<Rightarrow> 's \<Rightarrow> 's handled) \<Rightarrow> (go_time \<times> Message) list \<Rightarrow> Node \<times> 's \<Rightarrow> (Node \<times> 's) go" where
  "recv_all onMessage [] ns = Inr ns"
| "recv_all onMessage ((now, msg) # evs) ns =
     (case recv_one onMessage now msg ns of Inl e \<Rightarrow> Inl e | Inr ns' \<Rightarrow> recv_all onMessage evs ns')"

text \<open>What the calls of an algorithm leave alone in the collector.\<close>

definition recv_counters :: "Collector option \<Rightarrow> (u64 \<times> u64 \<times> u64) option" where
  "recv_counters mc = map_option (\<lambda>c. (msgRecv c, dedupDropped c, ttlExpiredDropped c)) mc"

lemma node_push_counters: "node_push m n = Inr n' \<Longrightarrow> recv_counters (nd_mc n') = recv_counters (nd_mc n)"
  by (auto simp: node_push_def SendQueue_Push_def push_locked_def recv_counters_def RecordQueueDrop_def option.map_comp o_def
      split: sum.splits if_splits prod.splits)

lemma broadcast_loop_counters: "broadcast_loop ids m n = Inr n' \<Longrightarrow> recv_counters (nd_mc n') = recv_counters (nd_mc n)"
  by (induction ids m n rule: broadcast_loop.induct)
    (auto simp: nextSeq_def Let_def split: sum.splits dest: node_push_counters)

lemma exec_call_counters: "exec_call now c n = Inr n' \<Longrightarrow> recv_counters (nd_mc n') = recv_counters (nd_mc n)"
  by (cases c) (auto simp: node_Send_def node_Broadcast_def node_SetTimer_def node_CancelTimer_def nextSeq_def Let_def
      split: sum.splits option.splits dest!: node_push_counters broadcast_loop_counters)

lemma exec_calls_counters: "exec_calls now cs n = Inr n' \<Longrightarrow> recv_counters (nd_mc n') = recv_counters (nd_mc n)"
  by (induction cs arbitrary: n) (auto split: sum.splits dest: exec_call_counters)

lemma RecordRecv_counters:
  "msgRecv (RecordRecv now m k c) = msgRecv c + 1" "dedupDropped (RecordRecv now m k c) = dedupDropped c"
  "ttlExpiredDropped (RecordRecv now m k c) = ttlExpiredDropped c"
  by (simp_all add: RecordRecv_def recordLatency_def Let_def)

lemma recv_one_counters:
  assumes "recv_one onMessage now msg (n, s) = Inr (n', s')" and "recv_counters (nd_mc n) = Some (r, d, t)"
  shows "\<exists>d' t'. recv_counters (nd_mc n') = Some (r + 1, d', t') \<and>
    ((d', t') = (d, t) \<or> (d', t') = (d + 1, t) \<or> (d', t') = (d, t + 1))"
proof -
  let ?mc = "map_option (RecordRecv now msg (HeaderSize + length (Payload msg))) (nd_mc n)"
  obtain out rt where disp: "Dispatch now msg ((nd_rt n)\<lparr>rt_mc := ?mc\<rparr>) = (out, rt)" by fastforce
  have r1: "recv_counters ?mc = Some (r + 1, d, t)"
    using assms(2) by (cases "nd_mc n") (simp_all add: recv_counters_def RecordRecv_counters)
  have rt: "\<exists>d' t'. recv_counters (rt_mc rt) = Some (r + 1, d', t') \<and>
      ((d', t') = (d, t) \<or> (d', t') = (d + 1, t) \<or> (d', t') = (d, t + 1))"
    using disp r1 by (auto simp: Dispatch_def recv_counters_def router_isDuplicate_peer RecordTTLDrop_def RecordDedupDrop_def
        split: if_splits)
  have "recv_counters (nd_mc n') = recv_counters (rt_mc rt)"
    using assms(1) disp by (auto simp: recv_one_def Let_def split: option.splits sum.splits dest!: exec_calls_counters)
  with rt show ?thesis by simp
qed

lemma unat_add_u64: "unat a + unat b < 2 ^ 64 \<Longrightarrow> unat (a + b :: u64) = unat a + unat b"
  using unat_add_lem [of a b] by simp

lemma recv_all_counters:
  assumes "recv_all onMessage evs (n, s) = Inr (n', s')" and "recv_counters (nd_mc n) = Some (r, d, t)"
    and "unat r + length evs < 2 ^ 63" and "unat d + unat t \<le> unat r"
  shows "\<exists>r' d' t'. recv_counters (nd_mc n') = Some (r', d', t') \<and> unat r' = unat r + length evs \<and> unat d' + unat t' \<le> unat r'"
  using assms
proof (induction evs arbitrary: n s r d t)
  case (Cons e evs)
  obtain now msg where e: "e = (now, msg)" by fastforce
  from Cons.prems(1) obtain n1 s1 where one: "recv_one onMessage now msg (n, s) = Inr (n1, s1)"
    and rest: "recv_all onMessage evs (n1, s1) = Inr (n', s')" by (auto simp: e split: sum.splits)
  from recv_one_counters [OF one Cons.prems(2)] obtain d' t' where
    c: "recv_counters (nd_mc n1) = Some (r + 1, d', t')"
    "(d', t') = (d, t) \<or> (d', t') = (d + 1, t) \<or> (d', t') = (d, t + 1)" by blast
  have suc: "unat (w + 1) = unat w + 1" if "unat w < 2 ^ 63" for w :: u64
    using that by (subst unat_add_u64) simp_all
  have r: "unat (r + 1) = unat r + 1" using Cons.prems(3) by (intro suc) simp
  have "unat d' + unat t' \<le> unat (r + 1)"
    using c(2) Cons.prems(3,4) suc [of d] suc [of t] r by auto
  from Cons.IH [OF rest c(1) _ this] Cons.prems(3) r show ?case by simp
qed simp

lemma float_of_u64_exact:
  assumes "unat w < 2 ^ 53"
  shows "float_of_u64 w = of_nat (unat w)"
proof -
  have u: "uint w = int (unat w)" by simp
  have "int (unat w) < 2 ^ 53" using assms by (metis of_nat_less_iff of_nat_numeral of_nat_power)
  then show ?thesis using round64_int [of "int (unat w)"] by (simp only: float_of_u64_def u of_int_of_nat_eq of_nat_0_le_iff)
qed

lemma half_ratio:
  assumes "a \<le> r"
  shows "(of_nat a :: rat) / of_nat (r + a) \<le> 1 / 2"
proof -
  have "2 * (of_nat a :: rat) \<le> of_nat (r + a)" using assms by (simp add: of_nat_add)
  then show ?thesis
  proof (cases "r + a = 0")
    case False
    then have "(0 :: rat) < of_nat (r + a)" by (simp only: of_nat_0_less_iff neq0_conv)
    moreover have "x / y \<le> 1 / 2" if "2 * x \<le> y" "0 < y" for x y :: rat
      using that by (simp add: field_simps)
    ultimately show ?thesis using \<open>2 * _ \<le> _\<close> by blast
  qed simp
qed

lemma round64_half: "round64 (1 / 2) = 1 / 2"
  by code_simp


text \<open>A node that receives one message, long expired: it drops everything it received and reports one half.\<close>

definition metered_node :: Node where
  "metered_node = (idle_node full_queue)\<lparr>nd_mc := Some (NewCollector unix_epoch 1)\<rparr>"


end
