(* ===== verification/Go_Json_Float.thy ===== *)
theory Go_Json_Float
  imports Go_Json_Codec Go_Format
begin

text \<open>
  Floats, signed integers and times in JSON text, and indented text. A float is written with the fewest
  digits that are read back as the same float; the theorem of this theory is that they are.
\<close>

section \<open>Shortest decimals\<close>

text \<open>
  A decimal of \<open>n\<close> digits that is read back as the float \<open>x\<close>: the nearest one, or else the other
  neighbour, which can be needed at a power of two. A decimal is a coefficient and an exponent.
\<close>

definition reads_as :: "rat \<Rightarrow> int \<Rightarrow> int \<Rightarrow> bool" where
  "reads_as x c k \<longleftrightarrow> round64 (of_int c * 10 powi k) = x"

definition near_decimal :: "rat \<Rightarrow> nat \<Rightarrow> (nat \<times> int) option" where
  "near_decimal x n =
     (let k = ilog 10 x - int n + 1; m = x / 10 powi k; c = rhe m;
          other = (if c = \<lfloor>m\<rfloor> then \<lfloor>m\<rfloor> + 1 else \<lfloor>m\<rfloor>)
      in if reads_as x c k then Some (nat c, k)
         else if reads_as x other k then Some (nat other, k) else None)"

fun search :: "(nat \<Rightarrow> 'a option) \<Rightarrow> nat list \<Rightarrow> 'a option" where
  "search f [] = None"
| "search f (n # ns) = (case f n of Some y \<Rightarrow> Some y | None \<Rightarrow> search f ns)"

function strip0 :: "nat \<Rightarrow> int \<Rightarrow> nat \<times> int" where
  "strip0 c k = (if 0 < c \<and> c mod 10 = 0 then strip0 (c div 10) (k + 1) else (c, k))"
  by pat_completeness auto
termination by (relation "measure fst") auto

declare strip0.simps [simp del]

definition shortest :: "rat \<Rightarrow> nat \<times> int" where
  "shortest x = (case search (near_decimal x) [1..<18] of Some (c, k) \<Rightarrow> strip0 c k | None \<Rightarrow> (0, 0))"

section \<open>The text of a float\<close>

text \<open>Positional notation, and the scientific one for very small and very large numbers.\<close>

definition exp_text :: "nat \<Rightarrow> int \<Rightarrow> string" where
  "exp_text c k =
     (let p = length (show_nat c) - 1; e = int p + k
      in fixed_text p c @ ''e'' @ (if e < 0 then ''-'' else ''+'') @ show_nat (nat \<bar>e\<bar>))"

definition float_text :: "rat \<Rightarrow> string" where
  "float_text x =
     (if x = 0 then ''0''
      else let (c, k) = shortest \<bar>x\<bar>
           in (if x < 0 then ''-'' else []) @
              (if \<bar>x\<bar> < round64 (1 / 10 ^ 6) \<or> \<bar>x\<bar> \<ge> 10 ^ 21 then exp_text c k else fixed_text (nat (- k)) (c * 10 ^ nat k)))"

definition json_float :: "rat \<Rightarrow> json" where
  "json_float x = JNum (float_text x)"

definition json_int :: "int \<Rightarrow> json" where
  "json_int i = JNum ((if i < 0 then ''-'' else []) @ show_nat (nat \<bar>i\<bar>))"

text \<open>Reading a number as a float. Numbers beyond the largest float do not occur here.\<close>

definition exp_val :: "string \<Rightarrow> int" where
  "exp_val s =
     (case s of
        [] \<Rightarrow> 0
      | c # r \<Rightarrow> if take 1 r = ''-'' then - int (digits_val 0 (drop 1 r))
                 else if take 1 r = ''+'' then int (digits_val 0 (drop 1 r)) else int (digits_val 0 r))"

definition num_val :: "string \<Rightarrow> rat" where
  "num_val s =
     (let not_e = (\<lambda>c. c \<noteq> CHR ''e'' \<and> c \<noteq> CHR ''E'')
      in fixed_val (takeWhile not_e s) * 10 powi exp_val (dropWhile not_e s))"

definition ParseFloat :: "string \<Rightarrow> rat" where
  "ParseFloat s = round64 (num_val s)"

fun dec_float :: "rat json_decoder" where
  "dec_float (JNum s) old = Some (ParseFloat s)"
| "dec_float JNull old = Some old"
| "dec_float _ old = None"

text \<open>Signed integers of 64 bits (\<open>strconv.ParseInt\<close>).\<close>

fun dec_int :: "int json_decoder" where
  "dec_int (JNum s) old =
     (let neg = (s \<noteq> [] \<and> hd s = CHR ''-'')
      in case ParseUint 64 (if neg then tl s else s) of
           Inl _ \<Rightarrow> None
         | Inr n \<Rightarrow> if neg then (if n \<le> 2 ^ 63 then Some (- int n) else None) else if n < 2 ^ 63 then Some (int n) else None)"
| "dec_int JNull old = Some old"
| "dec_int _ old = None"

section \<open>Seventeen digits are enough\<close>

lemma ten_powi_pos: "(0 :: rat) < 10 powi k"
  by (simp add: zero_less_power_int)

lemma ten_powi_add: "(10 :: rat) powi k * 10 powi l = 10 powi (k + l)"
  by (rule power_int_add [symmetric]) simp

lemma near_decimal_reads: "near_decimal x n = Some (c, k) \<Longrightarrow> 0 < x \<Longrightarrow> reads_as x (int c) k"
proof -
  assume n: "near_decimal x n = Some (c, k)" and x: "0 < x"
  let ?m = "x / 10 powi k"
  have "0 \<le> ?m" using x ten_powi_pos [of k] by simp
  then have "0 \<le> \<lfloor>?m\<rfloor>" "0 \<le> rhe ?m" by (simp_all add: rhe_nonneg)
  with n show ?thesis by (auto simp: near_decimal_def Let_def split: if_splits)
qed

lemma near_decimal_17:
  assumes "0 < x" and "round64 x = x"
  shows "near_decimal x 17 \<noteq> None"
proof -
  define k where "k = ilog 10 x - 16"
  let ?p = "10 powi k :: rat" and ?m = "x / 10 powi k"
  have b: "10 powi ilog 10 x \<le> x" using ilog(1) [OF assms(1), of 10] by simp
  have p: "?p * 10 ^ 16 \<le> x" using b ten_powi_add [of k 16] by (simp add: k_def)
  have "of_int (rhe ?m) * ?p - x = (of_int (rhe ?m) - ?m) * ?p" using ten_powi_pos [of k] by (simp add: left_diff_distrib)
  then have "\<bar>of_int (rhe ?m) * ?p - x\<bar> = \<bar>of_int (rhe ?m) - ?m\<bar> * ?p" using ten_powi_pos [of k] by (simp only: abs_mult abs_of_pos)
  also have "\<dots> \<le> 1 / 2 * ?p" using rhe_close [of ?m] ten_powi_pos [of k] by (intro mult_right_mono) simp_all
  also have "\<dots> \<le> x / (2 * 10 ^ 16)" using p by simp
  also have "\<dots> < x / 2 ^ 54" using assms(1) by (intro divide_strict_left_mono) simp_all
  finally have "round64 (of_int (rhe ?m) * ?p) = x" using round64_near [OF assms] by simp
  then show ?thesis by (simp add: near_decimal_def Let_def reads_as_def k_def)
qed

lemma search_some: "n \<in> set ns \<Longrightarrow> f n \<noteq> None \<Longrightarrow> \<exists>m y. search f ns = Some y \<and> f m = Some y"
  by (induction ns) (auto split: option.splits)

lemma strip0_value: "strip0 c k = (c', k') \<Longrightarrow> 0 < c \<Longrightarrow> (of_nat c' :: rat) * 10 powi k' = of_nat c * 10 powi k \<and> 0 < c'"
proof (induction c k rule: strip0.induct)
  case (1 c k)
  show ?case
  proof (cases "c mod 10 = 0")
    case True
    then obtain d where d: "c = 10 * d" by (metis mod_0_imp_dvd dvdE)
    with "1.prems" have "strip0 (c div 10) (k + 1) = (c', k')" "0 < c div 10" by (simp_all add: strip0.simps [of "10 * d"])
    with "1.IH" True "1.prems"(2) d have "(of_nat c' :: rat) * 10 powi k' = of_nat d * 10 powi (k + 1)" "0 < c'" by simp_all
    then show ?thesis using ten_powi_add [of 1 k] by (simp add: d add.commute)
  qed (use 1 in \<open>simp add: strip0.simps [of c]\<close>)
qed

text \<open>The decimal that is written stands for the float.\<close>

lemma shortest_reads:
  assumes "0 < x" and "round64 x = x" and "shortest x = (c, k)"
  shows "round64 (of_nat c * 10 powi k) = x" and "0 < c"
proof -
  from search_some [of 17 "[1..<18]" "near_decimal x"] near_decimal_17 [OF assms(1,2)] obtain m c0 k0 where
    s: "search (near_decimal x) [1..<18] = Some (c0, k0)" "near_decimal x m = Some (c0, k0)" by auto
  from near_decimal_reads [OF s(2) assms(1)] have r: "round64 (of_nat c0 * 10 powi k0) = x" by (simp add: reads_as_def)
  with assms(1) have "0 < c0" by (cases "c0 = 0") auto
  with strip0_value [of c0 k0 c k] assms(3) s(1) r show "round64 (of_nat c * 10 powi k) = x" "0 < c" by (simp_all add: shortest_def)
qed

section \<open>Reading floats back\<close>

abbreviation sgn_text :: "bool \<Rightarrow> string" where
  "sgn_text neg \<equiv> (if neg then ''-'' else [])"

abbreviation not_e :: "char \<Rightarrow> bool" where
  "not_e \<equiv> (\<lambda>c. c \<noteq> CHR ''e'' \<and> c \<noteq> CHR ''E'')"

lemma fixed_text_chars: "\<forall>c \<in> set (fixed_text p n). is_digit c \<or> c = CHR ''.''"
  using show_nat_digits pad0_digits by (auto simp: fixed_text_def)

lemma fixed_text_not_e: "\<forall>c \<in> set (sgn_text neg @ fixed_text p n). not_e c"
  using fixed_text_chars [of p n] by (auto simp: is_digit_def)

lemma span_not_e:
  "takeWhile not_e (sgn_text neg @ fixed_text p n) = sgn_text neg @ fixed_text p n"
  "dropWhile not_e (sgn_text neg @ fixed_text p n) = []"
  "takeWhile not_e ((sgn_text neg @ fixed_text p n) @ CHR ''e'' # r) = sgn_text neg @ fixed_text p n"
  "dropWhile not_e ((sgn_text neg @ fixed_text p n) @ CHR ''e'' # r) = CHR ''e'' # r"
proof -
  note all = fixed_text_not_e [of neg p n]
  show "takeWhile not_e (sgn_text neg @ fixed_text p n) = sgn_text neg @ fixed_text p n"
    "dropWhile not_e (sgn_text neg @ fixed_text p n) = []"
    using all by (simp_all only: takeWhile_eq_all_conv dropWhile_eq_Nil_conv)
  show "takeWhile not_e ((sgn_text neg @ fixed_text p n) @ CHR ''e'' # r) = sgn_text neg @ fixed_text p n"
    "dropWhile not_e ((sgn_text neg @ fixed_text p n) @ CHR ''e'' # r) = CHR ''e'' # r"
    using all by (simp_all only: takeWhile_append2 dropWhile_append2 Ball_def) simp_all
qed

lemma num_val_fixed: "num_val (sgn_text neg @ fixed_text p n) = (if neg then - 1 else 1) * (of_nat n / 10 ^ p)"
  unfolding num_val_def Let_def span_not_e fixed_val_signed by (simp add: exp_val_def)

lemma exp_val_text: "exp_val (CHR ''e'' # (if e < 0 then ''-'' else ''+'') @ show_nat (nat \<bar>e\<bar>)) = e"
  by (simp add: exp_val_def)

lemma num_val_exp: "num_val (sgn_text neg @ exp_text c k) = (if neg then - 1 else 1) * (of_nat c * 10 powi k)"
proof -
  let ?p = "length (show_nat c) - 1"
  have t: "sgn_text neg @ exp_text c k = (sgn_text neg @ fixed_text ?p c) @
      CHR ''e'' # (if int ?p + k < 0 then ''-'' else ''+'') @ show_nat (nat \<bar>int ?p + k\<bar>)"
    by (simp add: exp_text_def Let_def)
  have "of_nat c / 10 ^ ?p * 10 powi (int ?p + k) = (of_nat c * 10 powi k :: rat)"
    unfolding ten_powi_add [of "int ?p" k, symmetric] by simp
  then show ?thesis unfolding t num_val_def Let_def span_not_e fixed_val_signed exp_val_text by simp
qed

lemma positional_value: "of_nat (c * 10 ^ nat k) / 10 ^ nat (- k) = (of_nat c * 10 powi k :: rat)"
proof (cases "0 \<le> k")
  case True
  then obtain n where k: "k = int n" by (elim nonneg_int_cases)
  then have "nat k = n" "nat (- k) = 0" by simp_all
  then show ?thesis unfolding k by (simp only: power_int_of_nat power_0 of_nat_mult of_nat_power of_nat_numeral div_by_1)
next
  case False
  then obtain n where k: "k = - int n" by (metis nle_le nonpos_int_cases)
  then have "nat k = 0" "nat (- k) = n" by simp_all
  then show ?thesis unfolding k
    by (simp only: power_int_minus power_int_of_nat power_0 mult_1_right divide_inverse)
qed

text \<open>A float is read back from its text.\<close>

lemma ParseFloat_text:
  assumes "round64 x = x"
  shows "ParseFloat (float_text x) = x"
proof (cases "x = 0")
  case True
  have "num_val ''0'' = 0" using num_val_fixed [of False 0 0] by (simp add: fixed_text_def show_nat_0)
  with True show ?thesis by (simp add: float_text_def ParseFloat_def)
next
  case False
  obtain c k where ck: "shortest \<bar>x\<bar> = (c, k)" by fastforce
  have "0 < \<bar>x\<bar>" "round64 \<bar>x\<bar> = \<bar>x\<bar>" using False assms by (simp_all add: abs_if round64_minus)
  from shortest_reads(1) [OF this ck] have r: "round64 (of_nat c * 10 powi k) = \<bar>x\<bar>" .
  have "num_val (float_text x) = (if x < 0 then - 1 else 1) * (of_nat c * 10 powi k)"
    using False num_val_exp [of "x < 0" c k] num_val_fixed [of "x < 0" "nat (- k)" "c * 10 ^ nat k"]
    unfolding positional_value by (simp only: float_text_def ck if_False Let_def prod.case split: if_split) simp
  with r show ?thesis by (cases "x < 0") (simp_all add: ParseFloat_def round64_minus)
qed

section \<open>The lexer accepts them\<close>

definition no_digit :: "string \<Rightarrow> bool" where
  "no_digit r \<longleftrightarrow> r = [] \<or> \<not> is_digit (hd r)"

lemma digits1_all: "ds \<noteq> [] \<Longrightarrow> \<forall>c \<in> set ds. is_digit c \<Longrightarrow> no_digit r \<Longrightarrow> digits1 (ds @ r) = Some (ds, r)"
proof -
  assume ds: "ds \<noteq> []" "\<forall>c \<in> set ds. is_digit c" and r: "no_digit r"
  have "takeWhile is_digit (ds @ r) = ds" "dropWhile is_digit (ds @ r) = r"
    using ds(2) r by (cases r; simp add: no_digit_def takeWhile_append2 dropWhile_append2 takeWhile_eq_all_conv)+
  with ds(1) show ?thesis by (simp add: digits1_def)
qed

lemma num_int_all: "no_digit r \<Longrightarrow> num_int (show_nat n @ r) = Some (show_nat n, r)"
proof (cases "n = 0")
  case False
  assume r: "no_digit r"
  obtain c cs where c: "show_nat n = c # cs" by (cases "show_nat n") simp_all
  with show_nat_hd [of n] False have "c \<noteq> CHR ''0''" by auto
  with digits1_all [OF show_nat_nonempty show_nat_digits r, of n] show ?thesis by (simp add: num_int_def c)
qed (simp add: num_int_def show_nat_0)

lemma num_frac_text:
  assumes "no_digit r" and "r = [] \<or> hd r \<noteq> CHR ''.''"
  shows "num_frac ((if p = 0 then [] else CHR ''.'' # pad0 p n) @ r) = Some (if p = 0 then [] else CHR ''.'' # pad0 p n, r)"
proof (cases "p = 0")
  case True
  with assms show ?thesis by (cases r) (simp_all add: num_frac_def)
next
  case False
  have "pad0 p n \<noteq> []" by (simp add: pad0_def)
  from digits1_all [OF this pad0_digits assms(1)] False show ?thesis by (simp add: num_frac_def)
qed

lemma num_exp_text:
  assumes "num_end r"
  shows "num_exp (CHR ''e'' # (if b then ''-'' else ''+'') @ show_nat n @ r) = Some (CHR ''e'' # (if b then ''-'' else ''+'') @ show_nat n, r)"
proof -
  have "no_digit r" using assms by (auto simp: num_end_def no_digit_def)
  from digits1_all [OF show_nat_nonempty show_nat_digits this, of n] show ?thesis by (simp add: num_exp_def)
qed

lemma num_abs_fixed:
  assumes "num_end r"
  shows "num_abs (fixed_text p n @ r) = Some (fixed_text p n, r)"
proof -
  have r: "no_digit r" "r = [] \<or> hd r \<noteq> CHR ''.''" using assms by (auto simp: num_end_def no_digit_def)
  have "no_digit ((if p = 0 then [] else CHR ''.'' # pad0 p (n mod 10 ^ p)) @ r)" using r(1) by (simp add: no_digit_def is_digit_def)
  note i = num_int_all [OF this, of "n div 10 ^ p"]
  have e: "num_exp r = Some ([], r)" using assms by (cases r) (auto simp: num_exp_def num_end_def)
  show ?thesis unfolding num_abs_def fixed_text_def append_assoc i by (simp add: num_frac_text [OF r] e)
qed

lemma num_abs_exp:
  assumes "num_end r"
  shows "num_abs (exp_text c k @ r) = Some (exp_text c k, r)"
proof -
  let ?p = "length (show_nat c) - 1"
  let ?f = "if ?p = 0 then [] else CHR ''.'' # pad0 ?p (c mod 10 ^ ?p)"
  let ?e = "CHR ''e'' # (if int ?p + k < 0 then ''-'' else ''+'') @ show_nat (nat \<bar>int ?p + k\<bar>)"
  have t: "exp_text c k = show_nat (c div 10 ^ ?p) @ ?f @ ?e" by (simp add: exp_text_def fixed_text_def Let_def)
  have e: "no_digit (?e @ r)" "?e @ r = [] \<or> hd (?e @ r) \<noteq> CHR ''.''" by (simp_all add: no_digit_def is_digit_def)
  have "no_digit (?f @ ?e @ r)" by (simp add: no_digit_def is_digit_def)
  note i = num_int_all [OF this, of "c div 10 ^ ?p"] and f = num_frac_text [OF e, of ?p "c mod 10 ^ ?p"]
  show ?thesis unfolding t num_abs_def append_assoc i prod.case option.case f
    using num_exp_text [OF assms, of "int ?p + k < 0" "nat \<bar>int ?p + k\<bar>"] by simp
qed

lemma num_ok_signed:
  assumes "s \<noteq> []" and "is_digit (hd s)" and "\<And>r. num_end r \<Longrightarrow> num_abs (s @ r) = Some (s, r)"
  shows "num_ok (sgn_text neg @ s)"
proof -
  have "hd s \<noteq> CHR ''-''" using assms(2) by (auto simp: is_digit_def)
  then show ?thesis using assms by (auto simp: num_ok_def lex_num_def)
qed

lemma num_ok_fixed: "num_ok (sgn_text neg @ fixed_text p n)"
  using fixed_text_hd [of p n] num_abs_fixed by (intro num_ok_signed) simp_all

lemma num_ok_exp: "num_ok (sgn_text neg @ exp_text c k)"
proof (rule num_ok_signed)
  show "exp_text c k \<noteq> []" "is_digit (hd (exp_text c k))"
    using fixed_text_hd [of "length (show_nat c) - 1" c] by (simp_all add: exp_text_def Let_def)
qed (rule num_abs_exp)

lemma num_ok_float [simp]: "num_ok (float_text x)"
proof -
  have "num_ok ''0''" using num_ok_show [of 0] by (simp add: show_nat_0)
  moreover obtain c k where "shortest \<bar>x\<bar> = (c, k)" by fastforce
  ultimately show ?thesis using num_ok_fixed [of "x < 0" "nat (- k)" "c * 10 ^ nat k"] num_ok_exp [of "x < 0" c k]
    unfolding float_text_def Let_def by (simp only: prod.case split: if_split) blast
qed

lemma json_writes_float [simp]: "json_writes d (json_float x)"
  by (simp add: json_writes_def nums_ok_def json_float_def)

lemma json_writes_int [simp]: "json_writes d (json_int i)"
  using num_ok_fixed [of "i < 0" 0 "nat \<bar>i\<bar>"] by (simp add: json_writes_def nums_ok_def json_int_def fixed_text_def)

lemma json_norm_num [simp]: "json_norm (json_float x) = json_float x" "json_norm (json_int i) = json_int i"
  by (simp_all add: json_float_def json_int_def)

lemma dec_float_json [simp]: "round64 x = x \<Longrightarrow> dec_float (json_float x) old = Some x"
  by (simp add: json_float_def ParseFloat_text)

lemma dec_int_json [simp]: "- (2 ^ 63) \<le> i \<Longrightarrow> i < 2 ^ 63 \<Longrightarrow> dec_int (json_int i) old = Some i"
proof -
  assume i: "- (2 ^ 63) \<le> i" "i < 2 ^ 63"
  then have n: "nat \<bar>i\<bar> < 2 ^ 64" by (simp add: nat_less_iff abs_if)
  have "hd (show_nat (nat \<bar>i\<bar>)) \<noteq> CHR ''-''"
    using show_nat_digits [of "nat \<bar>i\<bar>"] digit_not [of "hd (show_nat (nat \<bar>i\<bar>))"] by simp
  with i ParseUint_show [OF n] show ?thesis by (auto simp: json_int_def Let_def)
qed

section \<open>Indented text\<close>

text \<open>
  \<open>json.MarshalIndent\<close> with two spaces: a new line after an opening bracket, unless the closing one
  follows, after a comma and before a closing bracket; a space after a colon.
\<close>

definition line_at :: "nat \<Rightarrow> string" where
  "line_at d = newline # replicate (2 * d) (CHR '' '')"

fun indent_from :: "nat \<Rightarrow> bool \<Rightarrow> token list \<Rightarrow> string" where
  "indent_from d needIndent [] = []"
| "indent_from d needIndent (t # ts) =
     (if t = TRBrace \<or> t = TRBrack
      then if needIndent then tok_text t @ indent_from d False ts
           else line_at (d - 1) @ tok_text t @ indent_from (d - 1) False ts
      else let d = (if needIndent then d + 1 else d)
           in (if needIndent then line_at d else []) @ tok_text t @
              (if t = TComma then line_at d else if t = TColon then '' '' else []) @
              indent_from d (t = TLBrace \<or> t = TLBrack) ts)"

definition json_indent :: "json \<Rightarrow> bytes" where
  "json_indent v = string_bytes (indent_from 0 False (toks v))"

lemma lex_ws: "\<forall>c \<in> set w. is_ws c \<Longrightarrow> lex (w @ s) = lex s"
  by (induction w) (simp_all add: lex.simps [of "_ # _"])

lemma line_at_ws: "\<forall>c \<in> set (line_at d). is_ws c" "is_ws (CHR '' '')"
  by (auto simp: line_at_def is_ws_def)

lemma num_end_ws: "w \<noteq> [] \<Longrightarrow> \<forall>c \<in> set w. is_ws c \<Longrightarrow> num_end (w @ r)"
  by (cases w) (auto simp: num_end_def is_ws_def is_digit_def)

lemma num_end_indent:
  assumes "ts = [] \<or> \<not> is_num (hd ts)"
  shows "num_end (indent_from d b ts)"
proof (cases ts)
  case (Cons t us)
  with assms have t: "\<not> is_num t" by simp
  have "line_at k \<noteq> []" for k by (simp add: line_at_def)
  from num_end_ws [OF this line_at_ws(1)] num_end_text [OF t] show ?thesis
    by (auto simp add: Cons Let_def simp del: tok_text.simps)
qed (simp add: num_end_def)

lemma lex_text:
  assumes "\<And>s. t = TNum s \<Longrightarrow> num_ok s \<and> num_end r" and "lex r = Some ts"
  shows "lex (tok_text t @ r) = Some (tok_norm t # ts)"
  using lex_tok_text [of t r, OF assms(1)] assms(2) by (subst lex.simps) simp

lemma lex_indent:
  "successively apart ts \<Longrightarrow> nums_ok ts \<Longrightarrow> lex (indent_from d b ts) = Some (map tok_norm ts)"
proof (induction d b ts rule: indent_from.induct)
  case (1 d b)
  then show ?case by (simp add: lex.simps)
next
  case (2 d b t ts)
  from "2.prems" have ts: "successively apart ts" "nums_ok ts" by (auto simp: successively_Cons nums_ok_def)
  show ?case
  proof (cases "t = TRBrace \<or> t = TRBrack")
    case True
    then have "lex (tok_text t @ r) = Some (tok_norm t # us)" if "lex r = Some us" for r us
      using that by (intro lex_text) auto
    with "2.IH"(1,2) True ts show ?thesis by (auto simp: lex_ws line_at_ws)
  next
    case False
    let ?d = "if b then d + 1 else d" and ?b = "t = TLBrace \<or> t = TLBrack"
    let ?w = "if t = TComma then line_at ?d else if t = TColon then '' '' else []"
    let ?r = "?w @ indent_from ?d ?b ts"
    have w: "\<forall>c \<in> set ?w. is_ws c" using line_at_ws by simp
    have "lex ?r = Some (map tok_norm ts)" unfolding lex_ws [OF w] using "2.IH"(3) False ts by (simp add: Let_def)
    moreover have "num_ok s \<and> num_end ?r" if s: "t = TNum s" for s
    proof -
      have "ts = [] \<or> \<not> is_num (hd ts)" using "2.prems"(1) s by (cases ts) (auto simp: apart_def)
      from num_end_indent [OF this] "2.prems"(2) s show ?thesis by (auto simp: nums_ok_def)
    qed
    ultimately have "lex (tok_text t @ ?r) = Some (tok_norm t # map tok_norm ts)" by (rule lex_text [rotated])
    moreover have "indent_from d b (t # ts) = (if b then line_at ?d else []) @ tok_text t @ ?r" using False by (simp add: Let_def)
    moreover have "lex ((if b then line_at ?d else []) @ u) = lex u" for u by (intro lex_ws) (simp add: line_at_ws)
    ultimately show ?thesis by simp
  qed
qed

text \<open>Indented text is read like compact text.\<close>

lemma json_unmarshal_indent:
  assumes "json_writes d v" and "d \<le> 10000"
  shows "json_unmarshal dec zero (json_indent v) = dec (json_norm v) zero"
proof -
  have "lex (indent_from 0 False (toks v)) = Some (toks (json_norm v))"
    unfolding toks_norm [symmetric] using assms(1) by (intro lex_indent successively_toks) (simp add: json_writes_def)
  with accepts_value [of "[]" "json_norm v"] assms show ?thesis
    by (simp add: json_unmarshal_def json_indent_def parse_json_def depth_def json_writes_def maxNestingDepth_def)
qed

section \<open>Times\<close>

text \<open>
  \<open>Time.MarshalJSON\<close>: RFC 3339 with the fraction of a second, without trailing zeros; an error when the
  year does not have four digits or the offset of the zone is a day or more.
\<close>

definition show_nanos :: "int \<Rightarrow> string" where
  "show_nanos n =
     (if n = 0 then [] else CHR ''.'' # rev (dropWhile (\<lambda>c. c = CHR ''0'') (rev (pad0 9 (nat n)))))"

definition json_time :: "(go_time \<Rightarrow> int) \<Rightarrow> go_time \<Rightarrow> json option" where
  "json_time zone t =
     (let sec = t div Second + zone t; year = fst (year_day (sec div 86400))
      in if year < 0 \<or> 9999 < year \<or> \<bar>go_quot (zone t) 60\<bar> div 60 \<ge> 24 then None
         else Some (JStr (date_time sec @ show_nanos (t mod Second) @ show_zone (zone t))))"

lemma json_writes_time: "json_time zone t = Some v \<Longrightarrow> json_writes d v"
  by (auto simp: json_time_def Let_def split: if_splits)

end
