(* ===== verification/Metrics_Json.thy ===== *)
theory Metrics_Json
  imports Metrics_Snapshot Go_Json_Float
begin

text \<open>
  The JSON export of a snapshot (\<open>ExportJSON\<close> of \<open>node/metrics/snapshot.go\<close>), with the member names of
  the struct tags. Counters and floats are read back exactly.
\<close>

section \<open>Export\<close>

definition json_Snapshot :: "json \<Rightarrow> MetricsSnapshot \<Rightarrow> json" where
  "json_Snapshot timestamp s = JObj
     [(''node_id'', json_uint (sn_NodeID s)), (''timestamp'', timestamp), (''uptime_ns'', json_int (sn_Uptime s)),
      (''uptime_sec'', json_float (sn_UptimeSec s)),
      (''messages_sent'', json_uint (sn_MessagesSent s)), (''messages_recv'', json_uint (sn_MessagesRecv s)),
      (''bytes_sent'', json_uint (sn_BytesSent s)), (''bytes_recv'', json_uint (sn_BytesRecv s)),
      (''msg_sent_per_sec'', json_float (sn_MsgSentPerSec s)), (''msg_recv_per_sec'', json_float (sn_MsgRecvPerSec s)),
      (''bytes_sent_per_sec'', json_float (sn_BytesSentPerSec s)), (''bytes_recv_per_sec'', json_float (sn_BytesRecvPerSec s)),
      (''msg_sent_by_type'', json_map json_uint (sn_MsgSentByType s)), (''msg_recv_by_type'', json_map json_uint (sn_MsgRecvByType s)),
      (''dedup_dropped'', json_uint (sn_DedupDropped s)), (''ttl_expired_dropped'', json_uint (sn_TTLExpiredDropped s)),
      (''queue_overflow_dropped'', json_uint (sn_QueueOverflowDropped s)), (''send_errors'', json_uint (sn_SendErrors s)),
      (''drop_rate'', json_float (sn_DropRate s)),
      (''avg_latency_ms'', json_float (sn_AvgLatencyMs s)), (''max_latency_ms'', json_float (sn_MaxLatencyMs s)),
      (''min_latency_ms'', json_float (sn_MinLatencyMs s)), (''p50_latency_ms'', json_float (sn_P50LatencyMs s)),
      (''p95_latency_ms'', json_float (sn_P95LatencyMs s)), (''p99_latency_ms'', json_float (sn_P99LatencyMs s)),
      (''compressed_bytes'', json_uint (sn_CompressedBytes s)), (''uncompressed_bytes'', json_uint (sn_UncompressedBytes s)),
      (''compression_ratio'', json_float (sn_CompressionRatio s))]"

text \<open>The file that is written, or the error of marshalling. Whether writing succeeds is an argument.\<close>

datatype export_error = ExportMarshal | ExportWrite

definition ExportJSON :: "(go_time \<Rightarrow> int) \<Rightarrow> bool \<Rightarrow> MetricsSnapshot \<Rightarrow> export_error + bytes" where
  "ExportJSON zone write_ok s =
     (case json_time zone (sn_Timestamp s) of
        None \<Rightarrow> Inl ExportMarshal
      | Some t \<Rightarrow> if write_ok then Inr (json_indent (json_Snapshot t s)) else Inl ExportWrite)"

section \<open>Reading an export\<close>

text \<open>A decoder for the same struct; the program has none. The time stamp is skipped.\<close>

definition snap_fields :: "MetricsSnapshot fields" where
  "snap_fields =
     [(''node_id'', fld dec_uint sn_NodeID (\<lambda>x r. r\<lparr>sn_NodeID := x\<rparr>)), (''timestamp'', \<lambda>v r. Some r),
      (''uptime_ns'', fld dec_int sn_Uptime (\<lambda>x r. r\<lparr>sn_Uptime := x\<rparr>)),
      (''uptime_sec'', fld dec_float sn_UptimeSec (\<lambda>x r. r\<lparr>sn_UptimeSec := x\<rparr>)),
      (''messages_sent'', fld dec_uint sn_MessagesSent (\<lambda>x r. r\<lparr>sn_MessagesSent := x\<rparr>)),
      (''messages_recv'', fld dec_uint sn_MessagesRecv (\<lambda>x r. r\<lparr>sn_MessagesRecv := x\<rparr>)),
      (''bytes_sent'', fld dec_uint sn_BytesSent (\<lambda>x r. r\<lparr>sn_BytesSent := x\<rparr>)),
      (''bytes_recv'', fld dec_uint sn_BytesRecv (\<lambda>x r. r\<lparr>sn_BytesRecv := x\<rparr>)),
      (''msg_sent_per_sec'', fld dec_float sn_MsgSentPerSec (\<lambda>x r. r\<lparr>sn_MsgSentPerSec := x\<rparr>)),
      (''msg_recv_per_sec'', fld dec_float sn_MsgRecvPerSec (\<lambda>x r. r\<lparr>sn_MsgRecvPerSec := x\<rparr>)),
      (''bytes_sent_per_sec'', fld dec_float sn_BytesSentPerSec (\<lambda>x r. r\<lparr>sn_BytesSentPerSec := x\<rparr>)),
      (''bytes_recv_per_sec'', fld dec_float sn_BytesRecvPerSec (\<lambda>x r. r\<lparr>sn_BytesRecvPerSec := x\<rparr>)),
      (''msg_sent_by_type'', fld (dec_map dec_uint 0) sn_MsgSentByType (\<lambda>x r. r\<lparr>sn_MsgSentByType := x\<rparr>)),
      (''msg_recv_by_type'', fld (dec_map dec_uint 0) sn_MsgRecvByType (\<lambda>x r. r\<lparr>sn_MsgRecvByType := x\<rparr>)),
      (''dedup_dropped'', fld dec_uint sn_DedupDropped (\<lambda>x r. r\<lparr>sn_DedupDropped := x\<rparr>)),
      (''ttl_expired_dropped'', fld dec_uint sn_TTLExpiredDropped (\<lambda>x r. r\<lparr>sn_TTLExpiredDropped := x\<rparr>)),
      (''queue_overflow_dropped'', fld dec_uint sn_QueueOverflowDropped (\<lambda>x r. r\<lparr>sn_QueueOverflowDropped := x\<rparr>)),
      (''send_errors'', fld dec_uint sn_SendErrors (\<lambda>x r. r\<lparr>sn_SendErrors := x\<rparr>)),
      (''drop_rate'', fld dec_float sn_DropRate (\<lambda>x r. r\<lparr>sn_DropRate := x\<rparr>)),
      (''avg_latency_ms'', fld dec_float sn_AvgLatencyMs (\<lambda>x r. r\<lparr>sn_AvgLatencyMs := x\<rparr>)),
      (''max_latency_ms'', fld dec_float sn_MaxLatencyMs (\<lambda>x r. r\<lparr>sn_MaxLatencyMs := x\<rparr>)),
      (''min_latency_ms'', fld dec_float sn_MinLatencyMs (\<lambda>x r. r\<lparr>sn_MinLatencyMs := x\<rparr>)),
      (''p50_latency_ms'', fld dec_float sn_P50LatencyMs (\<lambda>x r. r\<lparr>sn_P50LatencyMs := x\<rparr>)),
      (''p95_latency_ms'', fld dec_float sn_P95LatencyMs (\<lambda>x r. r\<lparr>sn_P95LatencyMs := x\<rparr>)),
      (''p99_latency_ms'', fld dec_float sn_P99LatencyMs (\<lambda>x r. r\<lparr>sn_P99LatencyMs := x\<rparr>)),
      (''compressed_bytes'', fld dec_uint sn_CompressedBytes (\<lambda>x r. r\<lparr>sn_CompressedBytes := x\<rparr>)),
      (''uncompressed_bytes'', fld dec_uint sn_UncompressedBytes (\<lambda>x r. r\<lparr>sn_UncompressedBytes := x\<rparr>)),
      (''compression_ratio'', fld dec_float sn_CompressionRatio (\<lambda>x r. r\<lparr>sn_CompressionRatio := x\<rparr>))]"

definition dec_Snapshot :: "MetricsSnapshot json_decoder" where
  "dec_Snapshot = dec_struct snap_fields"

definition zero_Snapshot :: MetricsSnapshot where
  "zero_Snapshot =
     \<lparr>sn_NodeID = 0, sn_Timestamp = 0, sn_Uptime = 0, sn_UptimeSec = 0, sn_MessagesSent = 0, sn_MessagesRecv = 0,
      sn_BytesSent = 0, sn_BytesRecv = 0, sn_MsgSentPerSec = 0, sn_MsgRecvPerSec = 0, sn_BytesSentPerSec = 0,
      sn_BytesRecvPerSec = 0, sn_MsgSentByType = [], sn_MsgRecvByType = [], sn_DedupDropped = 0, sn_TTLExpiredDropped = 0,
      sn_QueueOverflowDropped = 0, sn_SendErrors = 0, sn_DropRate = 0, sn_AvgLatencyMs = 0, sn_MaxLatencyMs = 0,
      sn_MinLatencyMs = 0, sn_P50LatencyMs = 0, sn_P95LatencyMs = 0, sn_P99LatencyMs = 0, sn_CompressedBytes = 0,
      sn_UncompressedBytes = 0, sn_CompressionRatio = 0\<rparr>"

section \<open>Exports are read back\<close>

text \<open>All floats of a snapshot are floats: each is the result of a rounding.\<close>

definition floats_of :: "MetricsSnapshot \<Rightarrow> rat list" where
  "floats_of s =
     [sn_UptimeSec s, sn_MsgSentPerSec s, sn_MsgRecvPerSec s, sn_BytesSentPerSec s, sn_BytesRecvPerSec s, sn_DropRate s,
      sn_AvgLatencyMs s, sn_MaxLatencyMs s, sn_MinLatencyMs s, sn_P50LatencyMs s, sn_P95LatencyMs s, sn_P99LatencyMs s,
      sn_CompressionRatio s]"

lemma float_of_i64_float [simp]: "round64 (float_of_i64 w) = float_of_i64 w"
  by (simp add: float_of_i64_def)

lemma percentile_float [simp]: "round64 (percentile srt p) = percentile srt p"
  by (simp add: percentile_def Let_def)

lemma latencyStats_floats:
  "latencyStats lats = (a, mx, mn, p50, p95, p99) \<Longrightarrow>
     round64 a = a \<and> round64 mx = mx \<and> round64 mn = mn \<and> round64 p50 = p50 \<and> round64 p95 = p95 \<and> round64 p99 = p99"
  by (auto simp: latencyStats_def Let_def split: if_splits)

lemma Snapshot_floats: "\<forall>x \<in> set (floats_of (Snapshot now c)). round64 x = x"
proof -
  obtain a mx mn p50 p95 p99 where l: "latencyStats (latencies c) = (a, mx, mn, p50, p95, p99)" by (metis prod_cases6)
  from latencyStats_floats [OF l] show ?thesis
    by (simp add: floats_of_def Snapshot_def Let_def l dur_Seconds_def drop_rate_def)
qed

lemma Uptime_range: "- (2 ^ 63) \<le> Uptime now c" "Uptime now c < 2 ^ 63"
  by (simp_all add: Uptime_def time_Sub_def)

lemma snap_fields_distinct: "distinct (map fst snap_fields)"
  unfolding snap_fields_def list.map fst_conv by code_simp

lemma json_writes_Snapshot: "(\<And>d. json_writes d t) \<Longrightarrow> json_writes 2 (json_Snapshot t s)"
proof -
  assume t: "\<And>d. json_writes d t"
  have m: "json_writes 1 (json_map json_uint (m :: (string, u64) gomap))" for m
    unfolding One_nat_def by (rule json_writes_map) simp
  show ?thesis unfolding json_Snapshot_def numeral_2_eq_2 by (rule json_writes_obj) (use t m in auto)
qed

lemma dec_json_Snapshot:
  assumes "\<forall>x \<in> set (floats_of s). round64 x = x" and "- (2 ^ 63) \<le> sn_Uptime s" and "sn_Uptime s < 2 ^ 63"
    and "dec_map dec_uint 0 (json_norm (json_map json_uint (sn_MsgSentByType s))) [] = Some sent"
    and "dec_map dec_uint 0 (json_norm (json_map json_uint (sn_MsgRecvByType s))) [] = Some recv"
  shows "dec_Snapshot (json_norm (json_Snapshot t s)) zero_Snapshot =
    Some (s\<lparr>sn_Timestamp := 0, sn_MsgSentByType := sent, sn_MsgRecvByType := recv\<rparr>)"
proof -
  obtain ms where ms: "json_norm (json_Snapshot t s) = JObj ms" "map fst ms = map fst snap_fields"
    "map snd ms = map json_norm (case json_Snapshot t s of JObj ms \<Rightarrow> map snd ms)"
    by (simp add: json_Snapshot_def snap_fields_def)
  show ?thesis unfolding dec_Snapshot_def ms(1) dec_struct_in_order [OF snap_fields_distinct ms(2)] ms(3)
    using assms by (simp add: json_Snapshot_def snap_fields_def zero_Snapshot_def floats_of_def)
qed

lemma by_type_json:
  fixes counts :: "u64 list"
  defines "m \<equiv> map (\<lambda>i. (typeNames ! i, counts ! i)) [0..<5]"
  shows "dec_map dec_uint 0 (json_norm (json_map json_uint m)) [] = Some (sort_key fst m)"
proof (rule dec_map_json)
  show "gm_ok m" by (simp add: m_def typeNames_def upt_rec)
  show "valid_utf8 k \<and> dec_uint (json_norm (json_uint v)) 0 = Some v" if "(k, v) \<in> set m" for k v
    using that by (auto simp: m_def typeNames_def upt_rec valid_ascii)
qed

section \<open>Properties\<close>


end
