(* ===== verification/Metrics_Reporter.thy ===== *)
theory Metrics_Reporter
  imports Metrics_Json "HOL-Library.Sublist"
begin

text \<open>
  \<open>node/metrics/reporter.go\<close>: periodic snapshots written to the log and appended to a CSV file, and the
  summary table. A file is its text; whether opening it and reading its size succeed is an argument,
  as is the offset of the local time zone. The log is the list of the texts given to a logger, with the
  logger that got them (a number, 0 for the default one); a logger adds a prefix and the time of day. The text of
  an operating-system error is left out.
\<close>

section \<open>State and operations\<close>

datatype rep_log = LogSummary string | LogOpenError

record rep_world =
  rw_csv :: string
  rw_log :: "(nat \<times> rep_log) list"

abbreviation log_to :: "nat \<Rightarrow> rep_log \<Rightarrow> rep_world \<Rightarrow> rep_world" where
  "log_to lg l w \<equiv> w\<lparr>rw_log := rw_log w @ [(lg, l)]\<rparr>"

abbreviation csv_append :: "string \<Rightarrow> rep_world \<Rightarrow> rep_world" where
  "csv_append t w \<equiv> w\<lparr>rw_csv := rw_csv w @ t\<rparr>"

record Reporter =
  rp_interval :: duration
  rp_logger :: nat
  rp_csvPath :: string
  rp_csvFile :: bool   \<comment> \<open>whether the field is set\<close>
  rp_fileClosed :: bool   \<comment> \<open>whether the file behind it was closed\<close>
  rp_stopClosed :: bool

type_synonym ReporterOption = "Reporter \<Rightarrow> Reporter"

definition WithCSVOutput :: "string \<Rightarrow> ReporterOption" where
  "WithCSVOutput path r = r\<lparr>rp_csvPath := path\<rparr>"

definition WithLogger :: "nat \<Rightarrow> ReporterOption" where
  "WithLogger l r = r\<lparr>rp_logger := l\<rparr>"

definition NewReporter :: "duration \<Rightarrow> ReporterOption list \<Rightarrow> Reporter" where
  "NewReporter interval opts =
     foldl (\<lambda>r opt. opt r) \<lparr>rp_interval = interval, rp_logger = 0, rp_csvPath = [], rp_csvFile = False, rp_fileClosed = False, rp_stopClosed = False\<rparr> opts"

text \<open>
  \<open>open_ok\<close>: the file can be opened (it is created when missing); \<open>stat_ok\<close>: its size can be read.
  Writing to a closed file fails, and the error is ignored.
\<close>

record rep_os =
  os_zone :: "go_time \<Rightarrow> int"
  os_open :: bool
  os_stat :: bool

definition appendCSV :: "rep_os \<Rightarrow> MetricsSnapshot \<Rightarrow> Reporter \<times> rep_world \<Rightarrow> Reporter \<times> rep_world" where
  "appendCSV os snap s =
     (case s of (r, w) \<Rightarrow>
        let row = WriteCSVRow (os_zone os) snap
        in if \<not> rp_csvFile r
           then if \<not> os_open os then (r, log_to (rp_logger r) LogOpenError w)
                else let r = r\<lparr>rp_csvFile := True\<rparr>;
                         w = (if os_stat os \<and> rw_csv w = [] then csv_append WriteCSVHeader w else w)
                     in (r, csv_append row w)
           else if rp_fileClosed r then (r, w) else (r, csv_append row w))"

definition rep_output :: "rep_os \<Rightarrow> MetricsSnapshot \<Rightarrow> Reporter \<times> rep_world \<Rightarrow> Reporter \<times> rep_world" where
  "rep_output os snap s =
     (let s = (fst s, log_to (rp_logger (fst s)) (LogSummary (snap_String snap)) (snd s))
      in if rp_csvPath (fst s) \<noteq> [] then appendCSV os snap s else s)"

definition Flush :: "rep_os \<Rightarrow> go_time \<Rightarrow> Collector \<Rightarrow> Reporter \<times> rep_world \<Rightarrow> Reporter \<times> rep_world" where
  "Flush os now c s = rep_output os (Snapshot now c) s"

text \<open>The loop: one output per tick, and a final one when \<open>stopCh\<close> is closed.\<close>

definition rep_loop_step :: "rep_os \<Rightarrow> go_time \<Rightarrow> Collector \<Rightarrow> Reporter \<times> rep_world \<Rightarrow> Reporter \<times> rep_world" where
  "rep_loop_step os now c s = rep_output os (Snapshot now c) s"

definition FlushToFile :: "(go_time \<Rightarrow> int) \<Rightarrow> bool \<Rightarrow> go_time \<Rightarrow> Collector \<Rightarrow> export_error + bytes" where
  "FlushToFile zone write_ok now c = ExportJSON zone write_ok (Snapshot now c)"

text \<open>\<open>Start\<close> spawns the loop, whose ticker panics on an interval that is not positive.\<close>

definition rep_Start :: "Reporter \<Rightarrow> Reporter go" where
  "rep_Start r = (if rp_interval r \<le> 0 then Inl NonPositiveTicker else Inr r)"

text \<open>\<open>Stop\<close>: the final output of the loop happens between closing the channel and closing the file.\<close>

definition rep_Stop :: "rep_os \<Rightarrow> go_time \<Rightarrow> Collector \<Rightarrow> Reporter \<times> rep_world \<Rightarrow> (Reporter \<times> rep_world) go" where
  "rep_Stop os now c s =
     (if rp_stopClosed (fst s) then Inl CloseOfClosedChannel
      else let (r, w) = rep_loop_step os now c ((fst s)\<lparr>rp_stopClosed := True\<rparr>, snd s)
           in Inr (if rp_csvFile r then r\<lparr>rp_fileClosed := True\<rparr> else r, w))"

section \<open>The summary table\<close>

text \<open>The characters of the frame, in UTF-8.\<close>

definition hline :: string where
  "hline = concat (replicate 66 (chars [226, 149, 144]))"

definition vline :: string where
  "vline = chars [226, 149, 145]"

definition spaces :: "nat \<Rightarrow> string" where
  "spaces n = replicate n (CHR '' '')"

definition table_line :: "string \<Rightarrow> string" where
  "table_line s = vline @ s @ vline @ [newline]"

definition summary_rows :: "MetricsSnapshot \<Rightarrow> string" where
  "summary_rows s =
     table_line ('' Node '' @ pad_right 4 (show_word (sn_NodeID s)) @ '' '' @ chars [226, 148, 130] @
       '' uptime='' @ show_fixed 1 (sn_UptimeSec s) @ ''s'' @ spaces 39) @
     table_line (''   Sent: '' @ pad_left 8 (show_word (sn_MessagesSent s)) @ '' msgs  '' @
       pad_left 10 (show_word (sn_BytesSent s)) @ '' bytes  ('' @ show_fixed 1 (sn_MsgSentPerSec s) @ '' msg/s)'' @ spaces 11) @
     table_line (''   Recv: '' @ pad_left 8 (show_word (sn_MessagesRecv s)) @ '' msgs  '' @
       pad_left 10 (show_word (sn_BytesRecv s)) @ '' bytes  ('' @ show_fixed 1 (sn_MsgRecvPerSec s) @ '' msg/s)'' @ spaces 11) @
     table_line (''   Drop: dedup='' @ show_word (sn_DedupDropped s) @ '' ttl='' @ show_word (sn_TTLExpiredDropped s) @
       '' queue='' @ show_word (sn_QueueOverflowDropped s) @ '' err='' @ show_word (sn_SendErrors s) @
       '' rate='' @ percent (sn_DropRate s) @ spaces 10) @
     table_line (''   Latency: avg='' @ show_fixed 1 (sn_AvgLatencyMs s) @ '' p50='' @ show_fixed 1 (sn_P50LatencyMs s) @
       '' p95='' @ show_fixed 1 (sn_P95LatencyMs s) @ '' p99='' @ show_fixed 1 (sn_P99LatencyMs s) @
       '' max='' @ show_fixed 1 (sn_MaxLatencyMs s) @ '' ms'' @ spaces 4) @
     (if sn_UncompressedBytes s > 0
      then table_line (''   Compression: '' @ percent (sn_CompressionRatio s) @ '' ('' @ show_word (sn_UncompressedBytes s) @
        '' '' @ chars [226, 134, 146] @ '' '' @ show_word (sn_CompressedBytes s) @ '' bytes)'' @ spaces 23)
      else []) @
     chars [226, 149, 160] @ hline @ chars [226, 149, 163] @ [newline]"

definition PrintSummary :: "MetricsSnapshot list \<Rightarrow> string" where
  "PrintSummary snaps =
     (if snaps = [] then []
      else chars [226, 149, 148] @ hline @ chars [226, 149, 151] @ [newline] @
           table_line (spaces 20 @ ''EXPERIMENT METRICS SUMMARY'' @ spaces 19) @
           chars [226, 149, 160] @ hline @ chars [226, 149, 163] @ [newline] @
           concat (map summary_rows snaps) @
           chars [226, 149, 154] @ hline @ chars [226, 149, 157] @ [newline])"

section \<open>A life of the file\<close>

text \<open>
  Reporters for one path come and go (the program is restarted) while the file stays. Opening may fail at any
  time; the size of an open file can be read.
\<close>

datatype rep_event =
    RepNew duration
  | RepTick bool go_time Collector
  | RepFlush bool go_time Collector
  | RepStop bool go_time Collector

abbreviation disk :: "(go_time \<Rightarrow> int) \<Rightarrow> bool \<Rightarrow> rep_os" where
  "disk zone ok \<equiv> \<lparr>os_zone = zone, os_open = ok, os_stat = True\<rparr>"

fun rep_step :: "(go_time \<Rightarrow> int) \<Rightarrow> rep_event \<Rightarrow> Reporter \<times> rep_world \<Rightarrow> (Reporter \<times> rep_world) go" where
  "rep_step z (RepNew d) s = Inr (NewReporter d [WithCSVOutput (rp_csvPath (fst s))], snd s)"
| "rep_step z (RepTick ok now c) s = Inr (if rp_stopClosed (fst s) then s else rep_loop_step (disk z ok) now c s)"
| "rep_step z (RepFlush ok now c) s = Inr (Flush (disk z ok) now c s)"
| "rep_step z (RepStop ok now c) s = rep_Stop (disk z ok) now c s"

fun rep_run :: "(go_time \<Rightarrow> int) \<Rightarrow> rep_event list \<Rightarrow> Reporter \<times> rep_world \<Rightarrow> (Reporter \<times> rep_world) go" where
  "rep_run z [] s = Inr s"
| "rep_run z (e # es) s = (case rep_step z e s of Inl p \<Rightarrow> Inl p | Inr s' \<Rightarrow> rep_run z es s')"

definition no_files :: rep_world where
  "no_files = \<lparr>rw_csv = [], rw_log = []\<rparr>"

text \<open>
  The file is empty, or it is a header and the rows of snapshots; and the summaries of exactly those
  snapshots, among others, are in the log, in the same order.
\<close>

definition csv_text :: "(go_time \<Rightarrow> int) \<Rightarrow> MetricsSnapshot list \<Rightarrow> string" where
  "csv_text z snaps = (if snaps = [] then [] else concat (map csv_record (csvHeader # map (csvRow z) snaps)))"

definition rep_ok :: "(go_time \<Rightarrow> int) \<Rightarrow> MetricsSnapshot list \<Rightarrow> Reporter \<times> rep_world \<Rightarrow> bool" where
  "rep_ok z snaps s \<longleftrightarrow> rw_csv (snd s) = csv_text z snaps \<and> (rp_csvFile (fst s) \<longrightarrow> snaps \<noteq> []) \<and>
     subseq (map (\<lambda>s. LogSummary (snap_String s)) snaps) (map snd (rw_log (snd s)))"

lemma csv_record_nonempty: "csv_record fs \<noteq> []"
  by (simp add: csv_record_def)

lemma csv_text_empty: "csv_text z snaps = [] \<longleftrightarrow> snaps = []"
  by (simp add: csv_text_def csv_record_nonempty)

lemma csv_text_snoc:
  "csv_text z (snaps @ [snap]) = (if snaps = [] then csv_record csvHeader else csv_text z snaps) @ csv_record (csvRow z snap)"
  by (simp add: csv_text_def)

lemma csv_text_rows: "csv_rows (csv_text z snaps) = (if snaps = [] then [] else csvHeader # map (csvRow z) snaps)"
proof (cases "snaps = []")
  case True
  then show ?thesis by (simp add: csv_text_def csv_rows_def)
next
  case False
  have "\<forall>fs \<in> set (csvHeader # map (csvRow z) snaps). fs \<noteq> [] \<and> plain_row fs"
    using plain_csvHeader plain_csvRow by auto
  from csv_rows_records [OF this] False show ?thesis by (simp add: csv_text_def)
qed

lemma rep_ok_out:
  assumes "rep_ok z snaps s"
  shows "rep_ok z snaps (rep_output (disk z ok) snap s) \<or> rep_ok z (snaps @ [snap]) (rep_output (disk z ok) snap s)"
proof -
  obtain r w where s: "s = (r, w)" by fastforce
  have sub: "subseq (map (\<lambda>s. LogSummary (snap_String s)) snaps) (map snd (rw_log w) @ [x])"
    "subseq (map (\<lambda>s. LogSummary (snap_String s)) (snaps @ [snap])) (map snd (rw_log w) @ [LogSummary (snap_String snap)])" for x
    using assms by (auto simp: rep_ok_def s)
  then have sub2: "subseq (map (\<lambda>s. LogSummary (snap_String s)) snaps) (map snd (rw_log w) @ [x, y])" for x y
    using subseq_rev_drop_many [of _ "map snd (rw_log w)" "[x, y]"] assms by (simp add: rep_ok_def s)
  show ?thesis
    using assms sub sub2
    by (auto simp: rep_ok_def s rep_output_def appendCSV_def Let_def csv_text_snoc csv_text_empty WriteCSVHeader_def WriteCSVRow_def)
qed

lemma rep_ok_fields: "rep_ok z snaps (r\<lparr>rp_stopClosed := x\<rparr>, w) = rep_ok z snaps (r, w)" "rep_ok z snaps (r\<lparr>rp_fileClosed := x\<rparr>, w) = rep_ok z snaps (r, w)"
  by (simp_all add: rep_ok_def)

lemma rep_ok_stop:
  assumes "rep_ok z snaps s" and "rep_Stop (disk z ok) now c s = Inr s'"
  shows "\<exists>snaps'. rep_ok z snaps' s'"
proof -
  obtain r ls where l: "rep_loop_step (disk z ok) now c ((fst s)\<lparr>rp_stopClosed := True\<rparr>, snd s) = (r, ls)" by fastforce
  from assms(1) have "rep_ok z snaps ((fst s)\<lparr>rp_stopClosed := True\<rparr>, snd s)" by (simp add: rep_ok_fields)
  from rep_ok_out [OF this, of ok "Snapshot now c"] l have "\<exists>snaps'. rep_ok z snaps' (r, ls)"
    unfolding rep_loop_step_def by metis
  with assms(2) l show ?thesis by (auto simp: rep_Stop_def rep_ok_fields split: if_splits)
qed

lemma rep_ok_step: "rep_ok z snaps s \<Longrightarrow> rep_step z e s = Inr s' \<Longrightarrow> \<exists>snaps'. rep_ok z snaps' s'"
proof (cases e)
  case (RepNew d)
  moreover assume "rep_ok z snaps s" "rep_step z e s = Inr s'"
  ultimately have "rep_ok z snaps s'" by (auto simp: rep_ok_def NewReporter_def WithCSVOutput_def)
  then show ?thesis ..
qed (auto simp: rep_loop_step_def Flush_def split: if_splits dest: rep_ok_out rep_ok_stop)

lemma rep_ok_run: "rep_ok z snaps s \<Longrightarrow> rep_run z es s = Inr s' \<Longrightarrow> \<exists>snaps'. rep_ok z snaps' s'"
  by (induction es arbitrary: s snaps) (auto split: sum.splits dest: rep_ok_step)

section \<open>Properties\<close>


text \<open>Two runs of the program: the second appends to the file of the first without a second header.\<close>

definition two_runs :: "rep_event list" where
  "two_runs =
     [RepTick False 0 (NewCollector 0 1), RepTick True 0 (NewCollector 0 1), RepStop True 0 (NewCollector 0 1),
      RepNew (5 * Second), RepTick True 0 (NewCollector 0 1)]"


end
