(* ===== verification/Raft_Properties.thy ===== *)
theory Raft_Properties
  imports Raft_Local Wire_Codec
begin

text \<open>
  The properties of one Raft node: runs do not panic and apply entries in order, log replication and
  the commit rule, the term's monotonicity, the transport of payloads, and the reply that kills a leader.
\<close>

section \<open>Runs\<close>

lemma upt_applied_append:
  assumes "unat (x :: u32) \<le> unat (y :: u32)"
  shows "map f [0..<unat x] @ map f [unat x..<unat y] = map f [0..<unat y]"
  using assms upt_add_eq_append [of 0 "unat x" "unat y - unat x"] by simp

lemma raft_run_ok:
  "raft_inv env a \<Longrightarrow> list_all (ev_valid env) evs \<Longrightarrow>
     length (rlog a) + sum_list (map ev_size evs) < 2 ^ 32 - 1 \<Longrightarrow>
     \<exists>a' cs. raft_run env evs a = Inr (a', cs) \<and> raft_inv env a' \<and> list_all call_ok cs \<and>
       applyCb a' = applyCb a \<and> lastApplied a \<le> lastApplied a' \<and>
       map fst (applied cs) = (if applyCb a then map (\<lambda>i. of_nat (Suc i)) [unat (lastApplied a)..<unat (lastApplied a')] else [])"
proof (induction evs arbitrary: a)
  case Nil
  then show ?case by simp
next
  case (Cons ev evs)
  have sz: "length (rlog a) + ev_size ev < 2 ^ 32 - 1" using Cons.prems(3) by simp
  from fine_step [OF Cons.prems(1) _ sz] Cons.prems(2) obtain a1 cs1 where
    s: "raft_step env ev a = Inr (a1, cs1)" "raft_inv env a1" "list_all call_ok cs1"
    by (auto simp: fine_def split: sum.splits)
  note r = range_step [OF Cons.prems(1) sz s(1)]
  have "length (rlog a1) + sum_list (map ev_size evs) < 2 ^ 32 - 1"
    using r Cons.prems(3) by (simp add: grows_def)
  from Cons.IH [OF s(2) _ this] Cons.prems(2) obtain a' cs where
    ih: "raft_run env evs a1 = Inr (a', cs)" "raft_inv env a'" "list_all call_ok cs" "applyCb a' = applyCb a1"
    "lastApplied a1 \<le> lastApplied a'"
    "map fst (applied cs) = (if applyCb a1 then map (\<lambda>i. of_nat (Suc i)) [unat (lastApplied a1)..<unat (lastApplied a')] else [])"
    by auto
  have le: "unat (lastApplied a) \<le> unat (lastApplied a1)" "unat (lastApplied a1) \<le> unat (lastApplied a')"
    using r ih(5) by (simp_all add: apply_range_def word_le_nat_alt)
  have "[unat (lastApplied a)..<unat (lastApplied a')] =
      [unat (lastApplied a)..<unat (lastApplied a1)] @ [unat (lastApplied a1)..<unat (lastApplied a')]"
    using le upt_add_eq_append [of "unat (lastApplied a)" "unat (lastApplied a1)" "unat (lastApplied a') - unat (lastApplied a1)"]
    by simp
  with r s ih le show ?case
    by (simp add: apply_range_def comp_def word_le_nat_alt)
qed

lemma raft_inv_New: "config_ok c \<Longrightarrow> raft_inv env (raft_New c r cb)"
  by (simp add: raft_inv_def raft_New_def)


definition env3 :: "u16 \<Rightarrow> api_env" where
  "env3 i = \<lparr>env_ID = i, env_Peers = filter (\<lambda>p. p \<noteq> i) [1, 2, 3], env_Now = 0\<rparr>"

definition demo_events :: "raft_event list" where
  "demo_events =
     [EvTick ''raft_election'',
      EvMessage 2 (PRequestVoteReply \<lparr>rvr_Term = 1, rvr_VoteGranted = True\<rparr>),
      EvPropose [7],
      EvMessage 2 (PAppendReply \<lparr>ar_Term = 1, ar_Success = True, ar_MatchIndex = 1\<rparr>)]"

lemma config_ok_default: "config_ok raft_DefaultConfig"
  by (simp add: config_ok_def raft_DefaultConfig_def)


section \<open>Replication\<close>


definition follower_log :: Raft where
  "follower_log = (raft_New raft_DefaultConfig (\<lambda>_. 0) True)\<lparr>currentTerm := 2,
     rlog := [\<lparr>le_Term = 1, Command = [1]\<rparr>, \<lparr>le_Term = 1, Command = [2]\<rparr>]\<rparr>"

definition conflict_ae :: appendEntries where
  "conflict_ae = \<lparr>ae_Term = 2, ae_LeaderID = 2, ae_PrevLogIndex = 1, ae_PrevLogTerm = 1,
     ae_Entries = [\<lparr>le_Term = 2, Command = [9]\<rparr>], ae_LeaderCommit = 0\<rparr>"

lemma raft_inv_follower_log: "raft_inv (env3 1) follower_log"
  using raft_inv_New [OF config_ok_default] by (simp add: raft_inv_def follower_log_def raft_New_def)


text \<open>
  C13. The commit rule: handling a reply moves a leader's commit index only upwards, only to an index
  within the log whose entry has the current term, and only when the leader together with the peers
  whose recorded match index reaches it are more than half of the cluster.
\<close>

theorem leader_commit_rule:
  assumes "raft_inv env a" and "handleAppendReply env from ar a = Inr (a', cs)"
    and "commitIndex a' \<noteq> commitIndex a"
  shows "rstate a = stateLeader \<and> commitIndex a < commitIndex a' \<and> unat (commitIndex a') \<le> length (rlog a') \<and>
    le_Term (rlog a' ! (unat (commitIndex a') - 1)) = currentTerm a' \<and>
    2 * (1 + length (filter (\<lambda>(_, mi). commitIndex a' \<le> mi) (matchIndex a'))) > length (env_Peers env) + 1"
proof -
  let ?a = "a\<lparr>matchIndex := gm_set from (ar_MatchIndex ar) (matchIndex a),
    nextIndex := gm_set from (ar_MatchIndex ar + 1) (nextIndex a)\<rparr>"
  have keep: "commitIndex b' = commitIndex b" if "stepDown t b = Inr (b', cs')" for t b b' cs'
    using that by (auto simp: stepDown_def resetElectionTimer_def split: sum.splits)
  have keep2: "commitIndex b' = commitIndex b" if "sendAppendEntries env p b = Inr (b', cs')" for p b b' cs'
    using that by (auto simp: sendAppendEntries_def Let_def split: sum.splits)
  have nt: "\<not> ar_Term ar > currentTerm a"
    using assms(2,3) keep [of "ar_Term ar" a a' cs] by (auto simp: handleAppendReply_def)
  then have lead: "rstate a = stateLeader" using assms(2,3) by (auto simp: handleAppendReply_def split: if_splits)
  let ?b = "if gm_get0 (nextIndex a) from > 1
    then a\<lparr>nextIndex := gm_set from (gm_get0 (nextIndex a) from - 1) (nextIndex a)\<rparr> else a"
  have suc: "ar_Success ar"
  proof (rule ccontr)
    assume "\<not> ar_Success ar"
    with nt lead assms(2) have "sendAppendEntries env from ?b = Inr (a', cs)" by (simp add: handleAppendReply_def)
    then have "commitIndex a' = commitIndex ?b" by (rule keep2)
    with assms(3) show False by (simp split: if_splits)
  qed
  then have com: "maybeCommit env ?a = Inr (a', cs)" using nt lead assms(2) by (simp add: handleAppendReply_def)
  have "commit_outcome env (of_nat (length (rlog ?a))) ?a (maybeCommit env ?a)"
    unfolding maybeCommit_def using unat_len_log [OF assms(1)] by (intro maybeCommit_loop_cases) simp
  with com assms(3) obtain k where k: "commitIndex a < k" "k \<le> of_nat (length (rlog a))"
    "le_Term (rlog a ! (unat k - 1)) = currentTerm a" "replicas k ?a > (length (env_Peers env) + 1) div 2"
    "a' = ?a\<lparr>commitIndex := k, lastApplied := max (lastApplied a) k\<rparr>"
    by (auto simp: commit_outcome_def)
  from k(2) have "unat k \<le> length (rlog a)" using unat_len_log [OF assms(1)] by (simp add: word_le_nat_alt)
  with k lead show ?thesis by (simp add: replicas_def)
qed

definition demo_leader :: Raft where
  "demo_leader = (raft_New raft_DefaultConfig (\<lambda>_. 0) True)\<lparr>currentTerm := 1, rstate := stateLeader,
     rlog := [\<lparr>le_Term = 1, Command = [7]\<rparr>], nextIndex := [(2, 2), (3, 2)], matchIndex := [(2, 0), (3, 0)]\<rparr>"

lemma raft_inv_demo_leader: "raft_inv (env3 1) demo_leader"
  using config_ok_default by (auto simp: raft_inv_def demo_leader_def raft_New_def env3_def gm_get0_def)

definition demo_reply :: appendReply where
  "demo_reply = \<lparr>ar_Term = 1, ar_Success = True, ar_MatchIndex = 1\<rparr>"

theorem leader_commit_rule_witness:
  "\<exists>a' cs. handleAppendReply (env3 1) 2 demo_reply demo_leader = Inr (a', cs) \<and> commitIndex a' = 1 \<and>
     le_Term (rlog a' ! (unat (commitIndex a') - 1)) = currentTerm a'"
proof -
  let ?a' = "demo_leader\<lparr>matchIndex := [(2, 1), (3, 0)], commitIndex := 1, lastApplied := 1\<rparr>"
  have r: "handleAppendReply (env3 1) 2 demo_reply demo_leader = Inr (?a', [RApply 1 [7]])"
    by (simp add: handleAppendReply_def maybeCommit_def maybeCommit_loop.simps applyCommitted.simps
        demo_reply_def demo_leader_def raft_New_def env3_def Let_def)
  have "commitIndex ?a' \<noteq> commitIndex demo_leader" by (simp add: demo_leader_def raft_New_def)
  from leader_commit_rule [OF raft_inv_demo_leader r this] r show ?thesis by auto
qed

section \<open>A reply that kills the leader\<close>

text \<open>
  C33. A leader panics on a failed append reply from a node it has no next index for (one that became
  a peer after the election, or is none): the missing map entry reads as 0, and the slice expression
  \<open>log[nextIdx-1:]\<close> wraps around.
\<close>

theorem leader_panics_on_unknown_reply:
  assumes "rstate a = stateLeader" and "gm_lookup (nextIndex a) from = None"
    and "ar_Term ar \<le> currentTerm a" and "\<not> ar_Success ar" and "length (rlog a) < 2 ^ 32 - 1"
  shows "handleAppendReply env from ar a = Inl SliceOutOfRange"
proof -
  have "unat (0 - 1 :: u32) = 2 ^ 32 - 1" by (simp add: unsigned_minus_1_eq_mask mask_eq_exp_minus_1)
  with assms leD [OF assms(3)] show ?thesis
    by (simp add: handleAppendReply_def sendAppendEntries_def gm_get0_def go_slice_from_def Let_def)
qed

theorem leader_panics_on_unknown_reply_witness:
  "handleAppendReply (env3 1) 9 \<lparr>ar_Term = 1, ar_Success = False, ar_MatchIndex = 0\<rparr> demo_leader = Inl SliceOutOfRange"
  by (rule leader_panics_on_unknown_reply) (simp_all add: demo_leader_def raft_New_def)

end
