(* ===== verification/Node_Program.thy ===== *)
theory Node_Program
  imports Node_Algorithm Metrics_Reporter Raft_Properties
begin

text \<open>
  \<open>cmd/node/main.go\<close> from the command line to its return: the main goroutine with the program points
  between the calls of \<open>main\<close>, \<open>Node.Start\<close> and \<open>Node.Stop\<close>, interleaved with the receive loop, the
  send loop, the timers and the reporter, which all run from the moment they are started. The
  transport is UDP: whether its \<open>Start\<close> succeeds is an argument, and its \<open>Stop\<close> returns
  (\<open>Transport_Lifecycle\<close>).
\<close>

section \<open>The program\<close>

text \<open>Where the main goroutine is: before each of the calls named.\<close>

datatype main_pc =
    AtTransportStart | AtAlgoStart | AtReporter | AtSignal | AtFlush | AtAlgoStop | AtStopAll | AtClose | AtWait | AtDone

record program =
  pr_pc :: main_pc
  pr_node :: Node
  pr_algo :: main_algo
  pr_rep :: Reporter
  pr_out :: rep_world
  pr_final :: "(export_error + bytes) option"

definition main_reporter :: "u16 \<Rightarrow> Reporter" where
  "main_reporter nid = NewReporter (5 * Second) [WithCSVOutput (''node_'' @ show_nat (unat nid) @ ''_metrics.csv'')]"

text \<open>The program when \<open>Start\<close> is called, with no CSV file from an earlier run.\<close>

definition main_begin :: "Node \<times> main_algo \<Rightarrow> program" where
  "main_begin na =
     \<lparr>pr_pc = AtTransportStart, pr_node = fst na, pr_algo = snd na, pr_rep = main_reporter (opt_id (nd_cfg (fst na))),
      pr_out = no_files, pr_final = None\<rparr>"

definition exec_handled :: "go_time \<Rightarrow> main_algo handled \<Rightarrow> Node \<Rightarrow> (Node \<times> main_algo) go" where
  "exec_handled now h n =
     (case h of Inl e \<Rightarrow> Inl e | Inr (a, cs) \<Rightarrow> (case exec_calls now cs n of Inl e \<Rightarrow> Inl e | Inr n \<Rightarrow> Inr (n, a)))"

text \<open>
  One step of the main goroutine; a panic ends the program. \<open>ok\<close> says whether the operation the step asks of the system succeeds:
  starting the transport, opening the CSV file for the last row, writing the JSON file. The step from
  \<open>AtSignal\<close> is the arrival of a signal. The collector is that of the node, which \<open>main\<close> always sets.
\<close>

definition with_mc :: "program \<Rightarrow> (Collector \<Rightarrow> program) \<Rightarrow> program" where
  "with_mc p f = (case nd_mc (pr_node p) of None \<Rightarrow> p | Some c \<Rightarrow> f c)"

definition reporter_stops :: "rep_os \<Rightarrow> go_time \<Rightarrow> program \<Rightarrow> main_exit + program" where
  "reporter_stops os now p =
     (case nd_mc (pr_node p) of
        None \<Rightarrow> Inr p
      | Some c \<Rightarrow>
          (case rep_Stop os now c (pr_rep p, pr_out p) of
             Inl e \<Rightarrow> Inl (MainPanic e)
           | Inr (r, w) \<Rightarrow> Inr (p\<lparr>pr_rep := r, pr_out := w\<rparr>)))"

definition goto :: "main_pc \<Rightarrow> main_exit + program \<Rightarrow> main_exit + program" where
  "goto pc r = (case r of Inl e \<Rightarrow> Inl e | Inr p \<Rightarrow> Inr (p\<lparr>pr_pc := pc\<rparr>))"

definition set_node :: "program \<Rightarrow> (Node \<times> main_algo) go \<Rightarrow> main_exit + program" where
  "set_node p r = (case r of Inl e \<Rightarrow> Inl (MainPanic e) | Inr (n, a) \<Rightarrow> Inr (p\<lparr>pr_node := n, pr_algo := a\<rparr>))"

definition main_step :: "(go_time \<Rightarrow> int) \<Rightarrow> go_time \<Rightarrow> bool \<Rightarrow> program \<Rightarrow> main_exit + program" where
  "main_step z now ok p =
     (let n = pr_node p; a = pr_algo p
      in case pr_pc p of
           AtTransportStart \<Rightarrow> if ok then goto AtAlgoStart (Inr p) else Inl (StartFailed TransportStart)
         | AtAlgoStart \<Rightarrow> goto AtReporter (set_node p (exec_handled now (algo_Start now a) n))
         | AtReporter \<Rightarrow>
             goto AtSignal (case rep_Start (pr_rep p) of Inl e \<Rightarrow> Inl (MainPanic e) | Inr r \<Rightarrow> Inr (p\<lparr>pr_rep := r\<rparr>))
         | AtSignal \<Rightarrow> goto AtFlush (reporter_stops (disk z ok) now p)
         | AtFlush \<Rightarrow> goto AtAlgoStop (Inr (with_mc p (\<lambda>c. p\<lparr>pr_final := Some (FlushToFile z ok now c)\<rparr>)))
         | AtAlgoStop \<Rightarrow>
             if nd_once n then goto AtDone (Inr p)
             else goto AtStopAll (set_node p (exec_handled now (algo_Stop now a) (n\<lparr>nd_once := True\<rparr>)))
         | AtStopAll \<Rightarrow>
             goto AtClose (set_node p (case tm_StopAll (nd_tm n) of Inl e \<Rightarrow> Inl e | Inr tm \<Rightarrow> Inr (n\<lparr>nd_tm := tm\<rparr>, a)))
         | AtClose \<Rightarrow> goto AtWait (set_node p (case close_stop n of Inl e \<Rightarrow> Inl e | Inr n \<Rightarrow> Inr (n, a)))
         | AtWait \<Rightarrow> goto AtDone (Inr p)
         | AtDone \<Rightarrow> Inr p)"

text \<open>
  The other goroutines. The loops run from the start of the transport until \<open>Stop\<close> has waited for
  them, the reporter between its \<open>Start\<close> and its \<open>Stop\<close>.
\<close>

datatype prog_event = MainStep go_time bool | NodeEvent run_event | ReporterTick go_time bool

fun prog_step :: "(go_time \<Rightarrow> int) \<Rightarrow> prog_event \<Rightarrow> program \<Rightarrow> main_exit + program" where
  "prog_step z (MainStep now ok) p = main_step z now ok p"
| "prog_step z (NodeEvent ev) p =
     (if pr_pc p \<in> {AtTransportStart, AtDone} then Inr p
      else set_node p (run_event_step algo_OnMessage algo_OnTick ev (pr_node p, pr_algo p)))"
| "prog_step z (ReporterTick now ok) p =
     (if pr_pc p \<noteq> AtSignal then Inr p
      else Inr (with_mc p (\<lambda>c. let (r, w) = rep_loop_step (disk z ok) now c (pr_rep p, pr_out p)
                               in p\<lparr>pr_rep := r, pr_out := w\<rparr>)))"

fun prog_run :: "(go_time \<Rightarrow> int) \<Rightarrow> prog_event list \<Rightarrow> program \<Rightarrow> main_exit + program" where
  "prog_run z [] p = Inr p"
| "prog_run z (e # es) p = (case prog_step z e p of Inl x \<Rightarrow> Inl x | Inr p \<Rightarrow> prog_run z es p)"

section \<open>What holds at each program point\<close>

fun pc_index :: "main_pc \<Rightarrow> nat" where
  "pc_index AtTransportStart = 0"
| "pc_index AtAlgoStart = 1"
| "pc_index AtReporter = 2"
| "pc_index AtSignal = 3"
| "pc_index AtFlush = 4"
| "pc_index AtAlgoStop = 5"
| "pc_index AtStopAll = 6"
| "pc_index AtClose = 7"
| "pc_index AtWait = 8"
| "pc_index AtDone = 9"

definition node_part :: "main_pc \<Rightarrow> Node \<Rightarrow> main_algo \<Rightarrow> bool" where
  "node_part pc n a \<longleftrightarrow> main_algo.in_order (n, a) \<and> nd_mc n \<noteq> None \<and>
     (nd_once n \<longleftrightarrow> 6 \<le> pc_index pc) \<and> (nd_stopClosed n \<longleftrightarrow> 8 \<le> pc_index pc)"

definition rep_part :: "(go_time \<Rightarrow> int) \<Rightarrow> main_pc \<Rightarrow> Reporter \<Rightarrow> rep_world \<Rightarrow> bool" where
  "rep_part z pc r w \<longleftrightarrow> 0 < rp_interval r \<and> (rp_stopClosed r \<longleftrightarrow> 4 \<le> pc_index pc) \<and> (\<exists>snaps. rep_ok z snaps (r, w))"

definition final_part :: "(go_time \<Rightarrow> int) \<Rightarrow> main_pc \<Rightarrow> (export_error + bytes) option \<Rightarrow> bool" where
  "final_part z pc f \<longleftrightarrow> (if 5 \<le> pc_index pc then \<exists>now ok c. f = Some (ExportJSON z ok (Snapshot now c)) else f = None)"

definition prog_inv :: "(go_time \<Rightarrow> int) \<Rightarrow> program \<Rightarrow> bool" where
  "prog_inv z p \<longleftrightarrow> node_part (pr_pc p) (pr_node p) (pr_algo p) \<and> rep_part z (pr_pc p) (pr_rep p) (pr_out p) \<and>
     final_part z (pr_pc p) (pr_final p)"

lemma same_frame_part:
  "same_frame n n' \<Longrightarrow> node_part pc n a \<Longrightarrow> main_algo.in_order (n', a') \<Longrightarrow> node_part pc n' a'"
  by (simp add: node_part_def same_frame_def)

lemma exec_handled_ok:
  assumes "node_inv n" and "\<exists>a cs. h = Inr (a, cs) \<and> algo_ok (pm_List (nd_pm n)) a \<and> list_all timers_positive cs"
  shows "\<exists>n' a. exec_handled now h n = Inr (n', a) \<and> main_algo.in_order (n', a) \<and> same_frame n n'"
proof -
  from assms(2) obtain a cs where h: "h = Inr (a, cs)" "algo_ok (pm_List (nd_pm n)) a" "list_all timers_positive cs" by blast
  from main_algo.calls_in_order [OF assms(1) h(3,2), of now] h(1) show ?thesis by (auto simp: exec_handled_def)
qed

lemma rep_Stop_part:
  assumes "rep_part z AtSignal r w"
  shows "\<exists>r' w'. rep_Stop (disk z ok) now c (r, w) = Inr (r', w') \<and> rep_part z AtFlush r' w'"
proof -
  obtain r1 w1 where l: "rep_loop_step (disk z ok) now c (r\<lparr>rp_stopClosed := True\<rparr>, w) = (r1, w1)" by fastforce
  have st: "rep_Stop (disk z ok) now c (r, w) = Inr (if rp_csvFile r1 then r1\<lparr>rp_fileClosed := True\<rparr> else r1, w1)"
    using assms l by (simp add: rep_Stop_def rep_part_def)
  have "rp_interval r1 = rp_interval r \<and> rp_stopClosed r1"
    using l by (auto simp: rep_loop_step_def rep_output_def appendCSV_def Let_def split: if_splits)
  with st rep_ok_stop [OF _ st] assms show ?thesis by (auto simp: rep_part_def)
qed

lemma rep_tick_part:
  assumes "rep_part z pc r w" and "rep_loop_step (disk z ok) now c (r, w) = (r', w')"
  shows "rep_part z pc r' w'"
proof -
  have "rp_interval r' = rp_interval r \<and> rp_stopClosed r' = rp_stopClosed r"
    using assms(2) by (auto simp: rep_loop_step_def rep_output_def appendCSV_def Let_def split: if_splits)
  with assms rep_ok_out [of z _ "(r, w)" ok "Snapshot now c"] show ?thesis
    by (fastforce simp: rep_part_def rep_loop_step_def)
qed

text \<open>Every step of the main goroutine goes on to the next point, whatever else runs.\<close>

lemma main_step_ok:
  assumes "prog_inv z p"
  shows "(case main_step z now ok p of
            Inl e \<Rightarrow> pr_pc p = AtTransportStart \<and> \<not> ok \<and> e = StartFailed TransportStart
          | Inr p' \<Rightarrow> prog_inv z p' \<and> pc_index (pr_pc p') = min 9 (Suc (pc_index (pr_pc p))))"
proof -
  let ?n = "pr_node p" and ?a = "pr_algo p"
  from assms have i: "node_part (pr_pc p) ?n ?a" "rep_part z (pr_pc p) (pr_rep p) (pr_out p)" "final_part z (pr_pc p) (pr_final p)"
    by (simp_all add: prog_inv_def)
  from i(1) have o: "node_inv ?n" "algo_ok (pm_List (nd_pm ?n)) ?a" by (simp_all add: node_part_def main_algo.in_order_def)
  from i(1) obtain c where c: "nd_mc ?n = Some c" by (auto simp: node_part_def)
  show ?thesis
  proof (cases "pr_pc p")
    case AtAlgoStart
    from exec_handled_ok [OF o(1) main_algo.start_ok [OF o(2)], of now now] obtain n' a' where
      "exec_handled now (algo_Start now ?a) ?n = Inr (n', a')" "main_algo.in_order (n', a')" "same_frame ?n n'" by blast
    with i AtAlgoStart show ?thesis
      by (auto simp: main_step_def goto_def set_node_def prog_inv_def node_part_def rep_part_def final_part_def same_frame_def)
  next
    case AtSignal
    from rep_Stop_part [of z "pr_rep p" "pr_out p" ok now c] i(2) obtain r w where
      "rep_Stop (disk z ok) now c (pr_rep p, pr_out p) = Inr (r, w)" "rep_part z AtFlush r w" by (auto simp: AtSignal)
    with i AtSignal c show ?thesis
      by (simp add: main_step_def goto_def reporter_stops_def prog_inv_def node_part_def final_part_def)
  next
    case AtAlgoStop
    have "node_inv (?n\<lparr>nd_once := True\<rparr>)" using o(1) by (simp add: node_inv_def)
    from exec_handled_ok [OF this, of "algo_Stop now ?a" now] main_algo.stop_ok [OF o(2), of now] obtain n' a' where
      "exec_handled now (algo_Stop now ?a) (?n\<lparr>nd_once := True\<rparr>) = Inr (n', a')" "main_algo.in_order (n', a')"
      "same_frame (?n\<lparr>nd_once := True\<rparr>) n'" by auto
    with i AtAlgoStop show ?thesis
      by (auto simp: main_step_def goto_def set_node_def prog_inv_def node_part_def rep_part_def final_part_def same_frame_def)
  next
    case AtStopAll
    from o(1) tm_StopAll_ok [of "nd_tm ?n"] obtain tm where "tm_StopAll (nd_tm ?n) = Inr tm" "tm_inv tm" by (auto simp: node_inv_def)
    with i AtStopAll show ?thesis
      by (auto simp: main_step_def goto_def set_node_def prog_inv_def node_part_def rep_part_def final_part_def
          main_algo.in_order_def node_inv_def)
  next
    case AtClose
    with i show ?thesis
      by (auto simp: main_step_def goto_def set_node_def close_stop_def prog_inv_def node_part_def rep_part_def final_part_def
          main_algo.in_order_def node_inv_def)
  next
    case AtFlush
    with i c show ?thesis
      by (auto simp: main_step_def goto_def with_mc_def FlushToFile_def prog_inv_def node_part_def rep_part_def final_part_def)
  qed (use i in \<open>auto simp: main_step_def goto_def rep_Start_def prog_inv_def node_part_def rep_part_def final_part_def\<close>)
qed

text \<open>The other goroutines do not disturb it.\<close>

lemma node_event_ok:
  assumes "prog_inv z p" and "expects algo_expected ev (pr_node p, pr_algo p)"
  shows "\<exists>p'. prog_step z (NodeEvent ev) p = Inr p' \<and> prog_inv z p' \<and> pr_pc p' = pr_pc p"
proof -
  from assms(1) have n: "node_part (pr_pc p) (pr_node p) (pr_algo p)" by (simp add: prog_inv_def)
  then have "main_algo.in_order (pr_node p, pr_algo p)" by (simp add: node_part_def)
  from main_algo.step_in_order [OF this assms(2)] obtain n' a' where
    "run_event_step algo_OnMessage algo_OnTick ev (pr_node p, pr_algo p) = Inr (n', a')" "main_algo.in_order (n', a')"
    "same_frame (pr_node p) n'" by blast
  with assms(1) same_frame_part [OF _ n, of n' a'] show ?thesis by (simp add: set_node_def prog_inv_def)
qed

lemma reporter_tick_ok:
  assumes "prog_inv z p"
  shows "\<exists>p'. prog_step z (ReporterTick now ok) p = Inr p' \<and> prog_inv z p' \<and> pr_pc p' = pr_pc p"
  using assms rep_tick_part by (auto simp: prog_inv_def with_mc_def split: option.splits prod.splits)

definition expects_event :: "prog_event \<Rightarrow> program \<Rightarrow> bool" where
  "expects_event e p = (case e of NodeEvent ev \<Rightarrow> expects algo_expected ev (pr_node p, pr_algo p) | _ \<Rightarrow> True)"

fun prog_expects :: "(go_time \<Rightarrow> int) \<Rightarrow> prog_event list \<Rightarrow> program \<Rightarrow> bool" where
  "prog_expects z [] p = True"
| "prog_expects z (e # es) p \<longleftrightarrow> expects_event e p \<and> (case prog_step z e p of Inl x \<Rightarrow> True | Inr p \<Rightarrow> prog_expects z es p)"

fun is_main :: "prog_event \<Rightarrow> bool" where
  "is_main (MainStep now ok) = True"
| "is_main _ = False"

lemma prog_step_ok:
  assumes "prog_inv z p" and "expects_event e p"
  shows "(case prog_step z e p of
            Inl x \<Rightarrow> x = StartFailed TransportStart \<and> pr_pc p = AtTransportStart \<and> (\<exists>now. e = MainStep now False)
          | Inr p' \<Rightarrow> prog_inv z p' \<and> pc_index (pr_pc p') = min 9 (pc_index (pr_pc p) + (if is_main e then 1 else 0)))"
proof -
  have le: "pc_index (pr_pc p) \<le> 9" by (cases "pr_pc p") simp_all
  show ?thesis
  proof (cases e)
    case (MainStep now ok)
    with main_step_ok [OF assms(1), where now = now and ok = ok] show ?thesis by (auto split: sum.splits)
  next
    case (NodeEvent ev)
    with node_event_ok [OF assms(1), of ev] assms(2) le show ?thesis by (auto simp: expects_event_def)
  next
    case (ReporterTick now ok)
    with reporter_tick_ok [OF assms(1), of now ok] le show ?thesis by auto
  qed
qed

lemma prog_run_ok:
  assumes "prog_inv z p" and "prog_expects z es p"
  shows "(case prog_run z es p of
            Inl x \<Rightarrow> x = StartFailed TransportStart \<and> pr_pc p = AtTransportStart \<and>
              (\<exists>now. find is_main es = Some (MainStep now False))
          | Inr p' \<Rightarrow> prog_inv z p' \<and> pc_index (pr_pc p') = min 9 (pc_index (pr_pc p) + length (filter is_main es)))"
  using assms
proof (induction es arbitrary: p)
  case Nil
  then show ?case by (cases "pr_pc p") simp_all
next
  case (Cons e es)
  show ?case
  proof (cases "prog_step z e p")
    case (Inl x)
    with Cons.prems prog_step_ok [of z p e] show ?thesis by auto
  next
    case (Inr p1)
    with Cons.prems prog_step_ok [of z p e] have
      1: "prog_inv z p1" "pc_index (pr_pc p1) = min 9 (pc_index (pr_pc p) + (if is_main e then 1 else 0))" by simp_all
    have "\<not> is_main e \<and> pr_pc p = AtTransportStart" if "pr_pc p1 = AtTransportStart"
      using 1(2) that by (cases "pr_pc p") (auto split: if_splits)
    with 1 Cons.IH [of p1] Cons.prems Inr show ?thesis by (auto split: sum.splits)
  qed
qed

section \<open>The set-up is in order\<close>

lemma add_peers_frame:
  assumes "node_inv n"
  shows "node_inv (add_peers ps n) \<and> nd_mc (add_peers ps n) = nd_mc n \<and> nd_once (add_peers ps n) = nd_once n \<and>
    nd_stopClosed (add_peers ps n) = nd_stopClosed n"
  using assms
proof (induction ps arbitrary: n)
  case (Cons p ps)
  obtain i addr where p: "p = (i, addr)" by fastforce
  let ?n = "case AddPeer i addr n of Inl _ \<Rightarrow> n | Inr n' \<Rightarrow> n'"
  have "pm_inv (gm_set i \<lparr>peer_ID = i, Addr = addr\<rparr> (nd_pm n))" if "i \<noteq> 0"
    using Cons.prems that pm_inv_Add [of "nd_pm n" i addr] by (auto simp: node_inv_def pm_Add_def)
  with Cons.prems have "node_inv ?n \<and> nd_mc ?n = nd_mc n \<and> nd_once ?n = nd_once n \<and> nd_stopClosed ?n = nd_stopClosed n"
    by (auto simp: AddPeer_pm node_inv_def)
  with Cons.IH [of ?n] show ?case by (simp add: add_peers_def p)
qed (simp add: add_peers_def)

lemma main_node_ok:
  assumes "main_node now idFlag peers = Inr n"
  shows "node_inv n \<and> nd_mc n \<noteq> None \<and> \<not> nd_once n \<and> \<not> nd_stopClosed n"
proof -
  let ?i = "ucast idFlag :: u16"
  let ?opts = "[WithSendQueueSize 512, WithRecvBufSize 256, WithMetrics (Some (NewCollector now ?i))]"
  from assms obtain n0 where n0: "NewNode ?i ?opts = Inr n0" "n = add_peers peers n0"
    by (auto simp: main_node_def Let_def split: sum.splits)
  then have "opt_sendQueueSize (nd_cfg n0) = 512" "nd_mc n0 \<noteq> None" "\<not> nd_once n0" "\<not> nd_stopClosed n0"
    by (auto simp: NewNode_def WithSendQueueSize_def WithRecvBufSize_def WithMetrics_def Let_def split: sum.splits)
  with NewNode_inv [OF n0(1)] add_peers_frame [of n0 peers] n0(2) show ?thesis by simp
qed

lemma main_algorithm_ok:
  assumes "main_algorithm r nid algoFlag = Some a"
  shows "algo_ok ps a"
proof -
  have "gossip_ok ps (gossip_New r 3 (200 * Millisecond))" by (simp add: gossip_ok_def gossip_New_def)
  moreover have "raft_ok ps (raft_New raft_DefaultConfig r True)" by (simp add: raft_ok_def raft_inv_New config_ok_default)
  moreover have "wn_ok ps (wn_Set k v (wn_New wn_DefaultConfig r))" for k v
    by (simp add: wn_ok_def wn_Set_def wn_New_def wn_DefaultConfig_def go_quot_def Let_def)
  ultimately show ?thesis using assms by (auto simp: main_algorithm_def split: if_splits)
qed

lemma main_begin_inv:
  assumes "main_setup now r idFlag peersFlag algoFlag = Inr na"
  shows "prog_inv z (main_begin na)"
proof -
  from assms obtain peers n a where s: "na = (n, a)" "main_node now idFlag peers = Inr n"
    "main_algorithm r (ucast idFlag) algoFlag = Some a" by (auto simp: main_setup_def split: sum.splits option.splits)
  have "rep_ok z [] (main_reporter i, no_files)" "0 < rp_interval (main_reporter i)" "\<not> rp_stopClosed (main_reporter i)" for i
    by (simp_all add: rep_ok_def main_reporter_def NewReporter_def WithCSVOutput_def csv_text_def no_files_def)
  with s main_node_ok [OF s(2)] main_algorithm_ok [OF s(3)] show ?thesis
    by (auto simp: prog_inv_def main_begin_def node_part_def rep_part_def final_part_def main_algo.in_order_def)
qed

text \<open>Gossip and WeakNet expect nothing of the messages they are given.\<close>

definition is_raft :: "main_algo \<Rightarrow> bool" where
  "is_raft a = (case a of RunRaft r \<Rightarrow> True | _ \<Rightarrow> False)"

lemma is_raft_simps [simp]: "is_raft (RunRaft r)" "\<not> is_raft (RunGossip g)" "\<not> is_raft (RunWeaknet w)"
  by (simp_all add: is_raft_def)

lemma handled_is_raft:
  "algo_Start now a = Inr (a', cs) \<Longrightarrow> is_raft a' = is_raft a" "algo_Stop now a = Inr (a', cs) \<Longrightarrow> is_raft a' = is_raft a"
  "algo_OnMessage env m a = Inr (a', cs) \<Longrightarrow> is_raft a' = is_raft a" "algo_OnTick env name a = Inr (a', cs) \<Longrightarrow> is_raft a' = is_raft a"
  by (auto simp: algo_Start_def algo_Stop_def algo_OnMessage_def algo_OnTick_def lift_algo_def
      split: main_algo.splits sum.splits prod.splits)

lemma run_event_is_raft:
  "run_event_step algo_OnMessage algo_OnTick ev (n, a) = Inr (n', a') \<Longrightarrow> is_raft a' = is_raft a"
  by (cases ev) (auto simp: recv_one_def timer_fires_def Let_def split: prod.splits option.splits sum.splits dest: handled_is_raft)

lemma prog_step_is_raft: "prog_step z e p = Inr p' \<Longrightarrow> is_raft (pr_algo p') = is_raft (pr_algo p)"
  by (cases e) (auto simp: main_step_def goto_def set_node_def exec_handled_def reporter_stops_def with_mc_def Let_def
      split: main_pc.splits sum.splits prod.splits option.splits if_splits dest: handled_is_raft run_event_is_raft)

lemma prog_run_is_raft: "prog_run z es p = Inr p' \<Longrightarrow> is_raft (pr_algo p') = is_raft (pr_algo p)"
  by (induction es arbitrary: p) (auto split: sum.splits dest: prog_step_is_raft)

lemma prog_expects_always: "\<not> is_raft (pr_algo p) \<Longrightarrow> prog_expects z es p"
proof (induction es arbitrary: p)
  case (Cons e es)
  then have "expects_event e p"
    by (auto simp: expects_event_def expects_def algo_expected_def is_raft_def split: prog_event.splits run_event.splits main_algo.splits)
  with Cons prog_step_is_raft [of z e p] show ?case by (auto split: sum.splits)
qed simp

section \<open>Start and stop\<close>

text \<open>When nothing comes between its steps, the main goroutine executes \<open>Node.Start\<close> and \<open>Node.Stop\<close>.\<close>

lemma start_steps:
  assumes "pr_pc p = AtTransportStart" and "algo_Start now (pr_algo p) = Inr (a, cs)"
  shows "prog_run z [MainStep now tr_ok, MainStep now ok] p =
    (case node_Start tr_ok now (Some (Some cs)) (pr_node p) of
       Inl e \<Rightarrow> Inl (MainPanic e)
     | Inr (Some e, n) \<Rightarrow> Inl (StartFailed e)
     | Inr (None, n) \<Rightarrow> Inr (p\<lparr>pr_pc := AtReporter, pr_node := n, pr_algo := a\<rparr>))"
  using assms by (simp add: main_step_def goto_def set_node_def exec_handled_def node_Start_def split: sum.splits)

lemma stop_steps:
  assumes "pr_pc p = AtAlgoStop" and "algo_Stop now (pr_algo p) = Inr (a, cs)" and "\<not> nd_once (pr_node p)"
  shows "prog_run z [MainStep now ok, MainStep now ok, MainStep now ok, MainStep now ok] p =
    (case node_Stop now cs (pr_node p) of
       Inl e \<Rightarrow> Inl (MainPanic e)
     | Inr n \<Rightarrow> Inr (p\<lparr>pr_pc := AtDone, pr_node := n, pr_algo := a\<rparr>))"
proof (cases "exec_calls now cs (pr_node p\<lparr>nd_once := True\<rparr>)")
  case (Inl e)
  with assms show ?thesis by (simp add: main_step_def goto_def set_node_def exec_handled_def node_Stop_def)
next
  case (Inr n)
  note steps = main_step_def goto_def set_node_def exec_handled_def node_Stop_def close_stop_def
  show ?thesis
  proof (cases "tm_StopAll (nd_tm n)")
    case (Inl e)
    with Inr assms show ?thesis by (simp add: steps)
  next
    case (Inr tm)
    with \<open>exec_calls now cs (pr_node p\<lparr>nd_once := True\<rparr>) = Inr n\<close> assms show ?thesis by (cases "nd_stopClosed n") (simp_all add: steps)
  qed
qed

section \<open>Properties\<close>

lemma main_setup_returns:
  assumes "parsePeers peersFlag = Inr peers" and "main_algorithm r (ucast idFlag) algoFlag = Some a"
  shows "\<exists>n. main_setup now r idFlag peersFlag algoFlag = Inr (n, a)"
  using assms by (simp add: main_setup_def main_node_def NewNode_def NewSendQueue_def WithSendQueueSize_def WithRecvBufSize_def
      WithMetrics_def Let_def)

lemma main_setup_raft: "main_setup now r idFlag peersFlag algoFlag = Inr (n, a) \<Longrightarrow> is_raft a \<longleftrightarrow> algoFlag = ''raft''"
  by (auto simp: main_setup_def main_algorithm_def split: sum.splits option.splits if_splits)


text \<open>A gossip node with one peer, and a tick of its reporter before the signal.\<close>

definition short_run :: "prog_event list" where
  "short_run = replicate 3 (MainStep 0 True) @ ReporterTick 0 True # replicate 6 (MainStep 0 True)"

lemma short_run_main: "filter is_main short_run = replicate 9 (MainStep 0 True)" "find is_main short_run = Some (MainStep 0 True)"
  by (simp_all add: short_run_def numeral_eq_Suc)

lemma one_peer_setup: "\<exists>na. main_setup 0 (\<lambda>_. 0) 1 ''2=:9002'' ''gossip'' = Inr na"
proof -
  let ?ps = "[(2, '':9002'')] :: (u16 \<times> string) list"
  have "parsePeers (show_peers ?ps) = Inr ?ps" by (rule parsePeers_show) (simp_all add: addr_ok_def is_space_def)
  moreover have "show_peers ?ps = ''2=:9002''" by code_simp
  ultimately have "parsePeers ''2=:9002'' = Inr ?ps" by simp
  moreover have "main_algorithm (\<lambda>_. 0) (ucast (1 :: u64)) ''gossip'' = Some (RunGossip (gossip_New (\<lambda>_. 0) 3 (200 * Millisecond)))"
    by (simp add: main_algorithm_def)
  ultimately show ?thesis using main_setup_returns by blast
qed


section \<open>A timer that survives\<close>

text \<open>
  \<open>Node.Stop\<close> stops the timers before it stops what sets them. A tick of the election timer, or a vote
  request, that is handled after \<open>StopAll\<close> sets the election timer of a Raft node again, and nothing
  stops that timer: the node has returned from \<open>Stop\<close> with a goroutine that will call the algorithm.
\<close>

lemma send_keeps_timers: "exec_calls now (map (\<lambda>p. ApiSend p m) ps) n = Inr n' \<Longrightarrow> nd_tm n' = nd_tm n"
proof (induction ps arbitrary: n)
  case (Cons p ps)
  then obtain e n1 where s: "node_Send now p m n = Inr (e, n1)" "exec_calls now (map (\<lambda>p. ApiSend p m) ps) n1 = Inr n'"
    by (auto split: sum.splits)
  then have "nd_tm n1 = nd_tm n" by (auto simp: node_Send_def node_push_def nextSeq_def Let_def split: option.splits sum.splits)
  with Cons.IH [OF s(2)] show ?case by simp
qed simp

lemma render_send_all: "raft_render J now (map (\<lambda>p. RSend p ttl pri x) ps) = map (\<lambda>p. ApiSend p (raft_message J now ttl pri x)) ps"
  by (induction ps) simp_all

lemma election_tick_sets_timer:
  assumes "run_event_step algo_OnMessage algo_OnTick (EvTimer now timerElection) (n, RunRaft r) = Inr (n', a')"
  shows "gm_lookup (tm_timers (nd_tm n')) timerElection \<noteq> None"
proof -
  from assms obtain d m where "exec_calls now (ApiSetTimer timerElection d # map (\<lambda>p. ApiSend p m) (pm_List (nd_pm n))) n = Inr n'"
    by (auto simp: timer_fires_def algo_OnTick_def lift_algo_def raft_handled_def raft_OnTick_def startElection_def andThen_def
        resetElectionTimer_def sendToAll_def render_send_all node_env_def split: sum.splits prod.splits)
  then obtain n1 where "node_SetTimer timerElection d n = Inr n1" "exec_calls now (map (\<lambda>p. ApiSend p m) (pm_List (nd_pm n))) n1 = Inr n'"
    by (auto split: sum.splits)
  then show ?thesis using send_keeps_timers by (auto simp: node_SetTimer_def tm_Set_def split: sum.splits option.splits if_splits)
qed

lemma prog_run_append: "prog_run z (es @ fs) p = (case prog_run z es p of Inl x \<Rightarrow> Inl x | Inr p \<Rightarrow> prog_run z fs p)"
  by (induction es arbitrary: p) (simp_all split: sum.splits)

lemma main_steps_expected: "list_all is_main es \<Longrightarrow> prog_expects z es p"
  by (induction es arbitrary: p) (auto simp: expects_event_def split: sum.splits prog_event.splits)

lemma timer_survives_stop:
  assumes "main_setup now r idFlag peersFlag ''raft'' = Inr na"
  shows "\<exists>p. prog_run z (replicate 7 (MainStep 0 True) @ [NodeEvent (EvTimer 0 timerElection), MainStep 0 True, MainStep 0 True])
      (main_begin na) = Inr p \<and> pr_pc p = AtDone \<and> gm_lookup (tm_timers (nd_tm (pr_node p))) timerElection \<noteq> None"
proof -
  let ?es = "replicate 7 (MainStep 0 True)"
  have m: "list_all is_main ?es" "filter is_main ?es = ?es" by (simp_all add: list_all_iff)
  have "find is_main ?es = Some (MainStep 0 True)" by (simp add: numeral_eq_Suc)
  with prog_run_ok [OF main_begin_inv [OF assms] main_steps_expected [OF m(1)], of z] m(2) obtain p where
    p: "prog_run z ?es (main_begin na) = Inr p" "prog_inv z p" "pc_index (pr_pc p) = 7"
    by (cases "prog_run z ?es (main_begin na)") (auto simp: main_begin_def)
  then have pc: "pr_pc p = AtClose" by (cases "pr_pc p") simp_all
  have "is_raft (pr_algo (main_begin na))" using main_setup_raft [of now r idFlag peersFlag "''raft''" "fst na" "snd na"] assms
    by (simp add: main_begin_def)
  with prog_run_is_raft [OF p(1)] obtain ra where a: "pr_algo p = RunRaft ra" by (auto simp: is_raft_def split: main_algo.splits)
  have "expects algo_expected (EvTimer 0 timerElection) (pr_node p, pr_algo p)" by (simp add: expects_def)
  from node_event_ok [OF p(2) this] pc obtain n1 a1 where
    st: "run_event_step algo_OnMessage algo_OnTick (EvTimer 0 timerElection) (pr_node p, pr_algo p) = Inr (n1, a1)"
    and i1: "prog_inv z (p\<lparr>pr_node := n1, pr_algo := a1\<rparr>)"
    by (auto simp: set_node_def split: sum.splits)
  have "gm_lookup (tm_timers (nd_tm n1)) timerElection \<noteq> None" using election_tick_sets_timer st a by metis
  moreover have "\<not> nd_stopClosed n1" using i1 pc by (simp add: prog_inv_def node_part_def)
  ultimately show ?thesis using p(1) pc st
    by (simp add: prog_run_append set_node_def main_step_def goto_def close_stop_def del: run_event_step.simps)
qed

end
