(* ===== verification/Raft_Election.thy ===== *)
theory Raft_Election
  imports Raft_Node
begin

text \<open>
  The election protocol that Raft's handlers implement, on its own: terms, votes, vote requests and
  granted votes. The state of a node is its projection \<open>el\<close>, a step is one of five kinds, and the
  network loses, delays and reorders messages but does not duplicate them (the router delivers a
  message at most once). Under a quorum of votes a term has at most one leader.

  \<open>ac_votes\<close>, \<open>ac_counted\<close> and \<open>ac_leaders\<close> record history for the proof: who voted for whom in which
  term, whose vote a candidate counted, and who was leader in which term.
\<close>

section \<open>Quorums\<close>

locale quorums =
  fixes ids :: "u16 set" and maj :: nat
  assumes finite_ids: "finite ids"
    and maj_quorum: "2 * maj > card ids"
begin

lemma quorums_meet:
  assumes "Q1 \<subseteq> ids" and "Q2 \<subseteq> ids" and "maj \<le> card Q1" and "maj \<le> card Q2"
  shows "Q1 \<inter> Q2 \<noteq> {}"
proof
  assume "Q1 \<inter> Q2 = {}"
  then have "card (Q1 \<union> Q2) = card Q1 + card Q2"
    using assms finite_ids by (intro card_Un_disjoint) (auto intro: finite_subset)
  moreover have "card (Q1 \<union> Q2) \<le> card ids" using assms finite_ids by (intro card_mono) auto
  ultimately show False using assms maj_quorum by simp
qed

end

section \<open>Steps of a node\<close>

record el =
  el_term :: u32
  el_voted :: u16
  el_role :: nodeState
  el_votes :: nat

datatype el_msg = ElReq u32 | ElGrant u32

definition el_init :: el where
  "el_init = \<lparr>el_term = 0, el_voted = 0, el_role = stateFollower, el_votes = 0\<rparr>"

inductive el_step :: "u16 \<Rightarrow> u16 list \<Rightarrow> (u16 \<times> el_msg) option \<Rightarrow> el \<Rightarrow> el \<Rightarrow> (u16 \<times> el_msg) list \<Rightarrow> bool" for me peers where
  el_start: "el_term e \<noteq> - 1 \<Longrightarrow>
     el_step me peers None e \<lparr>el_term = el_term e + 1, el_voted = me, el_role = stateCandidate, el_votes = 1\<rparr>
       (map (\<lambda>p. (p, ElReq (el_term e + 1))) peers)"
| el_quiet: "r = el_role e \<or> r = stateFollower \<Longrightarrow> el_step me peers inp e (e\<lparr>el_role := r\<rparr>) []"
| el_down: "el_term e < t \<Longrightarrow> el_step me peers inp e (e\<lparr>el_term := t, el_voted := 0, el_role := stateFollower\<rparr>) []"
| el_grant: "e1 = (if el_term e < t then e\<lparr>el_term := t, el_voted := 0, el_role := stateFollower\<rparr> else e) \<Longrightarrow>
     el_term e1 = t \<Longrightarrow> el_voted e1 = 0 \<or> el_voted e1 = c \<Longrightarrow>
     el_step me peers (Some (c, ElReq t)) e (e1\<lparr>el_voted := c\<rparr>) [(c, ElGrant t)]"
| el_count: "el_role e = stateCandidate \<Longrightarrow>
     r = (if el_votes e + 1 \<ge> length peers div 2 + 1 then stateLeader else stateCandidate) \<Longrightarrow>
     el_step me peers (Some (v, ElGrant (el_term e))) e (e\<lparr>el_votes := el_votes e + 1, el_role := r\<rparr>) []"

inductive_cases el_stepE: "el_step me peers inp e e' out"

text \<open>Terms never fall.\<close>

lemma el_step_term: "el_step me peers inp e e' out \<Longrightarrow> el_term e \<le> el_term e'"
  by (induction rule: el_step.induct) (auto simp: word_le_nat_alt word_less_nat_alt unat_plus_one_u32 split: if_splits)

section \<open>The cluster\<close>

record acluster =
  ac_el :: "u16 \<Rightarrow> el"
  ac_net :: "(u16 \<times> u16 \<times> el_msg) multiset"
  ac_votes :: "(u16 \<times> u32 \<times> u16) set"
  ac_counted :: "(u16 \<times> u32 \<times> u16) set"
  ac_leaders :: "(u32 \<times> u16) set"

definition ac_init :: acluster where
  "ac_init = \<lparr>ac_el = (\<lambda>_. el_init), ac_net = {#}, ac_votes = {}, ac_counted = {}, ac_leaders = {}\<rparr>"

text \<open>A vote is counted when a candidate takes a granted vote of its term.\<close>

definition counted_now :: "u16 \<Rightarrow> (u16 \<times> el_msg) option \<Rightarrow> el \<Rightarrow> el \<Rightarrow> (u16 \<times> u32 \<times> u16) set" where
  "counted_now i inp e e' =
     (case inp of Some (v, ElGrant t) \<Rightarrow> (if el_votes e' = el_votes e + 1 then {(i, t, v)} else {}) | _ \<Rightarrow> {})"

definition ac_update :: "acluster \<Rightarrow> u16 \<Rightarrow> (u16 \<times> el_msg) option \<Rightarrow> el \<Rightarrow> (u16 \<times> el_msg) list \<Rightarrow> acluster" where
  "ac_update s i inp e' out =
     s\<lparr>ac_el := (ac_el s)(i := e'),
       ac_net := (case inp of None \<Rightarrow> ac_net s | Some (f, m) \<Rightarrow> ac_net s - {#(f, i, m)#}) + mset (map (\<lambda>(p, m). (i, p, m)) out),
       ac_votes := ac_votes s \<union> (if el_voted e' = 0 then {} else {(i, el_term e', el_voted e')}),
       ac_counted := ac_counted s \<union> counted_now i inp (ac_el s i) e',
       ac_leaders := ac_leaders s \<union> (if el_role e' = stateLeader then {(el_term e', i)} else {})\<rparr>"

inductive ac_step :: "u16 set \<Rightarrow> (u16 \<Rightarrow> u16 list) \<Rightarrow> acluster \<Rightarrow> acluster \<Rightarrow> bool" for ids peers where
  ac_node: "i \<in> ids \<Longrightarrow> (case inp of None \<Rightarrow> True | Some (f, m) \<Rightarrow> (f, i, m) \<in># ac_net s) \<Longrightarrow>
     el_step i (peers i) inp (ac_el s i) e' out \<Longrightarrow> ac_step ids peers s (ac_update s i inp e' out)"
| ac_lose: "x \<in># ac_net s \<Longrightarrow> ac_step ids peers s (s\<lparr>ac_net := ac_net s - {#x#}\<rparr>)"

inductive_cases ac_stepE: "ac_step ids peers s s'"

section \<open>Invariant\<close>

definition voters :: "acluster \<Rightarrow> u16 \<Rightarrow> u32 \<Rightarrow> u16 set" where
  "voters s c t = {v. (c, t, v) \<in> ac_counted s}"

definition votes_inv :: "acluster \<Rightarrow> bool" where
  "votes_inv s \<longleftrightarrow>
     (\<forall>v t c. (v, t, c) \<in> ac_votes s \<longrightarrow> c \<noteq> 0 \<and> t \<le> el_term (ac_el s v) \<and> (t = el_term (ac_el s v) \<longrightarrow> el_voted (ac_el s v) = c)) \<and>
     (\<forall>v t c c'. (v, t, c) \<in> ac_votes s \<longrightarrow> (v, t, c') \<in> ac_votes s \<longrightarrow> c = c') \<and>
     (\<forall>v. el_voted (ac_el s v) \<noteq> 0 \<longrightarrow> (v, el_term (ac_el s v), el_voted (ac_el s v)) \<in> ac_votes s)"

definition net_inv :: "u16 set \<Rightarrow> acluster \<Rightarrow> bool" where
  "net_inv ids s \<longleftrightarrow>
     (\<forall>f i t. (f, i, ElReq t) \<in># ac_net s \<longrightarrow> f \<noteq> i \<and> f \<in> ids \<and> t \<le> el_term (ac_el s f)) \<and>
     (\<forall>v c t. (v, c, ElGrant t) \<in># ac_net s \<longrightarrow> v \<noteq> c \<and> v \<in> ids \<and> t \<le> el_term (ac_el s c) \<and> (v, t, c) \<in> ac_votes s) \<and>
     (\<forall>c t v. (c, t, v) \<in> ac_counted s \<longrightarrow> v \<noteq> c \<and> v \<in> ids \<and> t \<le> el_term (ac_el s c) \<and> (v, t, c) \<in> ac_votes s)"

text \<open>A request, the vote it may become and the counting of that vote exist once in all.\<close>

definition tokens :: "acluster \<Rightarrow> u16 \<Rightarrow> u16 \<Rightarrow> u32 \<Rightarrow> nat" where
  "tokens s c v t = count (ac_net s) (c, v, ElReq t) + count (ac_net s) (v, c, ElGrant t) +
     (if (c, t, v) \<in> ac_counted s then 1 else 0)"

definition token_inv :: "acluster \<Rightarrow> bool" where
  "token_inv s \<longleftrightarrow> (\<forall>c v t. tokens s c v t \<le> 1)"

definition role_inv :: "u16 set \<Rightarrow> acluster \<Rightarrow> bool" where
  "role_inv ids s \<longleftrightarrow>
     (\<forall>c. el_role (ac_el s c) \<noteq> stateFollower \<longrightarrow> c \<in> ids \<and> el_voted (ac_el s c) = c \<and>
        (c, el_term (ac_el s c), c) \<in> ac_votes s \<and>
        el_votes (ac_el s c) \<le> 1 + card (voters s c (el_term (ac_el s c)))) \<and>
     (\<forall>c. el_role (ac_el s c) = stateLeader \<longrightarrow> (el_term (ac_el s c), c) \<in> ac_leaders s)"

definition leader_inv :: "u16 set \<Rightarrow> nat \<Rightarrow> acluster \<Rightarrow> bool" where
  "leader_inv ids maj s \<longleftrightarrow>
     (\<forall>t c. (t, c) \<in> ac_leaders s \<longrightarrow> (\<exists>Q. Q \<subseteq> ids \<and> maj \<le> card Q \<and> (\<forall>v \<in> Q. (v, t, c) \<in> ac_votes s)))"

definition ac_inv :: "u16 set \<Rightarrow> nat \<Rightarrow> acluster \<Rightarrow> bool" where
  "ac_inv ids maj s \<longleftrightarrow> votes_inv s \<and> net_inv ids s \<and> token_inv s \<and> role_inv ids s \<and> leader_inv ids maj s"

lemmas ac_inv_defs = ac_inv_def votes_inv_def net_inv_def token_inv_def role_inv_def leader_inv_def

lemma ac_inv_init: "ac_inv ids maj ac_init"
  by (simp add: ac_inv_defs ac_init_def tokens_def el_init_def)

subsection \<open>Steps that do not vote\<close>

text \<open>Losing messages, staying or becoming a follower, and moving to a later term without a vote.\<close>

definition calmer :: "el \<Rightarrow> el \<Rightarrow> bool" where
  "calmer e e' \<longleftrightarrow>
     (el_term e' = el_term e \<and> el_voted e' = el_voted e \<and> el_votes e' = el_votes e \<and>
        (el_role e' = el_role e \<or> el_role e' = stateFollower)) \<or>
     (el_term e < el_term e' \<and> el_voted e' = 0 \<and> el_role e' = stateFollower)"

lemma calmer_term: "calmer e e' \<Longrightarrow> el_term e \<le> el_term e'"
  by (auto simp: calmer_def)

lemma token_inv_mono:
  assumes "token_inv s" and "ac_net s' \<subseteq># ac_net s" and "ac_counted s' \<subseteq> ac_counted s"
  shows "token_inv s'"
proof -
  have "tokens s' c v t \<le> tokens s c v t" for c v t
    using assms(3) unfolding tokens_def by (intro add_mono mset_subset_eq_count [OF assms(2)]) auto
  with assms(1) show ?thesis unfolding token_inv_def by (blast intro: order_trans)
qed

lemma net_inv_mono:
  assumes "net_inv ids s" and "\<And>x. x \<in># ac_net s' \<Longrightarrow> x \<in># ac_net s"
    and "\<And>j. el_term (ac_el s j) \<le> el_term (ac_el s' j)"
    and "ac_votes s \<subseteq> ac_votes s'" and "ac_counted s' \<subseteq> ac_counted s"
  shows "net_inv ids s'"
proof -
  have req: "f \<noteq> i \<and> f \<in> ids \<and> t \<le> el_term (ac_el s' f)" if "(f, i, ElReq t) \<in># ac_net s'" for f i t
  proof -
    from assms(1) assms(2) [OF that] have "f \<noteq> i \<and> f \<in> ids \<and> t \<le> el_term (ac_el s f)"
      unfolding net_inv_def by blast
    with assms(3) [of f] show ?thesis by (auto intro: order_trans)
  qed
  have grant: "v \<noteq> c \<and> v \<in> ids \<and> t \<le> el_term (ac_el s' c) \<and> (v, t, c) \<in> ac_votes s'"
    if "(v, c, ElGrant t) \<in># ac_net s \<or> (c, t, v) \<in> ac_counted s" for v c t
  proof -
    from assms(1) that have "v \<noteq> c \<and> v \<in> ids \<and> t \<le> el_term (ac_el s c) \<and> (v, t, c) \<in> ac_votes s"
      unfolding net_inv_def by blast
    with assms(3) [of c] assms(4) show ?thesis by (auto intro: order_trans)
  qed
  from req grant assms(2,5) show ?thesis unfolding net_inv_def by blast
qed

lemma ac_inv_calm:
  assumes "ac_inv ids maj s" and "N \<subseteq># ac_net s" and "calmer (ac_el s i) e'"
  shows "ac_inv ids maj (s\<lparr>ac_el := (ac_el s)(i := e'), ac_net := N\<rparr>)" (is "ac_inv ids maj ?s")
proof -
  have inv: "votes_inv s" "net_inv ids s" "token_inv s" "role_inv ids s" "leader_inv ids maj s"
    using assms(1) by (simp_all add: ac_inv_def)
  have "votes_inv ?s"
    using inv(1) assms(3) unfolding votes_inv_def calmer_def by (auto 0 4 dest: order.strict_trans1 less_imp_le)
  moreover have "net_inv ids ?s"
    using calmer_term [OF assms(3)] assms(2)
    by (intro net_inv_mono [OF inv(2)]) (auto dest: mset_subset_eqD)
  moreover have "token_inv ?s"
    using assms(2) by (intro token_inv_mono [OF inv(3)]) simp_all
  moreover have "role_inv ids ?s"
    using inv(4) assms(3) unfolding role_inv_def calmer_def by (auto simp: voters_def)
  moreover have "leader_inv ids maj ?s" using inv(5) by (simp add: leader_inv_def)
  ultimately show ?thesis by (simp add: ac_inv_def)
qed

subsection \<open>Steps of an election\<close>

lemma leader_inv_mono:
  "leader_inv ids maj s \<Longrightarrow> ac_votes s \<subseteq> ac_votes s' \<Longrightarrow> ac_leaders s' = ac_leaders s \<Longrightarrow> leader_inv ids maj s'"
  unfolding leader_inv_def by (simp only:) (intro allI impI, elim allE impE exE conjE, assumption, intro exI conjI, auto)

text \<open>Granting a vote.\<close>

lemma ac_inv_vote:
  assumes inv: "ac_inv ids maj s" and i: "i \<in> ids" "0 \<notin> ids"
    and t: "el_term (ac_el s i) = t" "el_voted (ac_el s i) = 0 \<or> el_voted (ac_el s i) = c"
    and m: "(c, i, ElReq t) \<in># ac_net s"
  shows "ac_inv ids maj (s\<lparr>ac_el := (ac_el s)(i := (ac_el s i)\<lparr>el_voted := c\<rparr>),
    ac_net := ac_net s - {#(c, i, ElReq t)#} + {#(i, c, ElGrant t)#}, ac_votes := insert (i, t, c) (ac_votes s)\<rparr>)"
    (is "ac_inv ids maj ?s")
proof -
  have I: "votes_inv s" "net_inv ids s" "token_inv s" "role_inv ids s" "leader_inv ids maj s"
    using inv by (simp_all add: ac_inv_def)
  from I(2) m have c: "c \<noteq> i" "c \<in> ids" "t \<le> el_term (ac_el s c)" unfolding net_inv_def by blast+
  then have c0: "c \<noteq> 0" using i(2) by auto
  have fol: "el_role (ac_el s i) = stateFollower"
    using I(4) t(2) c(1) i unfolding role_inv_def by (metis)
  have "votes_inv ?s"
    using I(1) t c0 unfolding votes_inv_def by (auto split: if_splits)
  moreover have "net_inv ids ?s"
  proof -
    have "net_inv ids (?s\<lparr>ac_net := ac_net s - {#(c, i, ElReq t)#}\<rparr>)"
      by (rule net_inv_mono [OF I(2)]) (auto dest: in_diffD)
    then show ?thesis using c i(1) t(1) unfolding net_inv_def by auto
  qed
  moreover have "token_inv ?s"
  proof -
    have "tokens ?s x y u \<le> tokens s x y u" for x y u
      using m c(1) by (cases "(x, y, u) = (c, i, t)") (auto simp: tokens_def count_eq_zero_iff)
    with I(3) show ?thesis unfolding token_inv_def by (blast intro: order_trans)
  qed
  moreover have "role_inv ids ?s"
    using I(4) fol unfolding role_inv_def by (auto simp: voters_def)
  moreover have "leader_inv ids maj ?s" by (rule leader_inv_mono [OF I(5)]) auto
  ultimately show ?thesis by (simp add: ac_inv_def)
qed

text \<open>Starting an election in a new term.\<close>

lemma ac_inv_start:
  assumes inv: "ac_inv ids maj s" and i: "i \<in> ids" "0 \<notin> ids" and t: "el_term (ac_el s i) < t"
    and peers: "distinct ps" "set ps = ids - {i}"
  shows "ac_inv ids maj (s\<lparr>ac_el := (ac_el s)(i := \<lparr>el_term = t, el_voted = i, el_role = stateCandidate, el_votes = 1\<rparr>),
    ac_net := ac_net s + mset (map (\<lambda>p. (i, p, ElReq t)) ps), ac_votes := insert (i, t, i) (ac_votes s)\<rparr>)"
    (is "ac_inv ids maj ?s")
proof -
  have I: "votes_inv s" "net_inv ids s" "token_inv s" "role_inv ids s" "leader_inv ids maj s"
    using inv by (simp_all add: ac_inv_def)
  have i0: "i \<noteq> 0" using i by auto
  have new: "(i, t, x) \<notin> ac_votes s" "(i, x, ElReq t) \<notin># ac_net s" "(x, i, ElGrant t) \<notin># ac_net s"
    "(i, t, x) \<notin> ac_counted s" for x
    using I(1,2) t unfolding votes_inv_def net_inv_def by (meson leD)+
  have lt: "u < t" if "(i, u, x) \<in> ac_votes s" for u x
    using I(1) t that unfolding votes_inv_def by (meson order.strict_trans1)
  have "votes_inv ?s"
    using I(1) i0 new(1) unfolding votes_inv_def by (auto split: if_splits dest: lt intro: less_imp_le)
  moreover have "net_inv ids ?s"
  proof -
    have "net_inv ids (?s\<lparr>ac_net := ac_net s\<rparr>)"
      using t by (intro net_inv_mono [OF I(2)]) (auto intro: less_imp_le)
    then show ?thesis using i peers unfolding net_inv_def by auto
  qed
  moreover have "token_inv ?s"
  proof -
    obtain M where M: "M = mset (map (\<lambda>p. (i, p, ElReq t)) ps)" by simp
    have nt: "count M (x, y, ElReq u) = (if x = i \<and> u = t \<and> y \<in> set ps then 1 else 0)" for x y u
      unfolding M using peers(1) by (induction ps) auto
    have ng: "count M (x, y, ElGrant u) = 0" for x y u
      unfolding M by (induction ps) auto
    have tk: "tokens ?s x y u = tokens s x y u + count M (x, y, ElReq u) + count M (y, x, ElGrant u)" for x y u
      unfolding M by (simp add: tokens_def)
    have "tokens s i y t = 0" for y using new by (simp add: tokens_def count_eq_zero_iff)
    then have "tokens ?s x y u \<le> 1" for x y u
      using I(3) unfolding tk nt ng token_inv_def by (cases "x = i \<and> u = t") simp_all
    then show ?thesis by (simp add: token_inv_def)
  qed
  moreover have "role_inv ids ?s"
    using I(4) i unfolding role_inv_def by (auto simp: voters_def)
  moreover have "leader_inv ids maj ?s" by (rule leader_inv_mono [OF I(5)]) auto
  ultimately show ?thesis by (simp add: ac_inv_def)
qed

text \<open>Counting a vote, and with enough of them becoming leader.\<close>

lemma ac_inv_count:
  assumes inv: "ac_inv ids maj s" and i: "i \<in> ids" "finite ids"
    and e: "ac_el s i = e" "el_term e = t" "el_role e = stateCandidate"
    and m: "(v, i, ElGrant t) \<in># ac_net s"
    and r: "r = (if el_votes e + 1 \<ge> maj then stateLeader else stateCandidate)"
  shows "ac_inv ids maj (s\<lparr>ac_el := (ac_el s)(i := e\<lparr>el_votes := el_votes e + 1, el_role := r\<rparr>),
    ac_net := ac_net s - {#(v, i, ElGrant t)#}, ac_counted := insert (i, t, v) (ac_counted s),
    ac_leaders := ac_leaders s \<union> (if r = stateLeader then {(t, i)} else {})\<rparr>)"
    (is "ac_inv ids maj ?s")
proof -
  have I: "votes_inv s" "net_inv ids s" "token_inv s" "role_inv ids s" "leader_inv ids maj s"
    using inv by (simp_all add: ac_inv_def)
  from I(2) m have v: "v \<noteq> i" "v \<in> ids" "t \<le> el_term (ac_el s i)" "(v, t, i) \<in> ac_votes s"
    unfolding net_inv_def by blast+
  have "tokens s i v t \<le> 1" using I(3) by (simp add: token_inv_def)
  moreover have "0 < count (ac_net s) (v, i, ElGrant t)" using m by (simp only: count_greater_zero_iff)
  ultimately have nc: "(i, t, v) \<notin> ac_counted s" unfolding tokens_def by presburger
  have vs: "voters s i t \<subseteq> ids - {i}" "\<forall>w \<in> voters s i t. (w, t, i) \<in> ac_votes s"
    using I(2) unfolding net_inv_def voters_def by blast+
  have fin: "finite (voters s i t)" using vs(1) i(2) by (blast intro: finite_subset)
  have vs': "voters ?s i t = insert v (voters s i t)" by (auto simp: voters_def)
  have card: "card (voters ?s i t) = Suc (card (voters s i t))"
    unfolding vs' using fin nc by (simp add: voters_def)
  have cand: "el_votes e \<le> 1 + card (voters s i t)" "(i, t, i) \<in> ac_votes s" "el_voted e = i"
    using I(4) e unfolding role_inv_def by (metis nodeState.distinct(1))+
  have "votes_inv ?s" using I(1) e unfolding votes_inv_def by auto
  moreover have "net_inv ids ?s"
  proof -
    have "net_inv ids (?s\<lparr>ac_counted := ac_counted s\<rparr>)"
      using e by (intro net_inv_mono [OF I(2)]) (auto dest: in_diffD)
    then show ?thesis using v e unfolding net_inv_def by auto
  qed
  moreover have "token_inv ?s"
  proof -
    have "tokens ?s x y u \<le> tokens s x y u" for x y u
      using m nc v(1) by (cases "(x, y, u) = (i, v, t)") (auto simp: tokens_def)
    with I(3) show ?thesis unfolding token_inv_def by (blast intro: order_trans)
  qed
  moreover have "role_inv ids ?s"
  proof -
    have "voters ?s c u = voters s c u" if "c \<noteq> i" for c u using that by (auto simp: voters_def)
    then show ?thesis
      using I(4) e i cand card r unfolding role_inv_def by (auto split: if_splits)
  qed
  moreover have "leader_inv ids maj ?s"
  proof (cases "r = stateLeader")
    case True
    let ?Q = "insert i (voters ?s i t)"
    have "i \<notin> voters ?s i t" unfolding vs' using vs(1) v(1) by auto
    moreover have "finite (voters ?s i t)" unfolding vs' using fin by simp
    ultimately have "card ?Q = Suc (Suc (card (voters s i t)))" using card by simp
    then have "maj \<le> card ?Q" using True r cand(1) by (simp split: if_splits)
    moreover have "?Q \<subseteq> ids" "\<forall>w \<in> ?Q. (w, t, i) \<in> ac_votes s" unfolding vs' using vs v i(1) cand(2) by auto
    ultimately have "\<exists>Q. Q \<subseteq> ids \<and> maj \<le> card Q \<and> (\<forall>w \<in> Q. (w, t, i) \<in> ac_votes s)" by blast
    with I(5) True show ?thesis unfolding leader_inv_def by auto
  next
    case False
    then show ?thesis by (intro leader_inv_mono [OF I(5)]) simp_all
  qed
  ultimately show ?thesis by (simp add: ac_inv_def)
qed

section \<open>Election safety\<close>

lemma ac_update_calm:
  assumes "ac_inv ids maj s" and "calmer (ac_el s i) e'"
    and "case inp of None \<Rightarrow> True | Some (f, m) \<Rightarrow> (f, i, m) \<in># ac_net s"
    and "el_votes e' = el_votes (ac_el s i)"
  shows "\<exists>N. N \<subseteq># ac_net s \<and> ac_update s i inp e' [] = s\<lparr>ac_el := (ac_el s)(i := e'), ac_net := N\<rparr>"
proof -
  let ?N = "case inp of None \<Rightarrow> ac_net s | Some (f, m) \<Rightarrow> ac_net s - {#(f, i, m)#}"
  have "?N \<subseteq># ac_net s" by (auto split: option.splits)
  moreover have "counted_now i inp (ac_el s i) e' = {}"
    using assms(4) by (auto simp: counted_now_def split: option.splits el_msg.splits)
  moreover have "ac_votes s \<union> (if el_voted e' = 0 then {} else {(i, el_term e', el_voted e')}) = ac_votes s"
    using assms(1,2) unfolding ac_inv_def votes_inv_def calmer_def by auto
  moreover have "ac_leaders s \<union> (if el_role e' = stateLeader then {(el_term e', i)} else {}) = ac_leaders s"
    using assms(1,2) unfolding ac_inv_def role_inv_def calmer_def by (auto simp: insert_absorb)
  ultimately show ?thesis
    by (intro exI [of _ ?N]) (simp add: ac_update_def split: option.splits)
qed

locale election_cluster = quorums ids maj for ids :: "u16 set" and maj :: nat +
  fixes peers :: "u16 \<Rightarrow> u16 list"
  assumes zero_id: "0 \<notin> ids"
    and peers_of: "i \<in> ids \<Longrightarrow> distinct (peers i) \<and> set (peers i) = ids - {i}"
    and peers_maj: "i \<in> ids \<Longrightarrow> length (peers i) div 2 + 1 = maj"
begin

lemma ac_inv_step: "ac_step ids peers s s' \<Longrightarrow> ac_inv ids maj s \<Longrightarrow> ac_inv ids maj s'"
proof (induction rule: ac_step.induct)
  case (ac_lose x s)
  have "calmer (ac_el s 0) (ac_el s 0)" by (simp add: calmer_def)
  from ac_inv_calm [OF ac_lose(2) _ this, of "ac_net s - {#x#}"] show ?case by simp
next
  case (ac_node i inp s e' out)
  let ?e = "ac_el s i"
  note inv = ac_node(4)
  from ac_node(3) show ?case
  proof (cases rule: el_step.cases)
    case el_start
    have lt: "el_term ?e < el_term ?e + 1"
      using el_start(4) by (simp add: word_less_nat_alt unat_plus_one_u32)
    have "i \<noteq> 0" using ac_node(1) zero_id by auto
    then have "ac_update s i inp e' out = s\<lparr>ac_el := (ac_el s)(i := \<lparr>el_term = el_term ?e + 1, el_voted = i, el_role = stateCandidate, el_votes = 1\<rparr>),
      ac_net := ac_net s + mset (map (\<lambda>p. (i, p, ElReq (el_term ?e + 1))) (peers i)),
      ac_votes := insert (i, el_term ?e + 1, i) (ac_votes s)\<rparr>"
      using el_start by (simp add: ac_update_def counted_now_def comp_def)
    with ac_inv_start [OF inv ac_node(1) zero_id lt, of "peers i"] peers_of [OF ac_node(1)] show ?thesis by simp
  next
    case (el_quiet r)
    have c: "calmer ?e e'" "el_votes e' = el_votes ?e" using el_quiet by (auto simp: calmer_def)
    from ac_update_calm [OF inv c(1) ac_node(2) c(2)] ac_inv_calm [OF inv _ c(1)] el_quiet(2) show ?thesis by auto
  next
    case (el_down t)
    have c: "calmer ?e e'" "el_votes e' = el_votes ?e" using el_down by (auto simp: calmer_def)
    from ac_update_calm [OF inv c(1) ac_node(2) c(2)] ac_inv_calm [OF inv _ c(1)] el_down(2) show ?thesis by auto
  next
    case (el_grant e1 t c)
    have c: "calmer ?e e1" using el_grant by (auto simp: calmer_def)
    let ?s1 = "s\<lparr>ac_el := (ac_el s)(i := e1), ac_net := ac_net s\<rparr>"
    have m: "(c, i, ElReq t) \<in># ac_net s" using ac_node(2) el_grant(1) by simp
    have "ac_inv ids maj ?s1" by (rule ac_inv_calm [OF inv _ c]) simp
    moreover have "c \<noteq> 0" using inv m zero_id unfolding ac_inv_def net_inv_def by metis
    moreover have "e1 = ?e \<or> el_role e1 = stateFollower" "el_role ?e = stateLeader \<Longrightarrow> (el_term ?e, i) \<in> ac_leaders s"
      using el_grant inv unfolding ac_inv_def role_inv_def by auto
    ultimately show ?thesis
      using ac_inv_vote [of ids maj ?s1 i t c] ac_node(1) zero_id m el_grant
      by (auto simp: ac_update_def counted_now_def insert_absorb split: if_splits)
  next
    case (el_count r v)
    have m: "(v, i, ElGrant (el_term ?e)) \<in># ac_net s" using ac_node(2) el_count(1) by simp
    have r: "r = (if el_votes ?e + 1 \<ge> maj then stateLeader else stateCandidate)"
      using el_count(5) peers_maj [OF ac_node(1)] by simp
    have "el_voted ?e = i" "(i, el_term ?e, i) \<in> ac_votes s"
      using inv el_count(4) unfolding ac_inv_def role_inv_def by (metis nodeState.distinct(1))+
    with ac_inv_count [OF inv ac_node(1) finite_ids refl refl el_count(4) m r] el_count(1-3) show ?thesis
      by (cases "r = stateLeader"; cases "i = 0") (simp_all add: ac_update_def counted_now_def insert_absorb)
  qed
qed

lemma ac_inv_reachable: "(ac_step ids peers)\<^sup>*\<^sup>* ac_init s \<Longrightarrow> ac_inv ids maj s"
  by (induction rule: rtranclp_induct) (auto intro: ac_inv_init ac_inv_step)

lemma one_leader_per_term:
  assumes "(ac_step ids peers)\<^sup>*\<^sup>* ac_init s" and "(t, i) \<in> ac_leaders s" and "(t, j) \<in> ac_leaders s"
  shows "i = j"
proof -
  have I: "leader_inv ids maj s" "votes_inv s" using ac_inv_reachable [OF assms(1)] by (simp_all add: ac_inv_def)
  from I(1) assms(2,3) obtain Q1 Q2 where Q: "Q1 \<subseteq> ids" "maj \<le> card Q1" "\<forall>v \<in> Q1. (v, t, i) \<in> ac_votes s"
    "Q2 \<subseteq> ids" "maj \<le> card Q2" "\<forall>v \<in> Q2. (v, t, j) \<in> ac_votes s" unfolding leader_inv_def by meson
  from quorums_meet [OF Q(1,4,2,5)] obtain v where "v \<in> Q1" "v \<in> Q2" by blast
  with Q(3,6) I(2) show "i = j" unfolding votes_inv_def by blast
qed

end

end
