(* ===== verification/Raft_Cluster.thy ===== *)
theory Raft_Cluster
  imports Raft_Properties Raft_Election
begin

text \<open>
  A cluster of Raft nodes on an unreliable network, and the proof that its elections implement the
  protocol of \<open>Raft_Election\<close>. A step is the whole handler of one event on one node; messages may be
  lost and delivered in any order, but each at most once. A node that panics takes no step. The
  election timer does not fire in the last term, 2^32 - 1, where \<open>currentTerm++\<close> would wrap.
\<close>

section \<open>The cluster\<close>

type_synonym packet = "u16 \<times> u16 \<times> raft_payload"

record cluster =
  cl_node :: "u16 \<Rightarrow> Raft"
  cl_net :: "packet list"
  cl_leaders :: "(u32 \<times> u16) set"
  cl_applied :: "(u16 \<times> u32 \<times> bytes) list"

definition cl_env :: "u16 list \<Rightarrow> u16 \<Rightarrow> api_env" where
  "cl_env ids i = \<lparr>env_ID = i, env_Peers = filter (\<lambda>p. p \<noteq> i) ids, env_Now = 0\<rparr>"

definition cl_init :: "RaftConfig \<Rightarrow> (u16 \<Rightarrow> rng) \<Rightarrow> cluster" where
  "cl_init c r = \<lparr>cl_node = (\<lambda>i. raft_New c (r i) True), cl_net = [], cl_leaders = {}, cl_applied = []\<rparr>"

definition packets :: "u16 \<Rightarrow> raft_call list \<Rightarrow> packet list" where
  "packets i cs = concat (map (\<lambda>c. case c of RSend p _ _ x \<Rightarrow> [(i, p, x)] | _ \<Rightarrow> []) cs)"

definition cl_update :: "cluster \<Rightarrow> u16 \<Rightarrow> packet list \<Rightarrow> Raft \<times> raft_call list \<Rightarrow> cluster" where
  "cl_update s i net r =
     s\<lparr>cl_node := (cl_node s)(i := fst r),
       cl_net := net @ packets i (snd r),
       cl_leaders := cl_leaders s \<union> (if IsLeader (fst r) then {(currentTerm (fst r), i)} else {}),
       cl_applied := cl_applied s @ map (\<lambda>(k, c). (i, k, c)) (applied (snd r))\<rparr>"

datatype cl_event =
    CTick u16 string
  | CDeliver packet
  | CLose packet
  | CPropose u16 bytes

fun cl_step :: "u16 list \<Rightarrow> cl_event \<Rightarrow> cluster \<Rightarrow> cluster option" where
  "cl_step ids (CTick i name) s =
     (if i \<in> set ids \<and> \<not> (name = timerElection \<and> currentTerm (cl_node s i) = - 1)
      then (case raft_step (cl_env ids i) (EvTick name) (cl_node s i) of
              Inl _ \<Rightarrow> None | Inr r \<Rightarrow> Some (cl_update s i (cl_net s) r))
      else None)"
| "cl_step ids (CDeliver (f, i, p)) s =
     (if (f, i, p) \<in> set (cl_net s) \<and> i \<in> set ids
      then (case raft_step (cl_env ids i) (EvMessage f p) (cl_node s i) of
              Inl _ \<Rightarrow> None | Inr r \<Rightarrow> Some (cl_update s i (remove1 (f, i, p) (cl_net s)) r))
      else None)"
| "cl_step ids (CLose x) s =
     (if x \<in> set (cl_net s) then Some (s\<lparr>cl_net := remove1 x (cl_net s)\<rparr>) else None)"
| "cl_step ids (CPropose i cmd) s =
     (if i \<in> set ids
      then (case raft_step (cl_env ids i) (EvPropose cmd) (cl_node s i) of
              Inl _ \<Rightarrow> None | Inr r \<Rightarrow> Some (cl_update s i (cl_net s) r))
      else None)"

fun cl_run :: "u16 list \<Rightarrow> cl_event list \<Rightarrow> cluster \<Rightarrow> cluster option" where
  "cl_run ids [] s = Some s"
| "cl_run ids (e # es) s = (case cl_step ids e s of None \<Rightarrow> None | Some s' \<Rightarrow> cl_run ids es s')"

section \<open>Projection to the election protocol\<close>

definition el_of :: "Raft \<Rightarrow> el" where
  "el_of a = \<lparr>el_term = currentTerm a, el_voted = votedFor a, el_role = rstate a, el_votes = votesReceived a\<rparr>"

definition el_payload :: "raft_payload \<Rightarrow> el_msg list" where
  "el_payload x = (case x of
     PRequestVote rv \<Rightarrow> [ElReq (rv_Term rv)]
   | PRequestVoteReply rvr \<Rightarrow> (if rvr_VoteGranted rvr then [ElGrant (rvr_Term rvr)] else [])
   | _ \<Rightarrow> [])"

definition el_sends :: "raft_call list \<Rightarrow> (u16 \<times> el_msg) list" where
  "el_sends cs = concat (map (\<lambda>c. case c of RSend p _ _ x \<Rightarrow> map (\<lambda>m. (p, m)) (el_payload x) | _ \<Rightarrow> []) cs)"

lemma el_sends_simps [simp]:
  "el_sends [] = []" "el_sends (as @ bs) = el_sends as @ el_sends bs"
  "el_sends (RSend p t q x # cs) = map (\<lambda>m. (p, m)) (el_payload x) @ el_sends cs"
  "el_sends (RSetTimer n d # cs) = el_sends cs" "el_sends (RCancelTimer n # cs) = el_sends cs"
  "el_sends (RApply i c # cs) = el_sends cs"
  by (simp_all add: el_sends_def)

text \<open>\<open>el_res r e out\<close>: if \<open>r\<close> returns, the election state becomes \<open>e\<close> and \<open>out\<close> is sent.\<close>

definition el_res :: "raft_result \<Rightarrow> el \<Rightarrow> (u16 \<times> el_msg) list \<Rightarrow> bool" where
  "el_res r e out \<longleftrightarrow> (case r of Inl _ \<Rightarrow> True | Inr (a', cs) \<Rightarrow> el_of a' = e \<and> el_sends cs = out)"

lemma el_res_Inr [simp]: "el_res (Inr (a', cs)) e out \<longleftrightarrow> el_of a' = e \<and> el_sends cs = out"
  by (simp add: el_res_def)

lemma el_res_Inl [simp]: "el_res (Inl x) e out"
  by (simp add: el_res_def)

lemma el_res_andThen:
  assumes "el_res r e1 []" and "\<And>a1 cs. r = Inr (a1, cs) \<Longrightarrow> el_of a1 = e1 \<Longrightarrow> el_res (f a1) e2 out"
  shows "el_res (andThen r f) e2 out"
proof (cases r)
  case (Inr x)
  then obtain a1 cs where r: "r = Inr (a1, cs)" by (cases x) auto
  with assms(1) assms(2) [OF r] show ?thesis
    by (auto simp: andThen_def split: sum.splits)
qed simp

lemma el_res_prefix:
  "el_sends cs = [] \<Longrightarrow> el_res (f s) e out \<Longrightarrow> el_res (andThen (Inr (s, cs)) f) e out"
  by (rule el_res_andThen [where r = "Inr (s, cs)" and ?e1.0 = "el_of s"]) auto

lemma el_of_voted: "el_of (a\<lparr>votedFor := c\<rparr>) = (el_of a)\<lparr>el_voted := c\<rparr>"
  by (simp add: el_of_def)

lemma el_res_reset: "el_of a = e \<Longrightarrow> el_res (resetElectionTimer a) e []"
  by (auto simp: resetElectionTimer_def el_of_def split: sum.splits)

lemma el_res_stepDown:
  "el_res (stepDown t a) ((el_of a)\<lparr>el_term := t, el_voted := 0, el_role := stateFollower\<rparr>) []"
  unfolding stepDown_def
  by (rule el_res_andThen, simp) (auto intro!: el_res_reset simp: el_of_def)

lemma el_res_send_ae: "el_res (sendAppendEntries env p a) (el_of a) []"
  by (auto simp: sendAppendEntries_def Let_def el_payload_def split: sum.splits)

lemma el_res_send_ae_loop: "el_of a = e \<Longrightarrow> el_res (send_ae_loop env ps a) e []"
proof (induction ps arbitrary: a)
  case (Cons p ps)
  then show ?case using el_res_send_ae [of env p a] by (auto intro: el_res_andThen)
qed simp

lemma el_res_becomeLeader: "el_res (becomeLeader env a) ((el_of a)\<lparr>el_role := stateLeader\<rparr>) []"
  unfolding becomeLeader_def broadcastAppendEntries_def Let_def
  by (rule el_res_andThen, simp) (auto intro!: el_res_send_ae_loop simp: el_of_def)

lemma el_res_applyCommitted: "el_res (applyCommitted a) (el_of a) []"
proof (induction a rule: applyCommitted.induct)
  case (1 a)
  let ?a = "a\<lparr>lastApplied := lastApplied a + 1\<rparr>"
  show ?case
  proof (cases "lastApplied a < commitIndex a")
    case True
    from "1.IH" [OF True refl] have "el_res (applyCommitted ?a) (el_of a) []" by (simp add: el_of_def)
    with True show ?thesis
      by (subst applyCommitted.simps)
        (auto simp: Let_def go_index_def simp del: andThen_Inr intro!: el_res_prefix)
  next
    case False
    then show ?thesis by (subst applyCommitted.simps) simp
  qed
qed

lemma el_res_maybeCommit_loop: "el_res (maybeCommit_loop env n a) (el_of a) []"
proof (induction env n a rule: maybeCommit_loop.induct)
  case (1 env n a)
  have "el_res (applyCommitted (a\<lparr>commitIndex := n\<rparr>)) (el_of a) []"
    using el_res_applyCommitted [of "a\<lparr>commitIndex := n\<rparr>"] by (simp add: el_of_def)
  with 1 show ?case
    by (subst maybeCommit_loop.simps) (auto simp: Let_def split: sum.splits)
qed

section \<open>Every handler is a step of the protocol\<close>

text \<open>The message of the protocol that an event brings, if any.\<close>

fun el_input :: "raft_event \<Rightarrow> (u16 \<times> el_msg) option" where
  "el_input (EvMessage f (PRequestVote rv)) = Some (f, ElReq (rv_Term rv))"
| "el_input (EvMessage f (PRequestVoteReply rvr)) = (if rvr_VoteGranted rvr then Some (f, ElGrant (rvr_Term rvr)) else None)"
| "el_input _ = None"

text \<open>A result is a step of the protocol; only an election start (\<open>st\<close>) sends vote requests.\<close>

definition no_request :: "(u16 \<times> el_msg) list \<Rightarrow> bool" where
  "no_request out \<longleftrightarrow> (\<forall>p t. (p, ElReq t) \<notin> set out)"

definition el_sim :: "bool \<Rightarrow> api_env \<Rightarrow> (u16 \<times> el_msg) option \<Rightarrow> Raft \<Rightarrow> raft_result \<Rightarrow> bool" where
  "el_sim st env inp a r \<longleftrightarrow> (case r of Inl _ \<Rightarrow> True | Inr (a', cs) \<Rightarrow>
     el_step (env_ID env) (env_Peers env) inp (el_of a) (el_of a') (el_sends cs) \<and> (st \<or> no_request (el_sends cs)))"

lemma el_simI:
  "el_res r e out \<Longrightarrow> el_step (env_ID env) (env_Peers env) inp (el_of a) e out \<Longrightarrow> st \<or> no_request out \<Longrightarrow>
     el_sim st env inp a r"
  by (auto simp: el_sim_def el_res_def split: sum.splits)

lemma el_step_same: "el_step me ps inp e e []"
  using el_quiet [of "el_role e" e me ps inp] by simp

lemma el_sim_quiet: "el_res r (el_of a) [] \<Longrightarrow> el_sim st env inp a r"
  by (erule el_simI) (simp_all add: el_step_same no_request_def)

lemma el_sim_down: "currentTerm a < t \<Longrightarrow> el_sim st env inp a (stepDown t a)"
  by (rule el_simI [OF el_res_stepDown], rule el_down) (simp_all add: el_of_def no_request_def)

lemma el_sim_startElection:
  assumes "currentTerm a \<noteq> - 1"
  shows "el_sim True env None a (startElection env a)"
proof (rule el_simI)
  have "el_sends (sendToAll env t q (PRequestVote rv)) = map (\<lambda>p. (p, ElReq (rv_Term rv))) (env_Peers env)" for t q rv
    by (induction "env_Peers env" arbitrary: env) (simp_all add: sendToAll_def el_sends_def el_payload_def comp_def)
  then show "el_res (startElection env a)
     \<lparr>el_term = currentTerm a + 1, el_voted = env_ID env, el_role = stateCandidate, el_votes = 1\<rparr>
     (map (\<lambda>p. (p, ElReq (currentTerm a + 1))) (env_Peers env))"
    unfolding startElection_def
    by (intro el_res_andThen [OF el_res_reset]) (auto simp: el_of_def Let_def split: prod.splits)
  show "el_step (env_ID env) (env_Peers env) None (el_of a)
     \<lparr>el_term = currentTerm a + 1, el_voted = env_ID env, el_role = stateCandidate, el_votes = 1\<rparr>
     (map (\<lambda>p. (p, ElReq (currentTerm a + 1))) (env_Peers env))"
    using el_start [of "el_of a" "env_ID env" "env_Peers env"] assms by (simp add: el_of_def)
qed simp

lemma el_res_grant:
  "el_res (andThen (resetElectionTimer (a\<lparr>votedFor := c\<rparr>))
      (\<lambda>a'. Inr (a', [RSend c ttl pri (PRequestVoteReply \<lparr>rvr_Term = t, rvr_VoteGranted = True\<rparr>)])))
     ((el_of a)\<lparr>el_voted := c\<rparr>) [(c, ElGrant t)]"
  by (rule el_res_andThen [OF el_res_reset [OF el_of_voted]]) (simp add: el_payload_def)

lemma el_sim_handleRequestVote:
  assumes "rv_CandidateID rv = c"
  shows "el_sim False env (Some (c, ElReq (rv_Term rv))) a (handleRequestVote env c rv a)"
proof -
  let ?e1 = "if currentTerm a < rv_Term rv
    then (el_of a)\<lparr>el_term := rv_Term rv, el_voted := 0, el_role := stateFollower\<rparr> else el_of a"
  let ?r1 = "if rv_Term rv > currentTerm a then stepDown (rv_Term rv) a else Inr (a, [])"
  show ?thesis
  proof (cases ?r1)
    case (Inl x)
    then show ?thesis by (simp add: handleRequestVote_def el_sim_def)
  next
    case (Inr y)
    obtain a1 cs1 where r1: "?r1 = Inr (a1, cs1)" using Inr by (cases y) auto
    have a1: "el_of a1 = ?e1" "el_sends cs1 = []"
      using r1 el_res_stepDown [of "rv_Term rv" a] by (auto split: if_splits)
    let ?granted = "rv_Term rv = currentTerm a1 \<and>
      (rv_LastLogTerm rv > snd (lastLogInfo a1) \<or> (rv_LastLogTerm rv = snd (lastLogInfo a1) \<and> rv_LastLogIndex rv \<ge> fst (lastLogInfo a1))) \<and>
      (votedFor a1 = 0 \<or> votedFor a1 = c)"
    have down: "el_step (env_ID env) (env_Peers env) inp (el_of a) ?e1 []" for inp
      using el_down [of "el_of a" "rv_Term rv" "env_ID env" "env_Peers env" inp] el_step_same
      by (auto simp: el_of_def)
    show ?thesis
    proof (cases ?granted)
      case True
      have "el_res (handleRequestVote env c rv a) ((el_of a1)\<lparr>el_voted := c\<rparr>) [(c, ElGrant (rv_Term rv))]"
        unfolding handleRequestVote_def r1 Let_def case_prod_beta assms if_P [OF True]
        by (rule el_res_prefix [OF a1(2)]) (use True el_res_grant [where a = a1 and c = c] in simp)
      moreover have "el_step (env_ID env) (env_Peers env) (Some (c, ElReq (rv_Term rv))) (el_of a)
          ((el_of a1)\<lparr>el_voted := c\<rparr>) [(c, ElGrant (rv_Term rv))]"
        using True a1(1) by (intro el_grant) (auto simp: el_of_def split: if_splits)
      ultimately show ?thesis by (rule el_simI) (simp add: no_request_def)
    next
      case False
      have "el_res (handleRequestVote env c rv a) ?e1 []"
        unfolding handleRequestVote_def r1 using False assms
        by (auto simp: Let_def case_prod_beta a1 el_payload_def)
      then show ?thesis using down by (rule el_simI) (simp add: no_request_def)
    qed
  qed
qed

lemma el_sim_handleRequestVoteReply:
  "el_sim False env (el_input (EvMessage f (PRequestVoteReply rvr))) a (handleRequestVoteReply env rvr a)"
proof -
  consider "rvr_Term rvr > currentTerm a"
    | "\<not> rvr_Term rvr > currentTerm a" "rstate a = stateCandidate" "rvr_Term rvr = currentTerm a" "rvr_VoteGranted rvr"
    | "\<not> rvr_Term rvr > currentTerm a" "rstate a \<noteq> stateCandidate \<or> rvr_Term rvr \<noteq> currentTerm a \<or> \<not> rvr_VoteGranted rvr"
    by blast
  then show ?thesis
  proof cases
    case 1
    then show ?thesis by (simp add: handleRequestVoteReply_def el_sim_down)
  next
    case 2
    let ?r = "if el_votes (el_of a) + 1 \<ge> length (env_Peers env) div 2 + 1 then stateLeader else stateCandidate"
    have "el_step (env_ID env) (env_Peers env) (Some (f, ElGrant (el_term (el_of a)))) (el_of a)
        ((el_of a)\<lparr>el_votes := el_votes (el_of a) + 1, el_role := ?r\<rparr>) []"
      using 2 by (intro el_count) (simp_all add: el_of_def)
    moreover have "el_res (handleRequestVoteReply env rvr a)
        ((el_of a)\<lparr>el_votes := el_votes (el_of a) + 1, el_role := ?r\<rparr>) []"
      using 2 el_res_becomeLeader [of env "a\<lparr>votesReceived := votesReceived a + 1\<rparr>"]
      by (auto simp: handleRequestVoteReply_def Let_def el_of_def)
    ultimately show ?thesis using 2 by (auto intro: el_simI simp: el_of_def no_request_def)
  next
    case 3
    then have "handleRequestVoteReply env rvr a = Inr (a, [])" by (auto simp: handleRequestVoteReply_def)
    then show ?thesis by (simp add: el_sim_quiet)
  qed
qed

lemma el_sim_handleAppendEntries: "el_sim False env None a (handleAppendEntries env f ae a)"
proof (cases "ae_Term ae < currentTerm a")
  case True
  then show ?thesis by (intro el_sim_quiet) (simp add: handleAppendEntries_def send_reply_def el_payload_def)
next
  case False
  let ?e1 = "if currentTerm a < ae_Term ae
    then (el_of a)\<lparr>el_term := ae_Term ae, el_voted := 0, el_role := stateFollower\<rparr>
    else (el_of a)\<lparr>el_role := stateFollower\<rparr>"
  have step: "el_step (env_ID env) (env_Peers env) None (el_of a) ?e1 []"
    using el_down [of "el_of a" "ae_Term ae"] el_quiet [of stateFollower "el_of a"] by (auto simp: el_of_def)
  have fin: "el_res r1 ?e1 []" if "r1 = (if ae_Term ae > currentTerm a then stepDown (ae_Term ae) a
      else resetElectionTimer (a\<lparr>rstate := stateFollower\<rparr>))" for r1
    using that el_res_stepDown [of "ae_Term ae" a] by (auto intro!: el_res_reset simp: el_of_def)
  have commit: "el_res (applyCommitted (a1\<lparr>leaderID := l, rlog := L, commitIndex := k\<rparr>)) (el_of a1) []" for a1 l L k
    using el_res_applyCommitted [of "a1\<lparr>leaderID := l, rlog := L, commitIndex := k\<rparr>"] by (simp add: el_of_def)
  have upd: "el_of (a1\<lparr>leaderID := l\<rparr>) = el_of a1" "el_of (a1\<lparr>leaderID := l, rlog := L\<rparr>) = el_of a1" for a1 l L
    by (simp_all add: el_of_def)
  have rep: "el_sends [send_reply f x] = []" for x by (simp add: send_reply_def el_payload_def)
  have "el_res (handleAppendEntries env f ae a) ?e1 []"
    unfolding handleAppendEntries_def Let_def if_not_P [OF False]
    using commit upd rep
    by (intro el_res_andThen [OF fin [OF refl]]) (auto split: sum.splits bool.splits intro!: el_res_andThen)
  then show ?thesis using step by (rule el_simI) (simp add: no_request_def)
qed

lemma el_sim_handleAppendReply: "el_sim False env None a (handleAppendReply env f ar a)"
proof (cases "ar_Term ar > currentTerm a")
  case True
  then show ?thesis by (simp add: handleAppendReply_def el_sim_down)
next
  case False
  have keep: "el_of (a\<lparr>matchIndex := M, nextIndex := N\<rparr>) = el_of a" "el_of (a\<lparr>nextIndex := N\<rparr>) = el_of a" for M N
    by (simp_all add: el_of_def)
  show ?thesis
    using False el_res_maybeCommit_loop el_res_send_ae keep
    by (intro el_sim_quiet) (auto simp: handleAppendReply_def maybeCommit_def, metis+)
qed

text \<open>All events; a vote request has to come from the candidate it names.\<close>

fun ev_honest :: "raft_event \<Rightarrow> bool" where
  "ev_honest (EvMessage f (PRequestVote rv)) \<longleftrightarrow> rv_CandidateID rv = f"
| "ev_honest _ \<longleftrightarrow> True"

lemma el_sim_step:
  assumes "ev_honest ev" and "ev = EvTick timerElection \<longrightarrow> currentTerm a \<noteq> - 1"
  shows "el_sim (ev = EvTick timerElection) env (el_input ev) a (raft_step env ev a)"
proof (cases ev)
  case (EvMessage f p)
  then show ?thesis
    using assms(1) el_sim_handleRequestVote el_sim_handleRequestVoteReply el_sim_handleAppendEntries el_sim_handleAppendReply
    by (cases p) (simp_all add: raft_handle_def)
next
  case (EvTick name)
  show ?thesis
  proof (cases "name = timerElection")
    case True
    with EvTick assms(2) show ?thesis by (simp add: raft_OnTick_def el_sim_startElection)
  next
    case False
    have "el_res (raft_OnTick env name a) (el_of a) []"
      using False by (simp add: raft_OnTick_def broadcastAppendEntries_def el_res_send_ae_loop)
    with EvTick show ?thesis by (simp add: el_sim_quiet)
  qed
next
  case (EvPropose cmd)
  have "el_res (snd (Propose env cmd a)) (el_of a) []"
    by (auto simp: Propose_def broadcastAppendEntries_def el_of_def intro!: el_res_send_ae_loop)
  with EvPropose show ?thesis by (simp add: el_sim_quiet)
qed

text \<open>Vote requests name their sender.\<close>

lemma request_in_el_sends:
  "RSend p t q (PRequestVote rv) \<in> set cs \<Longrightarrow> (p, ElReq (rv_Term rv)) \<in> set (el_sends cs)"
  by (force simp: el_sends_def el_payload_def)

lemma request_names_sender:
  assumes "el_sim (ev = EvTick timerElection) env inp a (raft_step env ev a)" and "raft_step env ev a = Inr (a', cs)"
    and "RSend p t q (PRequestVote rv) \<in> set cs"
  shows "rv_CandidateID rv = env_ID env"
proof (cases "ev = EvTick timerElection")
  case True
  with assms(2,3) show ?thesis
    by (auto simp: raft_OnTick_def startElection_def sendToAll_def resetElectionTimer_def andThen_def
        split: sum.splits prod.splits)
next
  case False
  with assms(1,2) request_in_el_sends [OF assms(3)] show ?thesis by (auto simp: el_sim_def no_request_def)
qed

section \<open>The cluster implements the election protocol\<close>

definition net_el :: "packet list \<Rightarrow> (u16 \<times> u16 \<times> el_msg) multiset" where
  "net_el net = mset (concat (map (\<lambda>(f, i, x). map (\<lambda>m. (f, i, m)) (el_payload x)) net))"

definition cl_peers :: "u16 list \<Rightarrow> u16 \<Rightarrow> u16 list" where
  "cl_peers ids i = filter (\<lambda>p. p \<noteq> i) ids"

definition cl_sim :: "cluster \<Rightarrow> acluster \<Rightarrow> bool" where
  "cl_sim s A \<longleftrightarrow> ac_el A = (\<lambda>i. el_of (cl_node s i)) \<and> ac_net A = net_el (cl_net s) \<and> ac_leaders A = cl_leaders s \<and>
     (\<forall>f i rv. (f, i, PRequestVote rv) \<in> set (cl_net s) \<longrightarrow> rv_CandidateID rv = f)"

lemma net_el_append [simp]: "net_el (as @ bs) = net_el as + net_el bs"
  by (simp add: net_el_def)

lemma net_el_packets: "net_el (packets i cs) = mset (map (\<lambda>(p, m). (i, p, m)) (el_sends cs))"
  by (induction cs) (auto simp: net_el_def packets_def el_sends_def multiset.map_comp comp_def split: raft_call.splits)

lemma net_el_remove1:
  assumes "(f, i, x) \<in> set net"
  shows "net_el (remove1 (f, i, x) net) = net_el net - mset (map (\<lambda>m. (f, i, m)) (el_payload x))"
  using assms
proof (induction net)
  case (Cons y net)
  show ?case
  proof (cases "y = (f, i, x)")
    case True
    then show ?thesis by (simp add: net_el_def)
  next
    case False
    with Cons obtain pre post where "net = pre @ (f, i, x) # post" by (auto dest: split_list)
    then have "mset (map (\<lambda>m. (f, i, m)) (el_payload x)) \<subseteq># net_el net" by (simp add: net_el_def)
    with False Cons show ?thesis by (auto simp: net_el_def)
  qed
qed simp

lemma net_el_mem: "(f, i, p) \<in> set net \<Longrightarrow> m \<in> set (el_payload p) \<Longrightarrow> (f, i, m) \<in># net_el net"
  by (force simp: net_el_def)

lemma packets_request: "(f, p, x) \<in> set (packets i cs) \<Longrightarrow> f = i \<and> (\<exists>t q. RSend p t q x \<in> set cs)"
  by (force simp: packets_def split: raft_call.splits)

lemma el_input_payload:
  "el_input (EvMessage f p) = (case el_payload p of [] \<Rightarrow> None | m # _ \<Rightarrow> Some (f, m))"
  "length (el_payload p) \<le> 1"
  by (cases p; simp add: el_payload_def)+

text \<open>One event handled by node \<open>i\<close>, with the packets \<open>net\<close> left of the network.\<close>

lemma cl_sim_event:
  assumes sim: "cl_sim s A" and i: "i \<in> set ids" and run: "raft_step (cl_env ids i) ev (cl_node s i) = Inr r"
    and ev: "ev_honest ev" "ev = EvTick timerElection \<longrightarrow> currentTerm (cl_node s i) \<noteq> - 1"
    and net: "set net \<subseteq> set (cl_net s)"
      "case el_input ev of None \<Rightarrow> net_el net = net_el (cl_net s)
       | Some (f, m) \<Rightarrow> (f, i, m) \<in># net_el (cl_net s) \<and> net_el net = net_el (cl_net s) - {#(f, i, m)#}"
  shows "\<exists>A'. ac_step (set ids) (cl_peers ids) A A' \<and> cl_sim (cl_update s i net r) A'"
proof -
  obtain a' cs where r: "r = (a', cs)" by fastforce
  have env: "env_ID (cl_env ids i) = i" "env_Peers (cl_env ids i) = cl_peers ids i"
    by (simp_all add: cl_env_def cl_peers_def)
  have es: "el_sim (ev = EvTick timerElection) (cl_env ids i) (el_input ev) (cl_node s i) (Inr (a', cs))"
    using el_sim_step [OF ev, of "cl_env ids i"] run r by simp
  then have st: "el_step i (cl_peers ids i) (el_input ev) (ac_el A i) (el_of a') (el_sends cs)"
    using sim by (simp add: el_sim_def env cl_sim_def)
  let ?A' = "ac_update A i (el_input ev) (el_of a') (el_sends cs)"
  have "ac_step (set ids) (cl_peers ids) A ?A'"
    using i st net(2) sim by (intro ac_node) (auto simp: cl_sim_def split: option.splits)
  moreover have "cl_sim (cl_update s i net r) ?A'"
  proof -
    have "ac_net ?A' = net_el (net @ packets i cs)"
      using net(2) sim by (auto simp: ac_update_def cl_sim_def net_el_packets split: option.splits)
    moreover have "rv_CandidateID rv = f" if "(f, j, PRequestVote rv) \<in> set (net @ packets i cs)" for f j rv
    proof (cases "(f, j, PRequestVote rv) \<in> set net")
      case True
      with net(1) sim show ?thesis unfolding cl_sim_def by blast
    next
      case False
      with that packets_request [of f j "PRequestVote rv" i cs] obtain t q where
        "f = i" "RSend j t q (PRequestVote rv) \<in> set cs" by auto
      with request_names_sender [of ev "cl_env ids i" "el_input ev" "cl_node s i" a' cs] es run r show ?thesis
        by (simp add: env)
    qed
    moreover have "el_role (el_of a') = stateLeader \<longleftrightarrow> IsLeader a'" "el_term (el_of a') = currentTerm a'"
      by (simp_all add: el_of_def IsLeader_def)
    ultimately show ?thesis
      using sim by (auto simp: cl_sim_def cl_update_def r ac_update_def fun_eq_iff)
  qed
  ultimately show ?thesis by blast
qed

lemma cl_sim_step:
  assumes sim: "cl_sim s A" and step: "cl_step ids e s = Some s'"
  shows "\<exists>A'. (ac_step (set ids) (cl_peers ids))\<^sup>*\<^sup>* A A' \<and> cl_sim s' A'"
proof (cases e)
  case (CTick i name)
  with step obtain r where r: "i \<in> set ids" "raft_step (cl_env ids i) (EvTick name) (cl_node s i) = Inr r"
    "s' = cl_update s i (cl_net s) r" "name = timerElection \<longrightarrow> currentTerm (cl_node s i) \<noteq> - 1"
    by (auto split: if_splits sum.splits)
  from cl_sim_event [OF sim r(1,2), of "cl_net s"] r(3,4) show ?thesis by auto
next
  case (CPropose i cmd)
  with step obtain r where r: "i \<in> set ids" "raft_step (cl_env ids i) (EvPropose cmd) (cl_node s i) = Inr r"
    "s' = cl_update s i (cl_net s) r"
    by (auto split: if_splits sum.splits)
  from cl_sim_event [OF sim r(1,2), of "cl_net s"] r(3) show ?thesis by auto
next
  case (CDeliver y)
  obtain f i p where y: "y = (f, i, p)" by (cases y) auto
  with step CDeliver obtain r where r: "i \<in> set ids" "raft_step (cl_env ids i) (EvMessage f p) (cl_node s i) = Inr r"
    "s' = cl_update s i (remove1 (f, i, p) (cl_net s)) r" "(f, i, p) \<in> set (cl_net s)"
    by (auto split: if_splits sum.splits)
  have honest: "ev_honest (EvMessage f p)" using sim r(4) by (cases p) (auto simp: cl_sim_def)
  have sub: "set (remove1 (f, i, p) (cl_net s)) \<subseteq> set (cl_net s)" by (rule set_remove1_subset)
  have "m \<in> set (el_payload p) \<Longrightarrow> (f, i, m) \<in># net_el (cl_net s)" for m
    by (rule net_el_mem [OF r(4)])
  then have "case el_input (EvMessage f p) of None \<Rightarrow> net_el (remove1 (f, i, p) (cl_net s)) = net_el (cl_net s)
     | Some (g, m) \<Rightarrow> (g, i, m) \<in># net_el (cl_net s) \<and> net_el (remove1 (f, i, p) (cl_net s)) = net_el (cl_net s) - {#(g, i, m)#}"
    using net_el_remove1 [OF r(4)] el_input_payload(1) [of f p] el_input_payload(2) [of p] by (cases "el_payload p") auto
  from cl_sim_event [OF sim r(1,2) honest _ sub this] r(3) show ?thesis by auto
next
  case (CLose x)
  obtain f i p where x: "x = (f, i, p)" by (cases x) auto
  with step CLose have mem: "(f, i, p) \<in> set (cl_net s)" and s': "s' = s\<lparr>cl_net := remove1 (f, i, p) (cl_net s)\<rparr>"
    by (auto split: if_splits)
  let ?N = "net_el (remove1 (f, i, p) (cl_net s))"
  have sim': "cl_sim s' (A\<lparr>ac_net := ?N\<rparr>)"
    using sim s' set_remove1_subset [of "(f, i, p)" "cl_net s"] by (auto simp: cl_sim_def)
  show ?thesis
  proof (cases "el_payload p")
    case Nil
    then have "?N = ac_net A" using net_el_remove1 [OF mem] sim by (simp add: cl_sim_def)
    with sim' show ?thesis by (intro exI [of _ A]) simp
  next
    case (Cons m ms)
    then have m: "el_payload p = [m]" using el_input_payload(2) [of p] by simp
    then have "(f, i, m) \<in># ac_net A" "?N = ac_net A - {#(f, i, m)#}"
      using net_el_remove1 [OF mem] net_el_mem [OF mem, of m] sim by (simp_all add: cl_sim_def)
    with ac_lose [of "(f, i, m)" A "set ids" "cl_peers ids"] sim' show ?thesis by auto
  qed
qed

lemma cl_sim_init: "cl_sim (cl_init c r) ac_init"
  by (simp add: cl_sim_def cl_init_def ac_init_def net_el_def el_of_def el_init_def raft_New_def)

lemma cl_sim_run:
  "cl_sim s A \<Longrightarrow> cl_run ids es s = Some s' \<Longrightarrow>
     \<exists>A'. (ac_step (set ids) (cl_peers ids))\<^sup>*\<^sup>* A A' \<and> cl_sim s' A'"
proof (induction es arbitrary: s A)
  case Nil
  then show ?case by auto
next
  case (Cons e es)
  from Cons.prems(2) obtain s1 where s1: "cl_step ids e s = Some s1" "cl_run ids es s1 = Some s'"
    by (auto split: option.splits)
  from cl_sim_step [OF Cons.prems(1) s1(1)] obtain A1 where
    A1: "(ac_step (set ids) (cl_peers ids))\<^sup>*\<^sup>* A A1" "cl_sim s1 A1" by blast
  from Cons.IH [OF A1(2) s1(2)] A1(1) show ?case by (meson rtranclp_trans)
qed

lemma cl_leaders_mono: "cl_run ids es s = Some s' \<Longrightarrow> cl_leaders s \<subseteq> cl_leaders s'"
proof (induction es arbitrary: s)
  case (Cons e es)
  then obtain s1 where s1: "cl_step ids e s = Some s1" "cl_leaders s1 \<subseteq> cl_leaders s'"
    by (auto split: option.splits)
  have "cl_leaders s \<subseteq> cl_leaders s1"
    using s1(1) by (cases "(ids, e, s)" rule: cl_step.cases) (auto simp: cl_update_def split: if_splits sum.splits)
  with s1(2) show ?case by blast
qed simp

section \<open>Election safety\<close>

lemma odd_election_cluster:
  assumes "distinct ids" and "0 \<notin> set ids" and "odd (length ids)"
  shows "election_cluster (set ids) (length ids div 2 + 1) (cl_peers ids)"
proof
  show "finite (set ids)" by simp
  show "card (set ids) < 2 * (length ids div 2 + 1)" using assms(1) by (simp add: distinct_card)
  show "0 \<notin> set ids" by (rule assms(2))
  fix i assume i: "i \<in> set ids"
  show "distinct (cl_peers ids i) \<and> set (cl_peers ids i) = set ids - {i}"
    using assms(1) by (auto simp: cl_peers_def)
  have "cl_peers ids i = remove1 i ids" unfolding cl_peers_def using assms(1) distinct_remove1_removeAll [of ids i]
    by (simp add: removeAll_filter_not_eq eq_commute)
  then have "length (cl_peers ids i) = length ids - 1" using i by (simp add: length_remove1)
  with assms(3) show "length (cl_peers ids i) div 2 + 1 = length ids div 2 + 1"
    by (metis Suc_pred' bot_nat_0.extremum_strict even_Suc gr_zeroI nat.simps(3) neq0_conv odd_pos Suc_1 even_Suc_div_two)
qed

text \<open>The clusters of odd size \<open>2 k + 1\<close> with the IDs from 1 on, as far as IDs reach.\<close>

definition odd_ids :: "nat \<Rightarrow> u16 list" where
  "odd_ids k = map of_nat [1..<2 * (k mod 2 ^ 15) + 2]"

lemma unat_id: "n < 2 ^ 16 \<Longrightarrow> unat (of_nat n :: u16) = n"
  by (simp add: unat_of_nat take_bit_nat_eq_self)

lemma odd_ids_cluster:
  "distinct (odd_ids k)" "0 \<notin> set (odd_ids k)" "odd (length (odd_ids k))"
proof -
  have b: "2 * (k mod 2 ^ 15) + 2 \<le> 2 ^ 16" by (simp add: Suc_leI less_Suc_eq_le [symmetric])
  have u: "unat (of_nat n :: u16) = n" if "n < 2 * (k mod 2 ^ 15) + 2" for n
    by (rule unat_id) (use that b in linarith)
  let ?R = "[1..<2 * (k mod 2 ^ 15) + 2]"
  have R: "n < 2 * (k mod 2 ^ 15) + 2" "n \<noteq> 0" if "n \<in> set ?R" for n using that unfolding set_upt atLeastLessThan_iff by linarith+
  have "inj_on (of_nat :: nat \<Rightarrow> u16) (set ?R)" by (rule inj_onI) (metis u R(1))
  then show "distinct (odd_ids k)" unfolding odd_ids_def distinct_map by (simp only: distinct_upt)
  have "(of_nat n :: u16) \<noteq> 0" if "n \<in> set ?R" for n using u [OF R(1) [OF that]] R(2) [OF that] by (metis unat_0)
  then show "0 \<notin> set (odd_ids k)" unfolding odd_ids_def set_map by (metis imageE)
  show "odd (length (odd_ids k))" by (simp add: odd_ids_def)
qed

interpretation odd_sized: election_cluster "set (odd_ids k)" "length (odd_ids k) div 2 + 1" "cl_peers (odd_ids k)"
  by (rule odd_election_cluster [OF odd_ids_cluster])

text \<open>
  C1. Election safety: in a cluster of an odd number of nodes, at any two moments of any run (with
  messages lost, delayed and reordered, timers firing and clients proposing at will), two leaders of
  the same term are the same node.
\<close>

theorem raft_election_safety:
  assumes "distinct ids" and "0 \<notin> set ids" and "odd (length ids)"
    and "cl_run ids es (cl_init c r) = Some s" and "cl_run ids es' s = Some s'"
    and "IsLeader (cl_node s i)" and "IsLeader (cl_node s' j)"
    and "currentTerm (cl_node s i) = currentTerm (cl_node s' j)"
  shows "i = j"
proof -
  have ec: "election_cluster (set ids) (length ids div 2 + 1) (cl_peers ids)"
    by (rule odd_election_cluster [OF assms(1-3)])
  have reached: "(ac_step (set ids) (cl_peers ids))\<^sup>*\<^sup>* ac_init A \<Longrightarrow> cl_sim u A \<Longrightarrow> IsLeader (cl_node u k) \<Longrightarrow>
      (currentTerm (cl_node u k), k) \<in> cl_leaders u" for A u k
    using election_cluster.ac_inv_reachable [OF ec, of A]
    by (auto simp: ac_inv_def role_inv_def cl_sim_def IsLeader_def el_of_def)
  from cl_sim_run [OF cl_sim_init assms(4)] obtain A where
    A: "(ac_step (set ids) (cl_peers ids))\<^sup>*\<^sup>* ac_init A" "cl_sim s A" by blast
  from cl_sim_run [OF A(2) assms(5)] obtain A' where
    A': "(ac_step (set ids) (cl_peers ids))\<^sup>*\<^sup>* A A'" "cl_sim s' A'" by blast
  have A'': "(ac_step (set ids) (cl_peers ids))\<^sup>*\<^sup>* ac_init A'" using A(1) A'(1) by (rule rtranclp_trans)
  have "(currentTerm (cl_node s i), i) \<in> cl_leaders s'"
    using reached [OF A assms(6)] cl_leaders_mono [OF assms(5)] by blast
  moreover have "(currentTerm (cl_node s i), j) \<in> cl_leaders s'"
    using reached [OF A'' A'(2) assms(7)] assms(8) by simp
  ultimately show "i = j"
    using election_cluster.one_leader_per_term [OF ec A''] A'(2) by (simp add: cl_sim_def)
qed

text \<open>
  Terms never fall: no step of the cluster lowers the term of any node.
\<close>

lemma raft_terms_monotone:
  assumes "distinct ids" and "cl_run ids es (cl_init c r) = Some s" and "cl_step ids e s = Some s'"
  shows "currentTerm (cl_node s i) \<le> currentTerm (cl_node s' i)"
proof -
  from cl_sim_run [OF cl_sim_init assms(2)] obtain A where A: "cl_sim s A" by blast
  have mono: "el_term (ac_el B k) \<le> el_term (ac_el B' k)" if "ac_step (set ids) (cl_peers ids) B B'" for B B' k
    using that by (cases rule: ac_step.cases) (auto simp: ac_update_def dest: el_step_term)
  have "el_term (ac_el B k) \<le> el_term (ac_el B' k)" if "(ac_step (set ids) (cl_peers ids))\<^sup>*\<^sup>* B B'" for B B' k
    using that by (induction rule: rtranclp_induct) (auto dest: mono [where k = k])
  with cl_sim_step [OF A assms(3)] A show ?thesis by (fastforce simp: cl_sim_def el_of_def)
qed

section \<open>Executions\<close>

text \<open>Facts that evaluate the handlers under the default configuration.\<close>

lemma reset_default:
  assumes "cfg a = raft_DefaultConfig"
  shows "resetElectionTimer a = Inr (a\<lparr>rrng := rng_tail (rrng a)\<rparr>,
    [RSetTimer timerElection (i64 (150 * Millisecond + int (rrng a 0) mod (150 * Millisecond)))])"
  using assms i64_id [of 150000000] by (simp add: resetElectionTimer_def raft_DefaultConfig_def Int63n_def)

definition vote_req :: "u32 \<Rightarrow> u16 \<Rightarrow> raft_payload" where
  "vote_req t c = PRequestVote \<lparr>rv_Term = t, rv_CandidateID = c, rv_LastLogIndex = 0, rv_LastLogTerm = 0\<rparr>"

definition vote_yes :: "u32 \<Rightarrow> raft_payload" where
  "vote_yes t = PRequestVoteReply \<lparr>rvr_Term = t, rvr_VoteGranted = True\<rparr>"

lemmas run_simps = raft_OnTick_def startElection_def reset_default sendToAll_def lastLogInfo_def cl_env_def cl_init_def
  cl_update_def packets_def raft_New_def vote_req_def vote_yes_def raft_handle_def handleRequestVote_def stepDown_def
  handleRequestVoteReply_def becomeLeader_def broadcastAppendEntries_def sendAppendEntries_def IsLeader_def
  gm_get0_def andThen_def Let_def

definition split_events :: "cl_event list" where
  "split_events =
     [CTick 1 timerElection, CTick 2 timerElection,
      CDeliver (1, 3, vote_req 1 1), CDeliver (2, 4, vote_req 1 2),
      CDeliver (3, 1, vote_yes 1), CDeliver (4, 2, vote_yes 1)]"

text \<open>
  C31. Even clusters are not safe: the majority \<open>len(Peers())/2 + 1\<close> counts the peers without the node
  itself, so in a cluster of four two votes suffice, and six events give two leaders of one term.
\<close>

theorem split_brain_of_four:
  "\<exists>s. cl_run [1, 2, 3, 4] split_events (cl_init raft_DefaultConfig r) = Some s \<and>
     IsLeader (cl_node s 1) \<and> IsLeader (cl_node s 2) \<and>
     currentTerm (cl_node s 1) = currentTerm (cl_node s 2)"
  unfolding split_events_def by (simp add: run_simps)

definition ae_msg :: "u32 \<Rightarrow> u16 \<Rightarrow> u32 \<Rightarrow> u32 \<Rightarrow> LogEntry list \<Rightarrow> raft_payload" where
  "ae_msg t l pi pt es = PAppendEntries \<lparr>ae_Term = t, ae_LeaderID = l, ae_PrevLogIndex = pi, ae_PrevLogTerm = pt,
     ae_Entries = es, ae_LeaderCommit = 0\<rparr>"

definition ar_msg :: "u32 \<Rightarrow> bool \<Rightarrow> u32 \<Rightarrow> raft_payload" where
  "ar_msg t ok mi = PAppendReply \<lparr>ar_Term = t, ar_Success = ok, ar_MatchIndex = mi\<rparr>"

definition log_entry :: "u32 \<Rightarrow> u8 \<Rightarrow> LogEntry" where
  "log_entry t c = \<lparr>le_Term = t, Command = [c]\<rparr>"

text \<open>
  Node 1 leads term 1 and appends an entry it cannot replicate. Node 2 leads term 2; node 1 accepts its
  empty heartbeat and reports its own log length as replicated, so node 2 commits an entry nobody else
  has. Node 1 then leads term 3 and commits its old entry at the same index.
\<close>

definition diverge_first :: "cl_event list" where
  "diverge_first =
     [CTick 1 timerElection, CDeliver (1, 2, vote_req 1 1), CDeliver (2, 1, vote_yes 1), CPropose 1 [1],
      CTick 2 timerElection, CDeliver (2, 3, vote_req 2 2), CDeliver (3, 2, vote_yes 2),
      CDeliver (2, 1, ae_msg 2 2 0 0 []), CDeliver (1, 2, ar_msg 1 True 1),
      CPropose 2 [2], CDeliver (2, 3, ae_msg 2 2 0 0 []), CDeliver (3, 2, ar_msg 2 True 0)]"

definition diverge_second :: "cl_event list" where
  "diverge_second =
     [CTick 1 timerElection,
      CDeliver (1, 3, PRequestVote \<lparr>rv_Term = 3, rv_CandidateID = 1, rv_LastLogIndex = 1, rv_LastLogTerm = 1\<rparr>),
      CDeliver (3, 1, vote_yes 3), CPropose 1 [3],
      CDeliver (1, 3, ae_msg 3 1 1 1 [log_entry 3 3]), CDeliver (3, 1, ar_msg 3 False 0),
      CDeliver (1, 3, ae_msg 3 1 0 0 [log_entry 1 1, log_entry 3 3]), CDeliver (3, 1, ar_msg 3 True 2)]"

lemmas run_log_simps = run_simps ae_msg_def ar_msg_def log_entry_def Propose_def handleAppendEntries_def
  handleAppendReply_def prev_check_def send_reply_def maybeCommit_def maybeCommit_loop.simps applyCommitted.simps applied_def

text \<open>
  C32. The replicated log is not safe: a follower reports the length of its whole log as replicated,
  also the part the leader never sent. In a cluster of three, with no failure but slow messages, two
  nodes apply different commands at index 1.
\<close>

theorem applied_entries_diverge:
  "\<exists>s. cl_run [1, 2, 3] (diverge_first @ diverge_second) (cl_init raft_DefaultConfig r) = Some s \<and>
     (2, 1, [2]) \<in> set (cl_applied s) \<and> (1, 1, [1]) \<in> set (cl_applied s)"
  unfolding diverge_first_def diverge_second_def by (simp add: run_log_simps)

section \<open>Witnesses\<close>

definition elect_events :: "cl_event list" where
  "elect_events = [CTick 1 timerElection, CDeliver (1, 2, vote_req 1 1), CDeliver (2, 1, vote_yes 1)]"

lemma elect_run:
  "\<exists>s. cl_run [1, 2, 3] elect_events (cl_init raft_DefaultConfig (\<lambda>_ _. 0)) = Some s \<and> IsLeader (cl_node s 1)"
  unfolding elect_events_def by (simp add: run_simps)

theorem raft_election_safety_witness:
  "\<exists>s. cl_run [1, 2, 3] elect_events (cl_init raft_DefaultConfig (\<lambda>_ _. 0)) = Some s \<and> IsLeader (cl_node s 1) \<and>
     (\<forall>j. IsLeader (cl_node s j) \<and> currentTerm (cl_node s 1) = currentTerm (cl_node s j) \<longrightarrow> 1 = j)"
proof -
  from elect_run obtain s where s: "cl_run [1, 2, 3] elect_events (cl_init raft_DefaultConfig (\<lambda>_ _. 0)) = Some s"
    "IsLeader (cl_node s 1)" by blast
  have "1 = j" if "IsLeader (cl_node s j)" "currentTerm (cl_node s 1) = currentTerm (cl_node s j)" for j
    by (rule raft_election_safety [OF _ _ _ s(1) _ s(2) that, of "[]"]) simp_all
  with s show ?thesis by blast
qed

lemma raft_terms_monotone_witness:
  "\<exists>s s'. cl_run [1, 2, 3] elect_events (cl_init raft_DefaultConfig (\<lambda>_ _. 0)) = Some s \<and>
     cl_step [1, 2, 3] (CTick 3 timerHeartbeat) s = Some s' \<and> currentTerm (cl_node s 3) \<le> currentTerm (cl_node s' 3)"
proof -
  have "\<exists>s s'. cl_run [1, 2, 3] elect_events (cl_init raft_DefaultConfig (\<lambda>_ _. 0)) = Some s \<and>
     cl_step [1, 2, 3] (CTick 3 timerHeartbeat) s = Some s'"
    unfolding elect_events_def by (simp add: run_simps timerHeartbeat_def timerElection_def)
  then obtain s s' where s: "cl_run [1, 2, 3] elect_events (cl_init raft_DefaultConfig (\<lambda>_ _. 0)) = Some s"
     "cl_step [1, 2, 3] (CTick 3 timerHeartbeat) s = Some s'" by blast
  have "currentTerm (cl_node s 3) \<le> currentTerm (cl_node s' 3)"
    by (rule raft_terms_monotone [OF _ s]) simp
  with s show ?thesis by blast
qed

end
