(* ===== verification/Gossip_Bench.thy ===== *)
theory Gossip_Bench
  imports Node_Command Gossip_Json Metrics_Json
begin

text \<open>
  \<open>cmd/gossip_bench/main.go\<close>: a swarm whose nodes each write one position and gossip until every node
  has as many entries as there are nodes. The network is unreliable and carries the JSON text of
  the states. Whether a transport starts and a file can be written, and what the clock shows, are
  arguments; of the log, the lines of the convergence loop are kept.
\<close>

section \<open>Building the nodes\<close>

definition gossip_StateSnapshot :: "Gossip \<Rightarrow> gossip_State" where
  "gossip_StateSnapshot a = gs_state a"

text \<open>Nodes are numbered from 1; the id of node \<open>i\<close> is \<open>i\<close> in 16 bits.\<close>

definition bench_runtime :: "go_time \<Rightarrow> nat \<Rightarrow> Node go" where
  "bench_runtime now i =
     (let mc = NewCollector now (of_nat i)
      in NewNode (of_nat i) [WithSendQueueSize 512, WithRecvBufSize 256, WithMetrics (Some mc)])"

definition bench_node :: "(nat \<Rightarrow> rng) \<Rightarrow> int \<Rightarrow> duration \<Rightarrow> nat \<Rightarrow> Gossip" where
  "bench_node r fanout interval i = gossip_New (r i) fanout interval"

text \<open>Starting the nodes in turn: the first error ends the program.\<close>

datatype bench_exit = BenchFatal nat start_error | BenchPanic go_panic

definition bench_start :: "(nat \<Rightarrow> bool) \<Rightarrow> go_time \<Rightarrow> nat \<Rightarrow> Gossip \<Rightarrow> Node \<Rightarrow> bench_exit + Node" where
  "bench_start tr_ok now i a n =
     (case gossip_Start a of
        Inl e \<Rightarrow> Inl (BenchPanic e)
      | Inr (a, cs) \<Rightarrow>
          (case node_Start (tr_ok i) now (Some (Some cs)) n of
             Inl e \<Rightarrow> Inl (BenchPanic e)
           | Inr (Some e, n) \<Rightarrow> Inl (BenchFatal i e)
           | Inr (None, n) \<Rightarrow> Inr n))"

fun bench_start_all :: "(nat \<Rightarrow> bool) \<Rightarrow> go_time \<Rightarrow> (nat \<times> Gossip \<times> Node) list \<Rightarrow> bench_exit + Node list" where
  "bench_start_all tr_ok now [] = Inr []"
| "bench_start_all tr_ok now ((i, a, n) # ns) =
     (case bench_start tr_ok now i a n of
        Inl e \<Rightarrow> Inl e
      | Inr n \<Rightarrow> (case bench_start_all tr_ok now ns of Inl e \<Rightarrow> Inl e | Inr ns \<Rightarrow> Inr (n # ns)))"

text \<open>The full mesh: every other node with the address it listens on.\<close>

definition bench_mesh :: "nat \<Rightarrow> (nat \<Rightarrow> string) \<Rightarrow> nat \<Rightarrow> Node \<Rightarrow> Node" where
  "bench_mesh numNodes localAddr i n =
     foldl (\<lambda>n j. if i = j then n else case AddPeer (of_nat j) (localAddr j) n of Inl _ \<Rightarrow> n | Inr n' \<Rightarrow> n')
       n [1..<Suc numNodes]"

text \<open>The initial position: the factors are exact floating-point numbers.\<close>

definition pos_key :: "u16 \<Rightarrow> string" where
  "pos_key i = ''pos_'' @ show_nat (unat i)"

definition pos_value :: "u16 \<Rightarrow> string" where
  "pos_value i = ''x='' @ show_fixed 1 (of_nat (unat i) * 10) @ '',y='' @ show_fixed 1 (of_nat (unat i) * 5) @ '',z='' @ show_fixed 1 100"

definition bench_seed :: "nat \<Rightarrow> Gossip \<Rightarrow> Gossip" where
  "bench_seed i a = gossip_Set (pos_key (of_nat i)) (pos_value (of_nat i)) a"

section \<open>Waiting for convergence\<close>

text \<open>The test of one tick: \<open>N i\<close> is node \<open>i\<close> as the test finds it.\<close>

definition allConverged :: "nat \<Rightarrow> (nat \<Rightarrow> Gossip) \<Rightarrow> bool" where
  "allConverged numNodes N \<longleftrightarrow>
     list_all (\<lambda>i. \<not> length (gossip_StateSnapshot (N i)) < numNodes) [1..<Suc numNodes]"

text \<open>
  The loop with the events it selects among: the deadline, and a tick with the nodes and with the
  readings of the clock for the elapsed time, the check whether to report, and the report. The
  result is \<open>None\<close> while the loop waits, else \<open>convergedAt\<close> and the lines logged.
\<close>

datatype bench_event = BenchDeadline | BenchTick "nat \<Rightarrow> Gossip" go_time go_time go_time

datatype bench_log = LogTimeout | LogProgress duration "nat list" | LogConverged duration

definition progress_due :: "go_time \<Rightarrow> go_time \<Rightarrow> bool" where
  "progress_due lastReport t \<longleftrightarrow> time_Sub t lastReport > Second"

fun convergenceLoop :: "nat \<Rightarrow> go_time \<Rightarrow> go_time \<Rightarrow> bench_event list \<Rightarrow> (duration \<times> bench_log list) option" where
  "convergenceLoop numNodes startedAt lastReport [] = None"
| "convergenceLoop numNodes startedAt lastReport (BenchDeadline # es) = Some (0, [LogTimeout])"
| "convergenceLoop numNodes startedAt lastReport (BenchTick N t1 t2 t3 # es) =
     (let elapsed = time_Sub t1 startedAt;
          due = progress_due lastReport t2;
          counts = map (\<lambda>i. length (gossip_StateSnapshot (N i))) [1..<Suc numNodes];
          report = (if due then [LogProgress elapsed counts] else [])
      in if allConverged numNodes N then Some (elapsed, report @ [LogConverged elapsed])
         else (case convergenceLoop numNodes startedAt (if due then t3 else lastReport) es of
                 None \<Rightarrow> None
               | Some (convergedAt, ls) \<Rightarrow> Some (convergedAt, report @ ls)))"

section \<open>The result\<close>

text \<open>The final check: the keys a node lacks.\<close>

definition missing :: "nat \<Rightarrow> Gossip \<Rightarrow> nat" where
  "missing numNodes a =
     length (filter (\<lambda>i. gm_lookup (gossip_StateSnapshot a) (pos_key (of_nat i)) = None) [1..<Suc numNodes])"

definition allMatch :: "nat \<Rightarrow> (nat \<Rightarrow> Gossip) \<Rightarrow> bool" where
  "allMatch numNodes N \<longleftrightarrow> list_all (\<lambda>i. missing numNodes (N i) = 0) [1..<Suc numNodes]"

text \<open>The sums over all snapshots (64-bit, wrapping).\<close>

definition bench_total :: "(MetricsSnapshot \<Rightarrow> u64) \<Rightarrow> MetricsSnapshot list \<Rightarrow> u64" where
  "bench_total f snaps = foldl (\<lambda>t s. t + f s) 0 snaps"

record bench_result =
  br_totals :: "u64 list"
  br_success :: bool   \<comment> \<open>what the summary says\<close>
  br_files :: "(string \<times> (export_error + bytes)) list"
  br_exit :: int

definition bench_finish ::
    "(go_time \<Rightarrow> int) \<Rightarrow> (nat \<Rightarrow> bool) \<Rightarrow> nat \<Rightarrow> duration \<Rightarrow> (nat \<Rightarrow> Gossip) \<Rightarrow> (nat \<Rightarrow> MetricsSnapshot) \<Rightarrow> bench_result" where
  "bench_finish z write_ok numNodes convergedAt N snap =
     (let ids = [1..<Suc numNodes]; snaps = map snap ids
      in \<lparr>br_totals = map (\<lambda>f. bench_total f snaps)
            [sn_MessagesSent, sn_MessagesRecv, sn_BytesSent, sn_BytesRecv,
             sn_DedupDropped, sn_TTLExpiredDropped, sn_QueueOverflowDropped, sn_SendErrors],
          br_success = (convergedAt > 0),
          br_files = map (\<lambda>i. (''gossip_bench_node'' @ show_nat (unat (of_nat i :: u16)) @ ''.json'', ExportJSON z (write_ok i) (snap i))) ids,
          br_exit = (if allMatch numNodes N then 0 else 1)\<rparr>)"

text \<open>Shutdown: the nodes are stopped in turn.\<close>

fun bench_stop_all :: "go_time \<Rightarrow> (Gossip \<times> Node) list \<Rightarrow> Node list go" where
  "bench_stop_all now [] = Inr []"
| "bench_stop_all now ((a, n) # ns) =
     (case gossip_Stop a of
        Inl e \<Rightarrow> Inl e
      | Inr (a, cs) \<Rightarrow>
          (case node_Stop now cs n of
             Inl e \<Rightarrow> Inl e
           | Inr n \<Rightarrow> (case bench_stop_all now ns of Inl e \<Rightarrow> Inl e | Inr ns \<Rightarrow> Inr (n # ns))))"

section \<open>The mesh\<close>

lemma bench_mesh_add_peers:
  "bench_mesh numNodes localAddr i n = add_peers (map (\<lambda>j. (of_nat j, localAddr j)) (filter (\<lambda>j. j \<noteq> i) [1..<Suc numNodes])) n"
proof -
  have "foldl (\<lambda>n j. if i = j then n else case AddPeer (of_nat j) (localAddr j) n of Inl _ \<Rightarrow> n | Inr n' \<Rightarrow> n') m js =
      add_peers (map (\<lambda>j. (of_nat j, localAddr j)) (filter (\<lambda>j. j \<noteq> i) js)) m" for m js
    by (induction js arbitrary: m) (simp_all add: add_peers_def)
  then show ?thesis by (simp add: bench_mesh_def)
qed

lemma of_nat_u16_eq: "i \<le> 65535 \<Longrightarrow> j \<le> 65535 \<Longrightarrow> (of_nat i :: u16) = of_nat j \<longleftrightarrow> i = j"
  by (simp add: word_of_nat_eq_iff take_bit_nat_eq_self)

text \<open>Up to 65535 nodes, each knows the address of every other node.\<close>

lemma bench_mesh_complete:
  assumes "numNodes \<le> 65535" and "j \<in> {1..numNodes}" and "j \<noteq> i"
  shows "node_PeerAddr (of_nat j) (bench_mesh numNodes localAddr i n) = Some (localAddr j)"
proof -
  let ?ps = "map (\<lambda>j. (of_nat j :: u16, localAddr j)) (filter (\<lambda>j. j \<noteq> i) [1..<Suc numNodes])"
  have "inj_on (of_nat :: nat \<Rightarrow> u16) {j. 1 \<le> j \<and> j \<le> numNodes}"
    using assms(1) by (intro inj_onI) (simp add: of_nat_u16_eq)
  then have ok: "gm_ok ?ps"
    by (auto simp: distinct_map comp_def simp del: upt_Suc intro: inj_on_subset)
  have "(of_nat j, localAddr j) \<in> set ?ps" using assms(2,3) by (auto simp del: upt_Suc)
  with ok have l: "gm_lookup ?ps (of_nat j) = Some (localAddr j)" by (simp del: upt_Suc)
  have "(of_nat j :: u16) \<noteq> 0" using of_nat_u16_eq [of j 0] assms(1,2) by simp
  with add_peers_Get [OF ok, of "of_nat j" n] l show ?thesis by (simp add: bench_mesh_add_peers del: upt_Suc)
qed

section \<open>Runs\<close>

text \<open>
  A moment of the program: how many nodes have their position, the nodes, and the payloads ever sent.
  The nodes gossip from the start, while the main goroutine still writes the positions in turn. A
  message that was sent may arrive anywhere, at any time and any number of times, under the sender and
  sequence number the framework gave it.
\<close>

record bench =
  bn_seeded :: nat
  bn_node :: "nat \<Rightarrow> Gossip"
  bn_net :: "bytes set"

inductive bench_step :: "nat \<Rightarrow> bench \<Rightarrow> bench \<Rightarrow> bool" for numNodes where
  bench_set: "bn_seeded s < numNodes \<Longrightarrow> i = Suc (bn_seeded s) \<Longrightarrow>
    bench_step numNodes s (s\<lparr>bn_seeded := i, bn_node := (bn_node s)(i := bench_seed i (bn_node s i))\<rparr>)"
| bench_tick: "1 \<le> i \<Longrightarrow> i \<le> numNodes \<Longrightarrow> gossip_OnTick gossip_marshal env name (bn_node s i) = Inr (a, cs) \<Longrightarrow>
    bench_step numNodes s (s\<lparr>bn_node := (bn_node s)(i := a), bn_net := bn_net s \<union> {Payload m |p m. ApiSend p m \<in> set cs}\<rparr>)"
| bench_recv: "1 \<le> i \<Longrightarrow> i \<le> numNodes \<Longrightarrow> Payload m \<in> bn_net s \<Longrightarrow>
    gossip_OnMessage gossip_unmarshal env m (bn_node s i) = Inr (a, cs) \<Longrightarrow>
    bench_step numNodes s (s\<lparr>bn_node := (bn_node s)(i := a)\<rparr>)"

definition bench_init :: "(nat \<Rightarrow> rng) \<Rightarrow> int \<Rightarrow> duration \<Rightarrow> bench" where
  "bench_init r fanout interval = \<lparr>bn_seeded = 0, bn_node = bench_node r fanout interval, bn_net = {}\<rparr>"

abbreviation bench_reach :: "nat \<Rightarrow> bench \<Rightarrow> bench \<Rightarrow> bool" where
  "bench_reach numNodes \<equiv> (bench_step numNodes)\<^sup>*\<^sup>*"

section \<open>What can be in a store\<close>

definition seeded :: "nat \<Rightarrow> gossip_State \<Rightarrow> bool" where
  "seeded k st \<longleftrightarrow> gm_ok st \<and>
     (\<forall>key e. gm_lookup st key = Some e \<longrightarrow>
        (\<exists>i. 1 \<le> i \<and> i \<le> k \<and> key = pos_key (of_nat i) \<and> e = \<lparr>Value = pos_value (of_nat i), Version = 1\<rparr>))"

lemma pos_key_inj: "pos_key i = pos_key j \<longleftrightarrow> i = j"
  by (auto simp: pos_key_def word_unat_eq_iff dest: show_nat_inj)

lemma seeded_mono: "seeded k st \<Longrightarrow> k \<le> k' \<Longrightarrow> seeded k' st"
  unfolding seeded_def by (meson le_trans)

lemma seeded_set:
  assumes "seeded k (gs_state a)" and "Suc k \<le> 65535"
  shows "seeded (Suc k) (gs_state (bench_seed (Suc k) a))"
proof -
  have "gm_lookup (gs_state a) (pos_key (of_nat (Suc k))) = None"
  proof (rule ccontr)
    assume "gm_lookup (gs_state a) (pos_key (of_nat (Suc k))) \<noteq> None"
    with assms(1) obtain i where "1 \<le> i" "i \<le> k" "pos_key (of_nat (Suc k)) = pos_key (of_nat i)" unfolding seeded_def by blast
    with assms(2) of_nat_u16_eq [of "Suc k" i] show False unfolding pos_key_inj by simp
  qed
  then have st: "gs_state (bench_seed (Suc k) a) =
      gm_set (pos_key (of_nat (Suc k))) \<lparr>Value = pos_value (of_nat (Suc k)), Version = 1\<rparr> (gs_state a)"
    by (simp add: bench_seed_def gossip_Set_def del: of_nat_Suc)
  from assms(1) have old: "\<And>key e. gm_lookup (gs_state a) key = Some e \<Longrightarrow>
      \<exists>i. 1 \<le> i \<and> i \<le> Suc k \<and> key = pos_key (of_nat i) \<and> e = \<lparr>Value = pos_value (of_nat i), Version = 1\<rparr>"
    unfolding seeded_def by (meson le_SucI)
  with assms(1) show ?thesis unfolding st seeded_def
    by (auto simp del: map_of_eq_Some_iff of_nat_Suc split: if_splits)
qed

lemma show_fixed_chars: "c \<in> set (show_fixed prec x) \<Longrightarrow> byte c < 128"
  by (auto simp: show_fixed_def fixed_text_def pad0_def dest: show_nat_chars split: if_splits)

lemma seeded_utf8: "seeded k st \<Longrightarrow> state_utf8 st"
proof -
  have num: "c \<in> set (show_nat i) \<Longrightarrow> byte c < 128" for c i using show_nat_chars [of c i] by simp
  have "valid_utf8 (pos_key i) \<and> valid_utf8 (pos_value i)" for i
    unfolding pos_key_def pos_value_def by (intro conjI valid_ascii) (auto dest: num show_fixed_chars)
  moreover assume "seeded k st"
  ultimately show ?thesis unfolding state_utf8_def seeded_def by (fastforce simp: map_of_eq_Some_iff)
qed

lemma seeded_received: "seeded k st \<Longrightarrow> gossip_marshal st = Some bs \<Longrightarrow> \<exists>st'. gossip_unmarshal bs = Some st' \<and> seeded k st'"
  using gossip_json_roundtrip [of st bs] seeded_utf8 [of k st]
  by (auto simp: seeded_def distinct_sort_key map_of_sort_key simp del: map_of_eq_Some_iff)

lemma seeded_merge: "seeded k l \<Longrightarrow> seeded k r \<Longrightarrow> seeded k (lww_merge Version l r)"
  unfolding seeded_def
  by (auto simp: gm_ok_lww_merge lookup_lww_merge newer_def simp del: map_of_eq_Some_iff split: option.splits if_splits)

lemma OnTick_state: "gossip_OnTick marshal env name a = Inr (a', cs) \<Longrightarrow> gs_state a' = gs_state a \<and>
    (\<forall>p m. ApiSend p m \<in> set cs \<longrightarrow> marshal (gs_state a) = Some (Payload m))"
  by (auto simp: gossip_OnTick_def gossipRound_def evictSeen_def gossip_msg_def split: if_splits option.splits sum.splits)

lemma OnMessage_state: "gossip_OnMessage unmarshal env m a = Inr (a', cs) \<Longrightarrow>
    gs_state a' = gs_state a \<or> (\<exists>st. unmarshal (Payload m) = Some st \<and> gs_state a' = lww_merge Version (gs_state a) st)"
  by (auto simp: gossip_OnMessage_def gossip_merge_def Let_def split: if_splits option.splits)

definition bench_inv :: "nat \<Rightarrow> bench \<Rightarrow> bool" where
  "bench_inv n s \<longleftrightarrow> bn_seeded s \<le> n \<and> (\<forall>i. 1 \<le> i \<and> i \<le> n \<longrightarrow> seeded (bn_seeded s) (gs_state (bn_node s i))) \<and>
     (\<forall>bs \<in> bn_net s. \<exists>st. gossip_unmarshal bs = Some st \<and> seeded (bn_seeded s) st)"

text \<open>A merge with what is on the network changes no entry that is there.\<close>

lemma seeded_merge_keeps:
  assumes "seeded k l" and "seeded k r" and "gm_lookup l key = Some e"
  shows "gm_lookup (lww_merge Version l r) key = Some e"
proof (cases "gm_lookup r key")
  case None
  with assms show ?thesis by (simp add: lookup_lww_merge newer_def seeded_def del: map_of_eq_Some_iff)
next
  case (Some e')
  from assms(1,3) obtain i where "e = \<lparr>Value = pos_value (of_nat i), Version = 1\<rparr>" unfolding seeded_def by blast
  moreover from assms(2) Some obtain j where "e' = \<lparr>Value = pos_value (of_nat j), Version = 1\<rparr>" unfolding seeded_def by blast
  ultimately show ?thesis using assms Some by (simp add: lookup_lww_merge newer_def seeded_def del: map_of_eq_Some_iff)
qed

definition keeps :: "nat \<Rightarrow> bench \<Rightarrow> bench \<Rightarrow> bool" where
  "keeps n s s' \<longleftrightarrow> (\<forall>i key e. 1 \<le> i \<and> i \<le> n \<and> gm_lookup (gs_state (bn_node s i)) key = Some e \<longrightarrow>
     gm_lookup (gs_state (bn_node s' i)) key = Some e)"

lemma bench_step_ok:
  assumes "bench_step n s s'" and "bench_inv n s" and "n \<le> 65535"
  shows "bench_inv n s' \<and> keeps n s s'"
  using assms(1)
proof (cases rule: bench_step.cases)
  case (bench_set i)
  let ?k = "bn_seeded s" and ?a = "bn_node s i"
  have inv: "seeded ?k (gs_state (bn_node s j))" if "1 \<le> j" "j \<le> n" for j using assms(2) that by (simp add: bench_inv_def)
  have st: "seeded i (gs_state (bench_seed i ?a))" using seeded_set [of ?k ?a] inv [of i] bench_set(2,3) assms(3) by simp
  have "gm_lookup (gs_state (bench_seed i ?a)) key = Some e" if e: "gm_lookup (gs_state ?a) key = Some e" for key e
  proof -
    from inv [of i] e bench_set(2,3) obtain j where "1 \<le> j" "j \<le> ?k" "key = pos_key (of_nat j)" unfolding seeded_def by fastforce
    with bench_set(2,3) assms(3) of_nat_u16_eq [of i j] have "key \<noteq> pos_key (of_nat i)" by (simp add: pos_key_inj)
    with e show ?thesis by (simp add: bench_seed_def gossip_Set_def Let_def del: map_of_eq_Some_iff)
  qed
  moreover have "\<exists>st. gossip_unmarshal bs = Some st \<and> seeded i st" if "bs \<in> bn_net s" for bs
    using assms(2) that seeded_mono [of ?k _ i] bench_set(3) unfolding bench_inv_def by fastforce
  ultimately show ?thesis using st bench_set assms(2)
    by (auto simp: bench_inv_def keeps_def simp del: map_of_eq_Some_iff intro: seeded_mono)
next
  case (bench_tick i env name a cs)
  from OnTick_state [OF bench_tick(4)] have s: "gs_state a = gs_state (bn_node s i)"
    and c: "\<And>p m. ApiSend p m \<in> set cs \<Longrightarrow> gossip_marshal (gs_state (bn_node s i)) = Some (Payload m)" by auto
  have "\<exists>st. gossip_unmarshal bs = Some st \<and> seeded (bn_seeded s) st" if "bs \<in> {Payload m |p m. ApiSend p m \<in> set cs}" for bs
    using that seeded_received [OF _ c] assms(2) bench_tick(2,3) unfolding bench_inv_def by blast
  with s bench_tick(1) assms(2) show ?thesis by (auto simp: bench_inv_def keeps_def)
next
  case (bench_recv i m env a cs)
  with assms(2) obtain st where st: "gossip_unmarshal (Payload m) = Some st" "seeded (bn_seeded s) st"
    unfolding bench_inv_def by blast
  have i: "seeded (bn_seeded s) (gs_state (bn_node s i))" using assms(2) bench_recv(2,3) by (simp add: bench_inv_def)
  from OnMessage_state [OF bench_recv(5)] st have
    "gs_state a = gs_state (bn_node s i) \<or> gs_state a = lww_merge Version (gs_state (bn_node s i)) st" by auto
  with bench_recv(1) st(2) i assms(2) seeded_merge [OF i st(2)] seeded_merge_keeps [OF i st(2)] show ?thesis
    by (auto simp: bench_inv_def keeps_def simp del: map_of_eq_Some_iff)
qed

lemma bench_init_inv: "bench_inv n (bench_init r f d)"
  by (simp add: bench_inv_def bench_init_def seeded_def bench_node_def gossip_New_def)

lemma bench_reach_ok: "bench_reach n s s' \<Longrightarrow> bench_inv n s \<Longrightarrow> n \<le> 65535 \<Longrightarrow> bench_inv n s' \<and> keeps n s s'"
proof (induction rule: rtranclp_induct)
  case base
  then show ?case by (simp add: keeps_def)
next
  case (step u v)
  with bench_step_ok [of n u v] show ?case by (simp add: keeps_def)
qed

text \<open>A seeded store with as many entries as there are nodes holds all of them.\<close>

lemma seeded_full:
  assumes "seeded n st" and "n \<le> length st" and "1 \<le> i" and "i \<le> n" and "n \<le> 65535"
  shows "gm_lookup st (pos_key (of_nat i)) = Some \<lparr>Value = pos_value (of_nat i), Version = 1\<rparr>"
proof -
  let ?key = "\<lambda>i. pos_key (of_nat i)"
  have keys: "fst ` set st \<subseteq> ?key ` {1..n}"
  proof
    fix k assume "k \<in> fst ` set st"
    then obtain e where "gm_lookup st k = Some e" by (metis map_of_eq_None_iff option.exhaust)
    with assms(1) show "k \<in> ?key ` {1..n}" unfolding seeded_def by fastforce
  qed
  have inj: "inj_on ?key {1..n}" using assms(5) by (auto simp: inj_on_def pos_key_inj of_nat_u16_eq)
  have "card (fst ` set st) = length st"
    using assms(1) by (metis distinct_card length_map list.set_map seeded_def)
  moreover have "card (?key ` {1..n}) = n" using card_image [OF inj] by simp
  ultimately have "fst ` set st = ?key ` {1..n}" using keys assms(2) by (intro card_seteq) auto
  with assms(3,4) have "?key i \<in> fst ` set st" by auto
  then obtain e where e: "gm_lookup st (?key i) = Some e" by (metis map_of_eq_None_iff option.exhaust)
  with assms(1) obtain j where "1 \<le> j" "j \<le> n" "?key i = ?key j" "e = \<lparr>Value = pos_value (of_nat j), Version = 1\<rparr>"
    unfolding seeded_def by blast
  with e assms(4,5) of_nat_u16_eq [of i j] show ?thesis by (simp add: pos_key_inj)
qed

section \<open>Starting and stopping\<close>

text \<open>All nodes start exactly when every transport does and the interval is positive.\<close>

lemma bench_start_all_ok:
  assumes "\<forall>(i, a, n) \<in> set ns. node_inv n \<and> gs_interval a = interval" and "ns \<noteq> []"
  shows "(\<exists>ns'. bench_start_all tr_ok now ns = Inr ns') \<longleftrightarrow> 0 < interval \<and> (\<forall>x \<in> set ns. tr_ok (fst x))"
proof -
  have one: "(\<exists>n'. bench_start tr_ok now i a n = Inr n') \<longleftrightarrow> 0 < gs_interval a \<and> tr_ok i" if "node_inv n" for i a n
    using exec_call_total [OF that, of "ApiSetTimer timerGossip (gs_interval a)" now]
    by (auto simp: bench_start_def gossip_Start_def node_Start_def node_SetTimer_def tm_Set_def split: sum.splits)
  show ?thesis using assms
  proof (induction ns)
    case (Cons x ns)
    obtain i a n where x: "x = (i, a, n)" by (cases x) auto
    from Cons.prems one [of n i a] x have h: "(\<exists>n'. bench_start tr_ok now i a n = Inr n') \<longleftrightarrow> 0 < interval \<and> tr_ok i" by simp
    show ?case
    proof (cases "ns = []")
      case True
      with h x show ?thesis by (auto split: sum.splits)
    next
      case False
      with Cons have "(\<exists>ns'. bench_start_all tr_ok now ns = Inr ns') \<longleftrightarrow> 0 < interval \<and> (\<forall>x \<in> set ns. tr_ok (fst x))" by simp
      with h x show ?thesis by (auto split: sum.splits)
    qed
  qed simp
qed

text \<open>Running nodes are stopped without a panic, and all of their timers with them.\<close>

lemma bench_stop_all_ok:
  assumes "\<forall>(a, n) \<in> set ns. node_inv n \<and> \<not> nd_once n \<and> \<not> nd_stopClosed n"
  shows "\<exists>ns'. bench_stop_all now ns = Inr ns' \<and> length ns' = length ns \<and>
    (\<forall>n \<in> set ns'. nd_stopClosed n \<and> (\<forall>name. gm_lookup (tm_timers (nd_tm n)) name = None))"
proof -
  have one: "\<exists>n' cs. gossip_Stop a = Inr (a, cs) \<and> node_Stop now cs n = Inr n' \<and> nd_stopClosed n' \<and>
      (\<forall>name. gm_lookup (tm_timers (nd_tm n')) name = None)"
    if n: "node_inv n" "\<not> nd_once n" "\<not> nd_stopClosed n" for a n
  proof -
    from n(1) tm_Cancel_ok [of "nd_tm n" timerGossip] obtain tm where
      tm: "tm_Cancel timerGossip (nd_tm n) = Inr tm" "tm_inv tm" by (auto simp: node_inv_def)
    from tm_StopAll_ok [OF tm(2)] tm(1) n(2,3) show ?thesis
      by (auto simp: gossip_Stop_def node_Stop_def node_CancelTimer_def close_stop_def)
  qed
  show ?thesis using assms
  proof (induction ns)
    case (Cons x ns)
    obtain a n where x: "x = (a, n)" by fastforce
    from Cons.prems one [of n a] x obtain n' cs where "gossip_Stop a = Inr (a, cs)" "node_Stop now cs n = Inr n'" "nd_stopClosed n'"
      "\<forall>name. gm_lookup (tm_timers (nd_tm n')) name = None" by auto
    with Cons x show ?case by auto
  qed simp
qed

section \<open>Properties\<close>

lemma convergenceLoop_success:
  "convergenceLoop n t0 t es = Some (d, ls) \<Longrightarrow> 0 < d \<Longrightarrow> \<exists>N t1 t2 t3. BenchTick N t1 t2 t3 \<in> set es \<and> allConverged n N"
proof (induction es arbitrary: t ls)
  case (Cons e es)
  show ?case
  proof (cases e)
    case BenchDeadline
    with Cons.prems show ?thesis by simp
  next
    case (BenchTick N t1 t2 t3)
    show ?thesis
    proof (cases "allConverged n N")
      case True
      with BenchTick show ?thesis by (metis list.set_intros(1))
    next
      case False
      with Cons.prems(1) BenchTick obtain t' ls' where "convergenceLoop n t0 t' es = Some (d, ls')"
        by (auto simp: Let_def simp del: upt_Suc split: option.splits)
      from Cons.IH [OF this Cons.prems(2)] show ?thesis by (metis list.set_intros(2))
    qed
  qed
qed simp

text \<open>The nodes as a tick finds them, each at its own moment not after \<open>fin\<close>.\<close>

definition seen_before :: "nat \<Rightarrow> bench \<Rightarrow> bench \<Rightarrow> (nat \<Rightarrow> Gossip) \<Rightarrow> bool" where
  "seen_before n init fin N \<longleftrightarrow>
     (\<forall>i \<in> {1..n}. \<exists>s. bench_reach n init s \<and> bench_reach n s fin \<and> N i = bn_node s i)"

definition seen_after :: "nat \<Rightarrow> bench \<Rightarrow> (nat \<Rightarrow> Gossip) \<Rightarrow> bool" where
  "seen_after n fin N \<longleftrightarrow> (\<forall>i \<in> {1..n}. \<exists>s. bench_reach n fin s \<and> N i = bn_node s i)"

text \<open>Once a tick has found all entries, every later look at a node finds them.\<close>

lemma final_store:
  assumes "numNodes \<le> 65535" and "allConverged numNodes N" and "seen_before numNodes (bench_init r fanout interval) fin N"
    and "seen_after numNodes fin F" and i: "i \<in> {1..numNodes}"
  shows "seeded numNodes (gs_state (F i)) \<and>
    (\<forall>j \<in> {1..numNodes}. gm_lookup (gs_state (F i)) (pos_key (of_nat j)) = Some \<lparr>Value = pos_value (of_nat j), Version = 1\<rparr>)"
proof -
  from assms(3) i obtain s where s: "bench_reach numNodes (bench_init r fanout interval) s" "bench_reach numNodes s fin" "N i = bn_node s i"
    unfolding seen_before_def by blast
  from assms(4) i obtain u where u: "bench_reach numNodes fin u" "F i = bn_node u i" unfolding seen_after_def by blast
  have su: "bench_reach numNodes s u" using s(2) u(1) by simp
  have inv: "bench_inv numNodes s" using bench_reach_ok [OF s(1) bench_init_inv assms(1)] by simp
  with i have "seeded numNodes (gs_state (N i))" by (auto simp: bench_inv_def s(3) intro: seeded_mono)
  moreover have "numNodes \<le> length (gs_state (N i))"
    using assms(2) i by (simp add: allConverged_def list_all_iff gossip_StateSnapshot_def not_less del: upt_Suc)
  ultimately have full: "gm_lookup (gs_state (N i)) (pos_key (of_nat j)) = Some \<lparr>Value = pos_value (of_nat j), Version = 1\<rparr>"
    if "j \<in> {1..numNodes}" for j using seeded_full [of numNodes "gs_state (N i)" j] that assms(1) by simp
  from bench_reach_ok [OF su inv assms(1)] i have
    "seeded numNodes (gs_state (F i))" "keeps numNodes s u" by (auto simp: bench_inv_def u(2) intro: seeded_mono)
  with full i show ?thesis by (simp add: keeps_def s(3) u(2) del: map_of_eq_Some_iff)
qed

text \<open>
  C26. The benchmark's verdict is sound. Whatever the network loses, repeats and reorders, when the
  summary reports success, although the program only counted entries, and read the nodes one after
  the other while they went on gossiping, then at the final check every node holds the initial
  position of every node, all nodes answer every read alike, and the program exits with 0.
\<close>

theorem bench_success_sound:
  assumes "numNodes \<le> 65535" and "init = bench_init r fanout interval"
    and "convergenceLoop numNodes t0 t0' es = Some (convergedAt, ls)"
    and "\<forall>N t1 t2 t3. BenchTick N t1 t2 t3 \<in> set es \<longrightarrow> seen_before numNodes init fin N"
    and "seen_after numNodes fin F" and "br_success (bench_finish z ok numNodes convergedAt F snap)"
  shows "br_exit (bench_finish z ok numNodes convergedAt F snap) = 0 \<and>
    (\<forall>i \<in> {1..numNodes}. \<forall>j \<in> {1..numNodes}.
       gossip_Get (pos_key (of_nat j)) (F i) = Some \<lparr>Value = pos_value (of_nat j), Version = 1\<rparr>) \<and>
    (\<forall>i \<in> {1..numNodes}. \<forall>j \<in> {1..numNodes}. \<forall>k. gossip_Get k (F i) = gossip_Get k (F j))"
proof -
  have "0 < convergedAt" using assms(6) by (simp add: bench_finish_def Let_def)
  from convergenceLoop_success [OF assms(3) this] assms(4) obtain N where
    N: "allConverged numNodes N" "seen_before numNodes init fin N" by blast
  note final = final_store [OF assms(1) N(1) N(2) [unfolded assms(2)] assms(5)]
  from final have "missing numNodes (F i) = 0" if "i \<in> {1..numNodes}" for i
    using that by (auto simp: missing_def gossip_StateSnapshot_def filter_empty_conv simp del: map_of_eq_Some_iff)
  then have "br_exit (bench_finish z ok numNodes convergedAt F snap) = 0"
    by (simp add: bench_finish_def Let_def allMatch_def list_all_iff del: upt_Suc)
  moreover have "gossip_Get k (F i) = gossip_Get k (F j)" if "i \<in> {1..numNodes}" "j \<in> {1..numNodes}" for i j k
  proof (cases "k \<in> (\<lambda>i. pos_key (of_nat i)) ` {1..numNodes}")
    case False
    have "gossip_Get k (F h) = None" if "h \<in> {1..numNodes}" for h
    proof (cases "gossip_Get k (F h)")
      case (Some e)
      with final [OF that] obtain i where "1 \<le> i" "i \<le> numNodes" "k = pos_key (of_nat i)" unfolding seeded_def gossip_Get_def by blast
      with False show ?thesis by auto
    qed
    with that show ?thesis by simp
  next
    case True
    then obtain h where h: "h \<in> {1..numNodes}" "k = pos_key (of_nat h)" by blast
    with final [OF that(1)] final [OF that(2)] show ?thesis by (simp add: gossip_Get_def del: map_of_eq_Some_iff)
  qed
  moreover have "gossip_Get (pos_key (of_nat j)) (F i) = Some \<lparr>Value = pos_value (of_nat j), Version = 1\<rparr>"
    if "i \<in> {1..numNodes}" "j \<in> {1..numNodes}" for i j using final [OF that(1)] that(2) by (simp add: gossip_Get_def del: map_of_eq_Some_iff)
  ultimately show ?thesis by blast
qed

text \<open>Two nodes that hear each other once.\<close>

definition pair_node :: "nat \<Rightarrow> Gossip" where
  "pair_node i = bench_seed i (bench_node (\<lambda>_ _. 0) 3 0 i)"

lemma pair_states: "gs_state (pair_node i) = [(pos_key (of_nat i), \<lparr>Value = pos_value (of_nat i), Version = 1\<rparr>)]"
  by (simp add: pair_node_def bench_seed_def bench_node_def gossip_Set_def gossip_New_def)

definition pair_text :: "nat \<Rightarrow> bytes" where
  "pair_text i = json_marshal (JObj [(''state'', json_map json_Entry (gs_state (pair_node i)))])"

lemma pair_json: "gossip_marshal (gs_state (pair_node i)) = Some (pair_text i)"
  "1 \<le> i \<Longrightarrow> gossip_unmarshal (pair_text i) = Some (gs_state (pair_node i))"
proof -
  show m: "gossip_marshal (gs_state (pair_node i)) = Some (pair_text i)" by (simp add: gossip_marshal_def pair_text_def)
  assume "1 \<le> i"
  then have "seeded i (gs_state (pair_node i))" by (auto simp: seeded_def pair_states split: if_splits)
  from gossip_json_roundtrip [OF _ seeded_utf8 [OF this] m] show "gossip_unmarshal (pair_text i) = Some (gs_state (pair_node i))"
    by (simp add: pair_states)
qed

lemma tick_sends:
  assumes "marshal (gs_state a) = Some bs" and "env_Peers env = [p]" and "1 \<le> gs_fanout a" and "gs_seen a = []"
  shows "\<exists>a'. gossip_OnTick marshal env timerGossip a = Inr (a', [ApiSend p (gossip_msg (env_Now env) bs)]) \<and>
    gs_state a' = gs_state a \<and> gs_seen a' = []"
  using assms by (simp add: gossip_OnTick_def gossipRound_def evictSeen_def sampleN_def)

lemma recv_merges:
  assumes "unmarshal (Payload m) = Some st" and "Type m = TypeState" and "gs_seen a = []"
  shows "\<exists>a'. gossip_OnMessage unmarshal env m a = Inr (a', []) \<and> gs_state a' = lww_merge Version (gs_state a) st"
  using assms by (simp add: gossip_OnMessage_def gossip_merge_def Let_def)

abbreviation pair_env :: "u16 \<Rightarrow> api_env" where
  "pair_env p \<equiv> \<lparr>env_ID = 1, env_Peers = [p], env_Now = unix_epoch\<rparr>"

lemma pair_converges:
  "\<exists>s. bench_reach 2 (bench_init (\<lambda>_ _. 0) 3 0) s \<and> allConverged 2 (bn_node s)"
proof -
  let ?msg = "\<lambda>i. zero_Message\<lparr>Type := TypeState, Payload := pair_text i\<rparr>"
  let ?st = "\<lambda>k f net. \<lparr>bn_seeded = k, bn_node = f, bn_net = net\<rparr>"
  let ?f = "bench_node (\<lambda>_ _. 0) 3 0"
  have keys: "pos_key 1 \<noteq> pos_key 2" by (simp add: pos_key_inj)
  have node: "1 \<le> gs_fanout (pair_node i)" "gs_seen (pair_node i) = []" for i
    by (simp_all add: pair_node_def bench_seed_def bench_node_def gossip_Set_def gossip_New_def)
  obtain a1 a2 where a1: "gossip_OnTick gossip_marshal (pair_env 2) timerGossip (pair_node 1) = Inr (a1, [ApiSend 2 (gossip_msg unix_epoch (pair_text 1))])"
      "gs_state a1 = gs_state (pair_node 1)" "gs_seen a1 = []"
    and a2: "gossip_OnTick gossip_marshal (pair_env 1) timerGossip (pair_node 2) = Inr (a2, [ApiSend 1 (gossip_msg unix_epoch (pair_text 2))])"
      "gs_state a2 = gs_state (pair_node 2)" "gs_seen a2 = []"
    using tick_sends [of gossip_marshal "pair_node 1" "pair_text 1" "pair_env 2" 2]
      tick_sends [of gossip_marshal "pair_node 2" "pair_text 2" "pair_env 1" 1] node by (auto simp: pair_json(1))
  obtain b1 b2 where b1: "gossip_OnMessage gossip_unmarshal (pair_env 2) (?msg 2) a1 = Inr (b1, [])"
      "gs_state b1 = lww_merge Version (gs_state a1) (gs_state (pair_node 2))"
    and b2: "gossip_OnMessage gossip_unmarshal (pair_env 1) (?msg 1) a2 = Inr (b2, [])"
      "gs_state b2 = lww_merge Version (gs_state a2) (gs_state (pair_node 1))"
    using recv_merges [of gossip_unmarshal "?msg 2" _ a1 "pair_env 2"] recv_merges [of gossip_unmarshal "?msg 1" _ a2 "pair_env 1"]
      a1(3) a2(3) by (auto simp: pair_json(2))
  have "bench_step 2 (?st 0 ?f {}) (?st 1 (?f(1 := pair_node 1)) {})"
    using bench_set [of "?st 0 ?f {}" 2 1] by (simp add: pair_node_def)
  moreover have "bench_step 2 (?st 1 (?f(1 := pair_node 1)) {}) (?st 2 (?f(1 := pair_node 1, 2 := pair_node 2)) {})"
    using bench_set [of "?st 1 (?f(1 := pair_node 1)) {}" 2 2] by (simp add: pair_node_def)
  moreover have "bench_step 2 (?st 2 (?f(1 := pair_node 1, 2 := pair_node 2)) {}) (?st 2 (?f(1 := a1, 2 := pair_node 2)) {pair_text 1})"
    using bench_tick [of 1 2 "pair_env 2" timerGossip "?st 2 (?f(1 := pair_node 1, 2 := pair_node 2)) {}"] a1(1)
    by (simp add: gossip_msg_def fun_upd_twist)
  moreover have "bench_step 2 (?st 2 (?f(1 := a1, 2 := pair_node 2)) {pair_text 1}) (?st 2 (?f(1 := a1, 2 := a2)) {pair_text 1, pair_text 2})"
    using bench_tick [of 2 2 "pair_env 1" timerGossip "?st 2 (?f(1 := a1, 2 := pair_node 2)) {pair_text 1}"] a2(1)
    by (simp add: gossip_msg_def insert_commute)
  moreover have "bench_step 2 (?st 2 (?f(1 := a1, 2 := a2)) {pair_text 1, pair_text 2}) (?st 2 (?f(1 := b1, 2 := a2)) {pair_text 1, pair_text 2})"
    using bench_recv [of 1 2 "?msg 2" "?st 2 (?f(1 := a1, 2 := a2)) {pair_text 1, pair_text 2}" "pair_env 2" b1 "[]"] b1(1)
    by (simp add: fun_upd_twist)
  moreover have "bench_step 2 (?st 2 (?f(1 := b1, 2 := a2)) {pair_text 1, pair_text 2}) (?st 2 (?f(1 := b1, 2 := b2)) {pair_text 1, pair_text 2})"
    using bench_recv [of 2 2 "?msg 1" "?st 2 (?f(1 := b1, 2 := a2)) {pair_text 1, pair_text 2}" "pair_env 1" b2 "[]"] b2(1) by simp
  ultimately have "bench_reach 2 (bench_init (\<lambda>_ _. 0) 3 0) (?st 2 (?f(1 := b1, 2 := b2)) {pair_text 1, pair_text 2})"
    unfolding bench_init_def by (meson converse_rtranclp_into_rtranclp rtranclp.rtrancl_refl)
  moreover have "allConverged 2 (?f(1 := b1, 2 := b2))"
    using keys by (simp add: allConverged_def gossip_StateSnapshot_def b1(2) b2(2) a1(2) a2(2) pair_states lww_merge_def lww_put_def upt_rec)
  ultimately show ?thesis by fastforce
qed

theorem bench_success_sound_witness:
  "\<exists>s. bench_reach 2 (bench_init (\<lambda>_ _. 0) 3 0) s \<and> allConverged 2 (bn_node s) \<and>
     br_exit (bench_finish (\<lambda>_. 0) (\<lambda>_. True) 2 (50 * Millisecond) (bn_node s) (\<lambda>i. Snapshot 0 (NewCollector 0 (of_nat i)))) = 0"
proof -
  obtain s where s: "bench_reach 2 (bench_init (\<lambda>_ _. 0) 3 0) s" "allConverged 2 (bn_node s)" using pair_converges by blast
  let ?d = "50 * Millisecond"
  let ?es = "[BenchTick (bn_node s) ?d ?d ?d]"
  have loop: "convergenceLoop 2 0 0 ?es = Some (?d, [LogConverged ?d])"
    using s(2) by (simp add: time_Sub_def progress_due_def Let_def del: upt_Suc)
  have before: "\<forall>N t1 t2 t3. BenchTick N t1 t2 t3 \<in> set ?es \<longrightarrow> seen_before 2 (bench_init (\<lambda>_ _. 0) 3 0) s N"
    using s(1) by (auto simp: seen_before_def)
  have after: "seen_after 2 s (bn_node s)" by (auto simp: seen_after_def)
  have ok: "br_success (bench_finish (\<lambda>_. 0) (\<lambda>_. True) 2 ?d (bn_node s) (\<lambda>i. Snapshot 0 (NewCollector 0 (of_nat i))))"
    by (simp add: bench_finish_def Let_def)
  show ?thesis using bench_success_sound [OF _ refl loop before after ok] s by (intro exI [of _ s] conjI) simp_all
qed

end
