(* ===== verification/Node_Config.thy ===== *)
theory Node_Config
  imports Node_Command Net_Transport
begin

text \<open>
  \<open>node/config/config.go\<close>: the configuration records of all layers and their defaults. No package
  reads them; what connects them to the program is that the defaults are the values the packages
  use, which the lemmas below check against the models of those packages. Names that clash carry the
  prefix \<open>cfg_\<close>; Go's \<open>int\<close> is an integer.
\<close>

section \<open>Records\<close>

record NodeConfig =
  nc_NodeID :: u16
  nc_Transport :: string
  nc_ListenAddr :: string
  nc_Peers :: "(u16, string) gomap"
  nc_SendQueueSize :: int
  nc_RecvBufSize :: int
  nc_DedupWindowSize :: int

record TCPConfig =
  tc_DialTimeout :: duration
  tc_ReconnectBaseDelay :: duration
  tc_ReconnectMaxDelay :: duration
  tc_MaxConnections :: int

record UDPConfig =
  uc_ReadBufferSize :: int

record GossipConfig =
  gc_Fanout :: int
  gc_Interval :: duration
  gc_SeenCacheTTL :: duration

record cfg_RaftConfig =
  rc_ElectionTimeoutMin :: duration
  rc_ElectionTimeoutMax :: duration
  rc_HeartbeatInterval :: duration

record WeakNetConfig =
  wc_SyncInterval :: duration
  wc_Fanout :: int
  wc_CompressThreshold :: int
  wc_RetransmitTimeout :: duration

section \<open>Defaults\<close>

definition DefaultNodeConfig :: "u16 \<Rightarrow> string \<Rightarrow> NodeConfig" where
  "DefaultNodeConfig i listenAddr =
     \<lparr>nc_NodeID = i, nc_Transport = ''udp'', nc_ListenAddr = listenAddr, nc_Peers = [],
      nc_SendQueueSize = 512, nc_RecvBufSize = 256, nc_DedupWindowSize = 256\<rparr>"

definition DefaultTCPConfig :: TCPConfig where
  "DefaultTCPConfig =
     \<lparr>tc_DialTimeout = 3 * Second, tc_ReconnectBaseDelay = 100 * Millisecond,
      tc_ReconnectMaxDelay = 30 * Second, tc_MaxConnections = 64\<rparr>"

definition DefaultGossipConfig :: GossipConfig where
  "DefaultGossipConfig = \<lparr>gc_Fanout = 3, gc_Interval = 200 * Millisecond, gc_SeenCacheTTL = 5 * Second\<rparr>"

definition DefaultRaftConfig :: cfg_RaftConfig where
  "DefaultRaftConfig =
     \<lparr>rc_ElectionTimeoutMin = 150 * Millisecond, rc_ElectionTimeoutMax = 300 * Millisecond,
      rc_HeartbeatInterval = 50 * Millisecond\<rparr>"

definition DefaultWeakNetConfig :: WeakNetConfig where
  "DefaultWeakNetConfig =
     \<lparr>wc_SyncInterval = 150 * Millisecond, wc_Fanout = 3, wc_CompressThreshold = 256,
      wc_RetransmitTimeout = 200 * Millisecond\<rparr>"

section \<open>Agreement with the packages\<close>

text \<open>A node built without options has the queue sizes of the default configuration, and no peers.\<close>

lemma node_defaults_agree:
  assumes "NewNode i [] = Inr n"
  shows "opt_id (nd_cfg n) = nc_NodeID (DefaultNodeConfig i a) \<and>
    opt_sendQueueSize (nd_cfg n) = nc_SendQueueSize (DefaultNodeConfig i a) \<and>
    opt_recvBufSize (nd_cfg n) = nc_RecvBufSize (DefaultNodeConfig i a) \<and>
    (\<forall>j. node_PeerAddr j n = gm_lookup (nc_Peers (DefaultNodeConfig i a)) j) \<and>
    uint dedupWindowSize = nc_DedupWindowSize (DefaultNodeConfig i a)"
  using assms
  by (auto simp: NewNode_def NewSendQueue_def NewPeerManager_def DefaultNodeConfig_def node_PeerAddr_def pm_Get_def dedupWindowSize_def)

lemma recv_cap_default: "int (recv_cap (nc_RecvBufSize (DefaultNodeConfig i a))) = nc_RecvBufSize (DefaultNodeConfig i a)"
  by (simp add: recv_cap_def DefaultNodeConfig_def)

text \<open>A gossip instance falls back to the default fan-out and interval when it is given none.\<close>

lemma gossip_defaults_agree:
  assumes "fanout \<le> 0" and "interval \<le> 0"
  shows "gs_fanout (gossip_New r fanout interval) = gc_Fanout DefaultGossipConfig \<and>
    gs_interval (gossip_New r fanout interval) = gc_Interval DefaultGossipConfig \<and>
    gs_seenTTL (gossip_New r fanout interval) = gc_SeenCacheTTL DefaultGossipConfig"
  using assms by (simp add: gossip_New_def DefaultGossipConfig_def)

lemma raft_defaults_agree:
  "raft_DefaultConfig = \<lparr>ElectionTimeoutMin = rc_ElectionTimeoutMin DefaultRaftConfig,
     ElectionTimeoutMax = rc_ElectionTimeoutMax DefaultRaftConfig, HeartbeatInterval = rc_HeartbeatInterval DefaultRaftConfig\<rparr>"
  by (simp add: raft_DefaultConfig_def DefaultRaftConfig_def)

lemma weaknet_defaults_agree:
  "SyncInterval wn_DefaultConfig = wc_SyncInterval DefaultWeakNetConfig \<and>
   Fanout wn_DefaultConfig = wc_Fanout DefaultWeakNetConfig \<and>
   RetransmitTimeout wn_DefaultConfig = wc_RetransmitTimeout DefaultWeakNetConfig \<and>
   int CompressThreshold = wc_CompressThreshold DefaultWeakNetConfig"
  by (simp add: wn_DefaultConfig_def DefaultWeakNetConfig_def CompressThreshold_def)

text \<open>A new connection starts with, and a successful dial resets to, the base delay.\<close>

lemma tcp_defaults_agree:
  "tcp_dial True tc = Inr tc' \<Longrightarrow> backoff tc' = tc_ReconnectBaseDelay DefaultTCPConfig"
  "gm_lookup pool addr = None \<Longrightarrow> backoff (fst (getOrCreateConn pool addr)) = tc_ReconnectBaseDelay DefaultTCPConfig"
  by (auto simp: tcp_dial_def getOrCreateConn_def DefaultTCPConfig_def Let_def)

text \<open>The node command runs with the defaults, whatever algorithm is chosen.\<close>

lemma main_uses_defaults:
  assumes "main_setup now r idFlag peersFlag algoFlag = Inr (n, a)"
  shows "opt_sendQueueSize (nd_cfg n) = nc_SendQueueSize (DefaultNodeConfig i addr) \<and>
    (case a of
       RunGossip g \<Rightarrow> gs_fanout g = gc_Fanout DefaultGossipConfig \<and> gs_interval g = gc_Interval DefaultGossipConfig
     | RunRaft rf \<Rightarrow> HeartbeatInterval (cfg rf) = rc_HeartbeatInterval DefaultRaftConfig
     | RunWeaknet w \<Rightarrow> Fanout (wn_cfg w) = wc_Fanout DefaultWeakNetConfig)"
proof -
  obtain ps where n: "main_node now idFlag ps = Inr n" and a: "main_algorithm r (ucast idFlag) algoFlag = Some a"
    using assms by (auto simp: main_setup_def split: sum.splits option.splits)
  have keep: "nd_cfg (add_peers ps m) = nd_cfg m" for m
    by (induction ps arbitrary: m) (auto simp: add_peers_def AddPeer_pm)
  from n have "opt_sendQueueSize (nd_cfg n) = 512"
    by (auto simp: main_node_def NewNode_def NewSendQueue_def Let_def keep WithSendQueueSize_def WithRecvBufSize_def WithMetrics_def)
  moreover from a have "case a of
       RunGossip g \<Rightarrow> gs_fanout g = gc_Fanout DefaultGossipConfig \<and> gs_interval g = gc_Interval DefaultGossipConfig
     | RunRaft rf \<Rightarrow> HeartbeatInterval (cfg rf) = rc_HeartbeatInterval DefaultRaftConfig
     | RunWeaknet w \<Rightarrow> Fanout (wn_cfg w) = wc_Fanout DefaultWeakNetConfig"
    by (auto simp: main_algorithm_def gossip_New_def raft_New_def raft_DefaultConfig_def wn_New_def wn_Set_def wn_DefaultConfig_def
        DefaultGossipConfig_def DefaultRaftConfig_def DefaultWeakNetConfig_def split: if_splits)
  ultimately show ?thesis by (simp add: DefaultNodeConfig_def)
qed

end
