(* ===== verification/Node_Stack.thy ===== *)
theory Node_Stack
  imports Wire_Codec Node_Runtime Raft_Json Gossip_Json
begin

text \<open>
  From node to node: what a node's send loop hands to the transport for the calls of an algorithm, what
  becomes of the datagrams at a receiver that decodes them and dispatches them through its router,
  and what the receiving algorithm makes of the payloads.
\<close>

section \<open>From node to node\<close>

text \<open>The messages a router gets to see when datagrams arrive at given times: those that decode.\<close>

definition received :: "(bytes \<Rightarrow> bytes option) \<Rightarrow> (go_time \<times> bytes) list \<Rightarrow> (go_time \<times> Message) list" where
  "received zr ds = concat (map (\<lambda>(t, d). case Decode zr d of Inl _ \<Rightarrow> [] | Inr m \<Rightarrow> [(t, m)]) ds)"

lemma received_encoded:
  assumes "zlib_ok zw zr" and "\<forall>m \<in> M. length (Payload m) < 2 ^ 32" and "snd ` set ds = Encode zw ` M"
  shows "snd ` set (received zr ds) = M" and "(t, m) \<in> set (received zr ds) \<Longrightarrow> (t, Encode zw m) \<in> set ds \<and> m \<in> M"
proof -
  have dec: "Decode zr (Encode zw m) = Inr m" if "m \<in> M" for m
    using message_codec.dec_enc [OF message_codec_zlib [OF assms(1)]] assms(2) that by blast
  have elem: "(t, m) \<in> set (received zr ds) \<longleftrightarrow> m \<in> M \<and> (t, Encode zw m) \<in> set ds" for t m
  proof
    assume "(t, m) \<in> set (received zr ds)"
    then obtain d where d: "(t, d) \<in> set ds" "Decode zr d = Inr m"
      by (auto simp: received_def split: sum.splits)
    with assms(3) obtain m' where "m' \<in> M" "d = Encode zw m'" by (metis imageE image_eqI snd_conv)
    with d dec [of m'] show "m \<in> M \<and> (t, Encode zw m) \<in> set ds" by simp
  next
    assume "m \<in> M \<and> (t, Encode zw m) \<in> set ds"
    then show "(t, m) \<in> set (received zr ds)" using dec [of m] by (force simp: received_def)
  qed
  then show "(t, m) \<in> set (received zr ds) \<Longrightarrow> (t, Encode zw m) \<in> set ds \<and> m \<in> M" by blast
  show "snd ` set (received zr ds) = M"
  proof
    show "snd ` set (received zr ds) \<subseteq> M" using elem by auto
    show "M \<subseteq> snd ` set (received zr ds)"
    proof
      fix m assume m: "m \<in> M"
      then have "Encode zw m \<in> snd ` set ds" using assms(3) by blast
      then obtain t where "(t, Encode zw m) \<in> set ds" by auto
      with m elem show "m \<in> snd ` set (received zr ds)" by (metis image_eqI snd_conv)
    qed
  qed
qed

lemma outgoing_payload: "m \<in> set (outgoing now me c xs) \<Longrightarrow> \<exists>(p, m0) \<in> set xs. To m = p \<and> Payload m = Payload m0"
  by (induction now me c xs rule: outgoing.induct) auto

lemma outgoing_window:
  assumes "m \<in> set (outgoing now me (\<lambda>_. 0) xs)" and "length xs \<le> 256"
  shows "1 \<le> unat (Seq m) \<and> unat (Seq m) \<le> 256"
proof -
  from outgoing_seq [OF assms(1)] obtain j where "1 \<le> j" "j \<le> length xs" "Seq m = of_nat j" by auto
  with assms(2) unat_of_nat_u32 [of j] show ?thesis by simp
qed

text \<open>What a node with an empty queue hands to the transport after a handler's sends.\<close>

lemma sends_drained:
  assumes "node_inv n" and "sq_h (nd_sq n) = []" and "\<forall>(p, m) \<in> set xs. pm_Get p (nd_pm n) \<noteq> None"
    and "int (length xs) \<le> sq_cap (nd_sq n)"
  shows "\<exists>n1 outs n2. exec_calls now (map (\<lambda>(p, m). ApiSend p m) xs) n = Inr n1 \<and> send_drain tr_ok n1 = (outs, n2) \<and>
    mset (map snd outs) = mset (outgoing now (opt_id (nd_cfg n)) (nd_seqCounters n) xs) \<and> sq_h (nd_sq n2) = []"
proof -
  let ?ms = "outgoing now (opt_id (nd_cfg n)) (nd_seqCounters n) xs"
  from exec_sends_enqueue [OF assms(1,3)] assms(2,4) obtain n1 where
    n1: "exec_calls now (map (\<lambda>(p, m). ApiSend p m) xs) n = Inr n1" "node_inv n1" "nd_pm n1 = nd_pm n"
    "sq_bag (nd_sq n1) = sq_bag (nd_sq n) + mset (numbered (sq_counter (nd_sq n)) ?ms)" by auto
  obtain outs n2 where d: "send_drain tr_ok n1 = (outs, n2)" by fastforce
  from send_drain_routed [OF n1(2) d] obtain ms q' where
    r: "mset ms = image_mset fst (sq_bag (nd_sq n1))" "outs = routed (nd_pm n1) ms" "sq_bag q' = {#}"
    "n2 = n1\<lparr>nd_sq := q', nd_mc := map_option (fold (count_sent tr_ok) outs) (nd_mc n1)\<rparr>" by metis
  have "mset ms = mset ?ms"
    using r(1) unfolding n1(4) by (simp add: assms(2) entries_def flip: mset_map)
  moreover from this have "set ms = set ?ms" by (rule mset_eq_setD)
  then have "\<forall>m \<in> set ms. pm_Get (To m) (nd_pm n1) \<noteq> None"
    using assms(3) outgoing_seq [of _ now "opt_id (nd_cfg n)" "nd_seqCounters n" xs] n1(3) by fastforce
  then have "map snd outs = ms" by (simp add: r(2) map_snd_routed)
  moreover have "sq_h (nd_sq n2) = []" using r(3,4) by (simp add: entries_def)
  ultimately show ?thesis using n1(1) d by auto
qed

text \<open>What the receiver's router makes of the datagrams for it, in any order and multiplicity.\<close>

lemma delivered_once:
  fixes xs :: "(u16 \<times> Message) list"
  defines "mine \<equiv> \<lambda>now me p. filter (\<lambda>m. To m = p) (outgoing now me (\<lambda>_. 0) xs)"
  assumes "zlib_ok zw zr" and "length xs \<le> 256" and "\<forall>(p, m) \<in> set xs. length (Payload m) < 2 ^ 32"
    and ds: "set (map snd ds) = Encode zw ` set (mine now me p)"
    and fresh: "\<forall>(t, d) \<in> set ds. \<forall>m. Decode zr d = Inr m \<longrightarrow> \<not> IsExpired t m"
  shows "mset (fst (dispatch_all (received zr ds) (NewRouter p mc))) = mset (mine now me p)"
  unfolding dispatch_all_new
proof (rule deliverable_once)
  have pay: "\<forall>m \<in> set (mine now me p). length (Payload m) < 2 ^ 32"
    using assms(4) outgoing_payload [of _ now me "\<lambda>_. 0" xs] by (fastforce simp: mine_def)
  note rec = received_encoded [OF assms(2) pay, of ds]
  show "snd ` set (received zr ds) = set (mine now me p)" using rec(1) ds by simp
  have "\<not> IsExpired t m" if "(t, m) \<in> set (received zr ds)" for t m
  proof -
    have e: "(t, Encode zw m) \<in> set ds" "m \<in> set (mine now me p)" using rec(2) [OF _ that] ds by simp_all
    have "Decode zr (Encode zw m) = Inr m"
      using message_codec.dec_enc [OF message_codec_zlib [OF assms(2)]] pay e(2) by blast
    with fresh e(1) show ?thesis by blast
  qed
  then show "\<forall>(t, m) \<in> set (received zr ds). \<not> IsExpired t m" by blast
  have "distinct (map msg_key (outgoing now me (\<lambda>_. 0) xs))" using outgoing_keys_distinct [of xs] assms(3) by simp
  then show "distinct (map msg_key (mine now me p))" unfolding mine_def by (rule distinct_map_filter)
  show "unat (Seq m') < unat (Seq m) + 256" if "m \<in> set (mine now me p)" "m' \<in> set (mine now me p)" for m m'
    using outgoing_window [of m] outgoing_window [of m'] that assms(3) by (fastforce simp: mine_def)
qed

section \<open>Raft over the stack\<close>

lemmas raft_kinds = kindRequestVote_def kindRequestVoteReply_def kindAppendEntries_def kindAppendReply_def

text \<open>The receiver's handler sees the payload and its sender.\<close>

lemma OnMessage_handles:
  assumes "json_ok J x" and "Type m = TypeConsensus" and "Payload m = js_marshal J x"
  shows "raft_OnMessage J env m b = raft_handle env (From m) x b"
  using assms by (cases x) (simp_all add: json_ok_def raft_OnMessage_def raft_handle_def raft_kinds)

type_synonym raft_send = "u16 \<times> u16 \<times> u8 \<times> raft_payload"

abbreviation raft_sends :: "raft_send list \<Rightarrow> raft_call list" where
  "raft_sends \<equiv> map (\<lambda>(q, ttl, pri, x). RSend q ttl pri x)"

abbreviation payload_of :: "raft_send \<Rightarrow> raft_payload" where
  "payload_of s \<equiv> snd (snd (snd s))"

definition send_message :: "raft_json \<Rightarrow> go_time \<Rightarrow> raft_send \<Rightarrow> u16 \<times> Message" where
  "send_message J now s = (case s of (q, ttl, pri, x) \<Rightarrow> (q, raft_message J now ttl pri x))"

lemma render_sends: "raft_render J now (raft_sends ss) = map (\<lambda>(p, m). ApiSend p m) (map (send_message J now) ss)"
  by (induction ss) (auto simp: send_message_def)

lemma stamp_time_Type [simp]: "Type (stamp_time now m) = Type m"
  by (simp add: stamp_time_def)

lemma outgoing_raft:
  "list_all2 (\<lambda>m s. To m = fst s \<and> From m = me \<and> Type m = TypeConsensus \<and> Payload m = js_marshal J (payload_of s))
     (outgoing now me c (map (send_message J now') ss)) ss"
  by (induction ss arbitrary: c) (auto simp: send_message_def raft_message_def)

lemma list_all2_filter:
  "list_all2 R xs ys \<Longrightarrow> (\<And>x y. R x y \<Longrightarrow> P x = Q y) \<Longrightarrow> list_all2 R (filter P xs) (filter Q ys)"
  by (induction rule: list_all2_induct) auto

section \<open>Gossip over the stack\<close>

text \<open>A gossip round sends one message, with the JSON text of the state, to different known peers.\<close>

lemma gossip_tick_sends:
  assumes "gossip_OnTick gossip_marshal env timerGossip a = Inr (a', cs)" and "distinct (env_Peers env)"
  obtains bs ts where "gossip_marshal (gs_state a) = Some bs" "distinct ts" "set ts \<subseteq> set (env_Peers env)"
    "cs = map (\<lambda>p. ApiSend p (gossip_msg (env_Now env) bs)) ts"
proof -
  obtain bs where bs: "gossip_marshal (gs_state a) = Some bs" by (simp add: gossip_marshal_def)
  let ?a = "evictSeen (env_Now env) a"
  have st: "gs_state ?a = gs_state a" by (simp add: evictSeen_def)
  show thesis
  proof (cases "env_Peers env = []")
    case True
    with assms(1) bs show thesis by (intro that [of bs "[]"]) (auto simp: gossip_OnTick_def gossipRound_def)
  next
    case False
    with assms(1) bs obtain ts r where s: "sampleN (gs_rng ?a) (env_Peers env) (gs_fanout ?a) = Inr (ts, r)"
      "cs = map (\<lambda>p. ApiSend p (gossip_msg (env_Now env) bs)) ts"
      by (auto simp: gossip_OnTick_def gossipRound_def st split: sum.splits)
    moreover from s(1) have "0 \<le> gs_fanout ?a" by (auto simp: sampleN_def split: if_splits prod.splits)
    from sampleN_cases [OF this, of "gs_rng ?a" "env_Peers env"] s(1) assms(2)
    have "set ts \<subseteq> set (env_Peers env)" "distinct ts" by (metis Pair_inject sum.inject(2))+
    ultimately show thesis using that bs by blast
  qed
qed

lemma outgoing_gossip:
  "list_all2 (\<lambda>m p. To m = p \<and> From m = me \<and> Type m = TypeState \<and> Payload m = bs)
     (outgoing now me c (map (\<lambda>p. (p, gossip_msg t bs)) ts)) ts"
  by (induction ts arbitrary: c) (auto simp: gossip_msg_def)

text \<open>What a peer makes of the message, unless it has seen it before.\<close>

lemma gossip_receives:
  assumes "gm_ok st" and "state_utf8 st" and "gossip_marshal st = Some (Payload m)" and "Type m = TypeState"
    and "gm_lookup (gs_seen b) (seenKey (From m) (Seq m)) = None"
  shows "\<exists>b'. gossip_OnMessage gossip_unmarshal env m b = Inr (b', []) \<and>
    (\<forall>k. gossip_Get k b' = newer Version (gossip_Get k b) (gm_lookup st k))"
  using assms gossip_json_roundtrip [OF assms(1-3)] distinct_sort_key [OF assms(1)]
  by (simp add: gossip_OnMessage_def gossip_merge_def gossip_Get_def lookup_lww_merge map_of_sort_key Let_def)

text \<open>A node for the examples below, with an empty queue of four slots.\<close>

definition empty_queue :: SendQueue where
  "empty_queue = \<lparr>sq_h = [], sq_notifyC = False, sq_counter = 0, sq_cap = 4\<rparr>"

lemma idle_empty:
  "node_inv (idle_node empty_queue)" "sq_h (nd_sq (idle_node empty_queue)) = []"
  "nd_seqCounters (idle_node empty_queue) = (\<lambda>_. 0)" "opt_id (nd_cfg (idle_node empty_queue)) = 1"
  "sq_cap (nd_sq (idle_node empty_queue)) = 4" "pm_Get 2 (nd_pm (idle_node empty_queue)) \<noteq> None"
proof -
  have "sq_inv empty_queue" by (simp add: empty_queue_def sq_inv_def heap_inv_def index_ok_def heap_ord_def)
  then show "node_inv (idle_node empty_queue)" by (rule node_inv_idle)
qed (simp_all add: idle_node_def empty_queue_def pm_Get_def)

text \<open>Every datagram arrives twice, at a time when its message is not expired.\<close>

definition twice :: "(bytes \<Rightarrow> bytes option) \<Rightarrow> go_time \<Rightarrow> (string \<times> Message) list \<Rightarrow> (go_time \<times> bytes) list" where
  "twice zw t outs = map (\<lambda>(a, m). (t, Encode zw m)) (outs @ outs)"

lemma twice_arrives:
  assumes "\<forall>m \<in> snd ` set outs. To m = p \<and> \<not> IsExpired t m \<and> Decode zr (Encode zw m) = Inr m"
  shows "set (map snd (twice zw t outs)) = Encode zw ` {m. \<exists>a. (a, m) \<in> set outs \<and> To m = p}"
    and "\<forall>(t', d) \<in> set (twice zw t outs). \<forall>m. Decode zr d = Inr m \<longrightarrow> \<not> IsExpired t' m"
proof -
  have ds: "twice zw t outs = map (\<lambda>m. (t, Encode zw m)) (map snd outs @ map snd outs)"
    by (simp add: twice_def case_prod_beta' comp_def)
  have ms: "{m. \<exists>a. (a, m) \<in> set outs \<and> To m = p} = snd ` set outs" using assms by (auto intro: rev_image_eqI)
  show "set (map snd (twice zw t outs)) = Encode zw ` {m. \<exists>a. (a, m) \<in> set outs \<and> To m = p}"
    unfolding ms ds by (simp add: image_image image_Un)
  show "\<forall>(t', d) \<in> set (twice zw t outs). \<forall>m. Decode zr d = Inr m \<longrightarrow> \<not> IsExpired t' m"
    using assms unfolding ds by auto
qed

lemma drained_sent:
  assumes "mset (map snd outs) = mset ms"
  shows "snd ` set outs = set ms"
  using mset_eq_setD [OF assms] by simp

end
