(* ===== verification/Spec2Isabelle.thy ===== *)
theory Spec2Isabelle
  imports Transport_Contract Node_Program Metrics_Reporter Raft_Cluster Gossip_Bench Node_Config Weaknet_Json Node_Stack
begin

text \<open>
  A communication framework for swarms of unmanned aircraft, written in Go, verified layer by layer.

  \<^bold>\<open>The program.\<close> A node (\<open>node/runtime\<close>) joins a transport (\<open>node/transport\<close>) to one distributed
  algorithm (\<open>node/algorithm\<close>). Inbound: the transport reads datagrams or frames, decodes them
  (\<open>codec\<close>) and puts the messages into a bounded channel; the node's receive loop hands each to the
  router, which drops expired messages and duplicates and calls the algorithm's \<open>OnMessage\<close>.
  Outbound: the algorithm calls \<open>Send\<close> or \<open>Broadcast\<close> of its \<open>NodeAPI\<close>; the node stamps sender,
  sequence number and time and pushes the message into a bounded priority queue; the send loop pops,
  looks the peer up, and calls the transport. Named timers call \<open>OnTick\<close>. A collector counts what
  passes. Two commands set nodes up: \<open>cmd/node\<close> and \<open>cmd/gossip_bench\<close>.

  \<^bold>\<open>How code becomes definitions.\<close> A struct is a record, an integer of \<open>w\<close> bits a \<open>w word\<close>, Go's
  \<open>int\<close> an \<open>int\<close> or, for lengths, a \<open>nat\<close>, a \<open>float64\<close> a rational number that is rounded after every
  operation. A method takes the state and returns the new one; a run-time panic is \<open>Inl\<close> of a
  \<open>go_panic\<close>, an \<open>error\<close> result a value of a datatype of its own. A method that runs under a mutex is
  one step; where goroutines meet without one (channels, \<open>Start\<close>, \<open>Stop\<close>, \<open>main\<close>), the program points
  are explicit and the steps of the goroutines interleave. Text is text: JSON, CSV, decimal numbers
  and dates are written and read character by character. Clock, random numbers, sockets, files and
  zlib are arguments; of zlib it is assumed that it reads back what it wrote (\<open>zlib_ok\<close>), and each
  theorem that assumes it has an example with concrete functions.

  \<^bold>\<open>Theories and sources.\<close>
  \<^item> \<open>Uav_Prelude\<close>: words, panics, slices, maps, time and random numbers; shared lemmas.
  \<^item> The standard library, as far as the program uses it: \<open>Go_Text\<close> (\<open>strconv\<close>, splitting), \<open>Go_Float\<close>
    (rounding), \<open>Go_Format\<close> (\<open>fmt\<close>, \<open>time.Format\<close>, \<open>encoding/csv\<close>), \<open>Go_Json_String\<close>, \<open>Go_Json\<close>,
    \<open>Go_Json_Codec\<close> and \<open>Go_Json_Float\<close> (\<open>encoding/json\<close>: strings with UTF-8 and escapes, lexer and parser,
    struct, map and slice codecs, shortest decimal floats, indented text). What is written reads back.
  \<^item> \<open>Wire_Message\<close>: \<open>pkg/message/message.go\<close>. \<open>Message\<close>, its constants, \<open>IsExpired\<close>, \<open>IsBroadcast\<close>.
  \<^item> \<open>Wire_Codec\<close>: \<open>node/transport/codec/codec.go\<close>. \<open>Encode\<close> and \<open>Decode\<close> with every error; the locale
    \<open>message_codec\<close> is what the transports use of it. Round trip, and soundness of decoding on
    arbitrary input.
  \<^item> \<open>Net_Transport\<close>: \<open>node/transport/tcp/tcp.go\<close> and \<open>udp/udp.go\<close>, data path. Framing, connection pool,
    \<open>Send\<close>, the read loops and their drop-oldest channel. Frames sent are read back in order; the UDP
    channel holds the newest messages; oversized frames cost the connection.
  \<^item> \<open>Transport_Lifecycle\<close>: the same files, \<open>Start\<close>, \<open>Stop\<close> and the loops as interleaved steps. Stopping
    UDP ends in every interleaving; stopping TCP can wait for a peer or block for good, and a stopped
    TCP transport dials again. \<open>Transport_Contract\<close>: \<open>node/transport/transport.go\<close> as the locale
    \<open>transport\<close>, which both implement: after \<open>Stop\<close> nothing new is received.
  \<^item> \<open>Metrics_Collector\<close>, \<open>Metrics_Snapshot\<close>, \<open>Metrics_Json\<close>, \<open>Metrics_Reporter\<close>:
    \<open>node/metrics/collector.go\<close>, \<open>snapshot.go\<close> and \<open>reporter.go\<close>. Counters, latency ring, derived values,
    the log line, the CSV file, the JSON file and the summary table. The ring holds the newest
    latencies, the statistics are ordered, the drop rate is bounded, both files read back.
  \<^item> \<open>Heap_Order\<close>, \<open>Send_Queue\<close>: \<open>node/runtime/router.go\<close> up to \<open>SendQueue\<close>, with the loops of
    \<open>container/heap\<close>. The queue implements the locale \<open>prio_queue\<close>: draining is a stable sort.
  \<^item> \<open>Dedup_Router\<close>: the rest of \<open>router.go\<close>. Window and router both implement the locale
    \<open>dedup_filter\<close>; delivery is characterised exactly and accounted for.
  \<^item> \<open>Peer_Timer\<close>: \<open>node/runtime/peer.go\<close> and \<open>timer.go\<close>. One live goroutine per timer name.
  \<^item> \<open>Node_Api\<close>, \<open>Node_Runtime\<close>: \<open>node/algorithm/algorithm.go\<close> and \<open>node/runtime/node.go\<close>. The node with
    its calls, loops, start and stop. Calls never panic, draining ends and hands everything over, and no
    wake-up is lost between pushers and the send loop. \<open>Node_Stack\<close>: what a list of sends becomes on the
    way through queue, codec, network and router.
  \<^item> \<open>Raft_Node\<close>, \<open>Raft_Json\<close>: \<open>node/algorithm/raft/raft.go\<close>, every handler and its payloads. \<open>Raft_Local\<close>
    and \<open>Raft_Properties\<close>: one node never panics in a fixed set of peers, applies entries in order, and
    treats append requests and commits as specified. \<open>Raft_Election\<close>: the election protocol as an
    abstract system with a locale of quorums; \<open>Raft_Cluster\<close>: clusters of the code's nodes simulate it,
    hence at most one leader per term in clusters of odd size; and runs in which even clusters elect two
    leaders, or entries diverge.
  \<^item> \<open>Lww_Store\<close>, \<open>Gossip\<close>, \<open>Gossip_Json\<close>, \<open>Weaknet\<close>, \<open>Weaknet_Json\<close>: \<open>node/algorithm/gossip/gossip.go\<close> and
    \<open>weaknet/weaknet.go\<close>. Both stores implement the locale \<open>lww_store\<close>; convergence, duplicate
    suppression, fan-out, push-pull exchange and retransmission.
  \<^item> \<open>Node_Algorithm\<close>: the interface of \<open>algorithm.go\<close> as the locale \<open>algorithm\<close>, which Gossip, WeakNet,
    Raft and the choice among them implement; a node with such an algorithm never panics.
  \<^item> \<open>Node_Command\<close>, \<open>Node_Program\<close>: \<open>cmd/node/main.go\<close>, from the flags to the return of \<open>main\<close>. In every
    interleaving the program ends in order, but a timer can survive \<open>Stop\<close>.
  \<^item> \<open>Node_Config\<close>: \<open>node/config/config.go\<close>. Defaults that agree with the packages.
  \<^item> \<open>Gossip_Bench\<close>: \<open>cmd/gossip_bench/main.go\<close>. The benchmark's verdict is sound.
  \<^item> This theory composes them: from \<open>Send\<close> of one node through queue, codec, network and router to the
    algorithm of another, for any messages, for the payloads of Raft and for a round of Gossip.

  \<^bold>\<open>Bounds.\<close> The send loop is a recursion with fuel; the length of the queue is enough and is what
  \<open>send_drain\<close> gives it. Raft runs are bounded so that neither the log nor the term reaches
  \<open>2^32 - 1\<close>, where the 32-bit counters would wrap. The composition theorems take at most 256 messages,
  the size of the duplicate window, since the network may deliver them in any order. Floats stay in
  the range where rounding to 53 bits is all that happens; the search for the shortest decimal of a
  float ends at 17 digits, which always suffice. The benchmark has at most 65535 nodes, the number of ids.

  \<^bold>\<open>Not modelled.\<close> zlib streams, sockets, address resolution and the file system (arguments); the parsing
  of flags into values, and signals other than the one \<open>main\<close> waits for; log lines other than those of
  the reporter and the convergence loop; accessors that only return a field (\<open>Metrics\<close>,
  \<open>NodeID\<close>, \<open>Len\<close>, \<open>Wait\<close>), and \<open>peerKey\<close> of WeakNet, which nothing calls; the Go memory model below the
  level of mutexes, atomics and channels; real time, apart from the instants that operations read.
\<close>

section \<open>Properties\<close>

text \<open>
  C2. Exactly-once delivery from algorithm to algorithm. A node with an empty queue and fresh stream
  counters sends up to 256 messages; the send loop hands them to the transport, which encodes them.
  Whatever the network then does to the datagrams for a receiver (reordering and duplicating them
  without losing any) before they arrive unexpired, the receiver's fresh router hands to its
  algorithm exactly the messages sent to it, each once.
\<close>

theorem end_to_end_exactly_once:
  assumes "zlib_ok zw zr" and "node_inv n" and "sq_h (nd_sq n) = []" and "nd_seqCounters n = (\<lambda>_. 0)"
    and "length xs \<le> 256" and "int (length xs) \<le> sq_cap (nd_sq n)"
    and "\<forall>(p, m) \<in> set xs. pm_Get p (nd_pm n) \<noteq> None \<and> length (Payload m) < 2 ^ 32"
  shows "\<exists>n1 outs n2. exec_calls now (map (\<lambda>(p, m). ApiSend p m) xs) n = Inr n1 \<and> send_drain tr_ok n1 = (outs, n2) \<and>
    mset (map snd outs) = mset (outgoing now (opt_id (nd_cfg n)) (\<lambda>_. 0) xs) \<and>
    (\<forall>ds. set (map snd ds) = Encode zw ` {m. \<exists>a. (a, m) \<in> set outs \<and> To m = p} \<longrightarrow>
      (\<forall>(t, d) \<in> set ds. \<forall>m. Decode zr d = Inr m \<longrightarrow> \<not> IsExpired t m) \<longrightarrow>
      mset (fst (dispatch_all (received zr ds) (NewRouter p mc))) =
        mset (filter (\<lambda>m. To m = p) (outgoing now (opt_id (nd_cfg n)) (\<lambda>_. 0) xs)))"
proof -
  let ?ms = "outgoing now (opt_id (nd_cfg n)) (\<lambda>_. 0) xs"
  let ?mine = "filter (\<lambda>m. To m = p) ?ms"
  have known: "\<forall>(p, m) \<in> set xs. pm_Get p (nd_pm n) \<noteq> None" using assms(7) by blast
  from sends_drained [OF assms(2,3) known assms(6), of now tr_ok] obtain n1 outs n2 where
    run: "exec_calls now (map (\<lambda>(p, m). ApiSend p m) xs) n = Inr n1" "send_drain tr_ok n1 = (outs, n2)"
    and outs: "mset (map snd outs) = mset ?ms" unfolding assms(4) by blast
  have mine: "{m. \<exists>a. (a, m) \<in> set outs \<and> To m = p} = set ?mine"
    using mset_eq_setD [OF outs] by force
  have pay: "\<forall>(p, m) \<in> set xs. length (Payload m) < 2 ^ 32" using assms(7) by blast
  note deliver = delivered_once [OF assms(1,5) pay, where now = now and me = "opt_id (nd_cfg n)" and p = p and mc = mc]
  with run outs deliver show ?thesis
    by (intro exI [of _ n1] exI [of _ outs] exI [of _ n2] conjI allI impI) (simp_all only: mine)
qed

definition two_sends :: "(u16 \<times> Message) list" where
  "two_sends = [(2, zero_Message\<lparr>Payload := [7]\<rparr>), (2, zero_Message\<lparr>Payload := [8]\<rparr>)]"

text \<open>Two messages, of which each datagram arrives twice.\<close>

theorem end_to_end_exactly_once_witness:
  "\<exists>n1 outs n2. exec_calls unix_epoch (map (\<lambda>(p, m). ApiSend p m) two_sends) (idle_node empty_queue) = Inr n1 \<and>
     send_drain (\<lambda>_ _. True) n1 = (outs, n2) \<and>
     mset (fst (dispatch_all (received run_zr (twice run_zw unix_epoch outs)) (NewRouter 2 None))) =
       mset (outgoing unix_epoch 1 (\<lambda>_. 0) two_sends)"
proof -
  let ?ms = "outgoing unix_epoch 1 (\<lambda>_. 0) two_sends"
  note n = idle_empty(1-4)
  have xs: "length two_sends \<le> 256" "int (length two_sends) \<le> sq_cap (nd_sq (idle_node empty_queue))"
    "\<forall>(p, m) \<in> set two_sends. pm_Get p (nd_pm (idle_node empty_queue)) \<noteq> None \<and> length (Payload m) < 2 ^ 32"
    using idle_empty(5,6) by (simp_all add: two_sends_def)
  from end_to_end_exactly_once [OF zlib_ok_run n(1-3) xs, of unix_epoch "\<lambda>_ _. True" 2 None, unfolded n(4)]
  obtain n1 outs n2 where
    run: "exec_calls unix_epoch (map (\<lambda>(p, m). ApiSend p m) two_sends) (idle_node empty_queue) = Inr n1"
    "send_drain (\<lambda>_ _. True) n1 = (outs, n2)" and outs: "mset (map snd outs) = mset ?ms"
    and deliver: "\<And>ds. set (map snd ds) = Encode run_zw ` {m. \<exists>a. (a, m) \<in> set outs \<and> To m = 2} \<Longrightarrow>
      \<forall>(t, d) \<in> set ds. \<forall>m. Decode run_zr d = Inr m \<longrightarrow> \<not> IsExpired t m \<Longrightarrow>
      mset (fst (dispatch_all (received run_zr ds) (NewRouter 2 None))) = mset (filter (\<lambda>m. To m = 2) ?ms)" by blast
  have small: "To m = 2 \<and> \<not> IsExpired unix_epoch m \<and> Decode run_zr (Encode run_zw m) = Inr m" if "m \<in> set ?ms" for m
    using that small_codec.dec_enc [of m]
    by (auto simp: two_sends_def IsExpired_def CompressThreshold_def bump_seq_def stamp_time_def zero_Message_def)
  then have "\<forall>m \<in> snd ` set outs. To m = 2 \<and> \<not> IsExpired unix_epoch m \<and> Decode run_zr (Encode run_zw m) = Inr m"
    unfolding drained_sent [OF outs] by blast
  note arrive = twice_arrives [OF this]
  have "mset (fst (dispatch_all (received run_zr (twice run_zw unix_epoch outs)) (NewRouter 2 None))) = mset (filter (\<lambda>m. To m = 2) ?ms)"
    by (rule deliver [OF arrive])
  moreover have "filter (\<lambda>m. To m = 2) ?ms = ?ms" using small by (simp add: filter_id_conv)
  ultimately show ?thesis using run by auto
qed

text \<open>
  C24. A Raft node's requests and replies reach the handlers of its peers exactly once and unaltered: a
  node with an empty queue and fresh stream counters sends up to 256 payloads, which are marshalled,
  queued, drained, encoded, reordered and duplicated on the network, decoded, filtered by the
  receiver's router and unmarshalled. Handling what the router delivers is handling each payload sent
  to that receiver once, as coming from this node.
\<close>

theorem raft_payloads_delivered:
  assumes "zlib_ok zw zr" and "node_inv n" and "sq_h (nd_sq n) = []" and "nd_seqCounters n = (\<lambda>_. 0)"
    and "length ss \<le> 256" and "int (length ss) \<le> sq_cap (nd_sq n)"
    and "\<forall>(q, ttl, pri, x) \<in> set ss. pm_Get q (nd_pm n) \<noteq> None \<and> length (js_marshal raft_JSON x) < 2 ^ 32"
  shows "\<exists>n1 outs n2. exec_calls now (raft_render raft_JSON now (raft_sends ss)) n = Inr n1 \<and> send_drain tr_ok n1 = (outs, n2) \<and>
    (\<forall>ds. set (map snd ds) = Encode zw ` {m. \<exists>a. (a, m) \<in> set outs \<and> To m = p} \<longrightarrow>
      (\<forall>(t, d) \<in> set ds. \<forall>m. Decode zr d = Inr m \<longrightarrow> \<not> IsExpired t m) \<longrightarrow>
      (\<exists>xs. mset xs = mset (map payload_of (filter (\<lambda>s. fst s = p) ss)) \<and>
        list_all2 (\<lambda>m x. \<forall>env b. raft_OnMessage raft_JSON env m b = raft_handle env (opt_id (nd_cfg n)) x b)
          (fst (dispatch_all (received zr ds) (NewRouter p mc))) xs))"
proof -
  let ?me = "opt_id (nd_cfg n)" and ?xs = "map (send_message raft_JSON now) ss"
  let ?ms = "outgoing now ?me (\<lambda>_. 0) ?xs"
  let ?mine = "filter (\<lambda>m. To m = p) ?ms"
  let ?R = "\<lambda>m x. \<forall>env b. raft_OnMessage raft_JSON env m b = raft_handle env ?me x b"
  have known: "\<forall>(q, m) \<in> set ?xs. pm_Get q (nd_pm n) \<noteq> None" and pay: "\<forall>(q, m) \<in> set ?xs. length (Payload m) < 2 ^ 32"
    using assms(7) by (auto simp: send_message_def raft_message_def)
  have len: "length ?xs \<le> 256" "int (length ?xs) \<le> sq_cap (nd_sq n)" using assms(5,6) by simp_all
  from sends_drained [OF assms(2,3) known len(2), of now tr_ok] obtain n1 outs n2 where
    run: "exec_calls now (raft_render raft_JSON now (raft_sends ss)) n = Inr n1" "send_drain tr_ok n1 = (outs, n2)"
    and outs: "mset (map snd outs) = mset ?ms" unfolding assms(4) render_sends by blast
  have mine: "{m. \<exists>a. (a, m) \<in> set outs \<and> To m = p} = set ?mine" using mset_eq_setD [OF outs] by force
  have "list_all2 (\<lambda>m s. To m = fst s \<and> ?R m (payload_of s)) ?ms ss"
    using outgoing_raft [of ?me raft_JSON now "\<lambda>_. 0" now ss] OnMessage_handles [OF raft_JSON_ok] by (fastforce elim: list.rel_mono_strong)
  then have "list_all2 (\<lambda>m s. To m = fst s \<and> ?R m (payload_of s)) ?mine (filter (\<lambda>s. fst s = p) ss)"
    by (rule list_all2_filter) auto
  then have rel: "list_all2 ?R ?mine (map payload_of (filter (\<lambda>s. fst s = p) ss))"
    unfolding list_all2_map2 by (rule list_all2_mono) simp
  have "\<exists>xs. mset xs = mset (map payload_of (filter (\<lambda>s. fst s = p) ss)) \<and>
      list_all2 ?R (fst (dispatch_all (received zr ds) (NewRouter p mc))) xs"
    if "set (map snd ds) = Encode zw ` set ?mine" "\<forall>(t, d) \<in> set ds. \<forall>m. Decode zr d = Inr m \<longrightarrow> \<not> IsExpired t m" for ds
    using list_all2_reorder_left_invariance [OF rel delivered_once [OF assms(1) len(1) pay that, where mc = mc]] by blast
  with run show ?thesis
    by (intro exI [of _ n1] exI [of _ outs] exI [of _ n2] conjI allI impI) (simp_all only: mine)
qed

text \<open>A leader's heartbeat; the datagram arrives twice.\<close>

definition heartbeat :: appendEntries where
  "heartbeat = \<lparr>ae_Term = 1, ae_LeaderID = 1, ae_PrevLogIndex = 0, ae_PrevLogTerm = 0, ae_Entries = [], ae_LeaderCommit = 0\<rparr>"

definition heartbeat_send :: "raft_send list" where
  "heartbeat_send = [(2, 0, 1, PAppendEntries heartbeat)]"

lemma heartbeat_text: "length (js_marshal raft_JSON (PAppendEntries heartbeat)) < 256"
proof -
  have "length (print_json (json_appendEntries heartbeat)) < 256" by code_simp
  then show ?thesis by (simp add: raft_JSON_def json_payload_def json_marshal_def)
qed

theorem raft_payloads_delivered_witness:
  "\<exists>n1 outs n2 m. exec_calls unix_epoch (raft_render raft_JSON unix_epoch (raft_sends heartbeat_send)) (idle_node empty_queue) = Inr n1 \<and>
     send_drain (\<lambda>_ _. True) n1 = (outs, n2) \<and>
     fst (dispatch_all (received run_zr (twice run_zw unix_epoch outs)) (NewRouter 2 None)) = [m] \<and>
     (\<forall>env b. raft_OnMessage raft_JSON env m b = handleAppendEntries env 1 heartbeat b)"
proof -
  let ?J = raft_JSON and ?ss = heartbeat_send
  note n = idle_empty(1-4)
  have ss: "length ?ss \<le> 256" "int (length ?ss) \<le> sq_cap (nd_sq (idle_node empty_queue))"
    "\<forall>(q, ttl, pri, x) \<in> set ?ss. pm_Get q (nd_pm (idle_node empty_queue)) \<noteq> None \<and> length (js_marshal ?J x) < 2 ^ 32"
    using idle_empty(5,6) heartbeat_text by (simp_all add: heartbeat_send_def)
  have known: "\<forall>(q, m) \<in> set (map (send_message ?J unix_epoch) ?ss). pm_Get q (nd_pm (idle_node empty_queue)) \<noteq> None"
    and fits: "int (length (map (send_message ?J unix_epoch) ?ss)) \<le> sq_cap (nd_sq (idle_node empty_queue))"
    using ss by (auto simp: send_message_def)
  from raft_payloads_delivered [OF zlib_ok_run n(1-3) ss, of unix_epoch "\<lambda>_ _. True" 2 None, unfolded n(4)]
  obtain n1 outs n2 where
    run: "exec_calls unix_epoch (raft_render ?J unix_epoch (raft_sends ?ss)) (idle_node empty_queue) = Inr n1"
    "send_drain (\<lambda>_ _. True) n1 = (outs, n2)"
    and deliver: "\<And>ds. set (map snd ds) = Encode run_zw ` {m. \<exists>a. (a, m) \<in> set outs \<and> To m = 2} \<Longrightarrow>
      \<forall>(t, d) \<in> set ds. \<forall>m. Decode run_zr d = Inr m \<longrightarrow> \<not> IsExpired t m \<Longrightarrow>
      \<exists>xs. mset xs = mset (map payload_of (filter (\<lambda>s. fst s = 2) ?ss)) \<and>
        list_all2 (\<lambda>m x. \<forall>env b. raft_OnMessage ?J env m b = raft_handle env 1 x b)
          (fst (dispatch_all (received run_zr ds) (NewRouter 2 None))) xs" by blast
  have "mset (map snd outs) = mset (outgoing unix_epoch 1 (\<lambda>_. 0) (map (send_message ?J unix_epoch) ?ss))"
    using sends_drained [OF n(1,2) known fits, of unix_epoch "\<lambda>_ _. True", unfolded n(3,4)] run by (auto simp: render_sends)
  note sent = drained_sent [OF this]
  have "To m = 2 \<and> \<not> IsExpired unix_epoch m \<and> Decode run_zr (Encode run_zw m) = Inr m" if "m \<in> snd ` set outs" for m
    using that small_codec.dec_enc [of m] heartbeat_text unfolding sent
    by (auto simp: heartbeat_send_def send_message_def raft_message_def IsExpired_def CompressThreshold_def)
  then have "\<forall>m \<in> snd ` set outs. To m = 2 \<and> \<not> IsExpired unix_epoch m \<and> Decode run_zr (Encode run_zw m) = Inr m" by blast
  from deliver [OF twice_arrives [OF this]] obtain m where
    "fst (dispatch_all (received run_zr (twice run_zw unix_epoch outs)) (NewRouter 2 None)) = [m]"
    "\<forall>env b. raft_OnMessage ?J env m b = raft_handle env 1 (PAppendEntries heartbeat) b"
    by (auto simp: heartbeat_send_def list_all2_Cons2)
  then show ?thesis using run by (auto simp: raft_handle_def)
qed

text \<open>
  C3. A gossip round reaches every peer it chose, once: the state of a node in UTF-8 is written as JSON,
  queued, drained, encoded, reordered and duplicated on the network, decoded and filtered by the
  receiver's router. Each chosen peer is handed exactly one message, no other peer any; handling it
  leaves the peer with the newer of its own and the sender's entry for every key.
\<close>

theorem gossip_round_delivered:
  assumes "zlib_ok zw zr" and "node_inv n" and "sq_h (nd_sq n) = []" and "nd_seqCounters n = (\<lambda>_. 0)"
    and "gossip_OnTick gossip_marshal env timerGossip a = Inr (a', cs)"
    and "length cs \<le> 256" and "int (length cs) \<le> sq_cap (nd_sq n)"
    and "distinct (env_Peers env)" and "\<forall>p \<in> set (env_Peers env). pm_Get p (nd_pm n) \<noteq> None"
    and "gm_ok (gs_state a)" and "state_utf8 (gs_state a)" and "\<forall>p m. ApiSend p m \<in> set cs \<longrightarrow> length (Payload m) < 2 ^ 32"
  shows "\<exists>n1 outs n2. exec_calls now cs n = Inr n1 \<and> send_drain tr_ok n1 = (outs, n2) \<and>
    (\<forall>p ds. set (map snd ds) = Encode zw ` {m. \<exists>a. (a, m) \<in> set outs \<and> To m = p} \<longrightarrow>
      (\<forall>(t, d) \<in> set ds. \<forall>m. Decode zr d = Inr m \<longrightarrow> \<not> IsExpired t m) \<longrightarrow>
      (if \<exists>m. ApiSend p m \<in> set cs
       then \<exists>m. fst (dispatch_all (received zr ds) (NewRouter p mc)) = [m] \<and>
         (\<forall>b. gm_lookup (gs_seen b) (seenKey (From m) (Seq m)) = None \<longrightarrow>
           (\<exists>b'. gossip_OnMessage gossip_unmarshal env' m b = Inr (b', []) \<and>
             (\<forall>k. gossip_Get k b' = newer Version (gossip_Get k b) (gossip_Get k a))))
       else fst (dispatch_all (received zr ds) (NewRouter p mc)) = []))"
proof -
  obtain bs ts where bs: "gossip_marshal (gs_state a) = Some bs" and ts: "distinct ts" "set ts \<subseteq> set (env_Peers env)"
    and cs: "cs = map (\<lambda>p. ApiSend p (gossip_msg (env_Now env) bs)) ts"
    using gossip_tick_sends [OF assms(5,8)] by metis
  let ?me = "opt_id (nd_cfg n)" and ?xs = "map (\<lambda>p. (p, gossip_msg (env_Now env) bs)) ts"
  let ?ms = "outgoing now ?me (\<lambda>_. 0) ?xs"
  let ?mine = "\<lambda>p. filter (\<lambda>m. To m = p) ?ms"
  have calls: "cs = map (\<lambda>(p, m). ApiSend p m) ?xs" by (simp add: cs)
  have known: "\<forall>(q, m) \<in> set ?xs. pm_Get q (nd_pm n) \<noteq> None" using ts(2) assms(9) by auto
  have pay: "\<forall>(q, m) \<in> set ?xs. length (Payload m) < 2 ^ 32" using assms(12) by (auto simp: cs)
  have len: "length ?xs \<le> 256" "int (length ?xs) \<le> sq_cap (nd_sq n)" using assms(6,7) by (simp_all add: cs)
  from sends_drained [OF assms(2,3) known len(2), of now tr_ok] obtain n1 outs n2 where
    run: "exec_calls now cs n = Inr n1" "send_drain tr_ok n1 = (outs, n2)"
    and outs: "mset (map snd outs) = mset ?ms" unfolding assms(4) calls by blast
  have mine: "{m. \<exists>a. (a, m) \<in> set outs \<and> To m = p} = set (?mine p)" for p using mset_eq_setD [OF outs] by force
  let ?R = "\<lambda>m p. To m = p \<and> From m = ?me \<and> Type m = TypeState \<and> Payload m = bs"
  have rel: "list_all2 ?R (?mine p) (filter (\<lambda>q. q = p) ts)" for p
    by (rule list_all2_filter [OF outgoing_gossip]) auto
  have one: "if \<exists>m. ApiSend p m \<in> set cs
       then \<exists>m. fst (dispatch_all (received zr ds) (NewRouter p mc)) = [m] \<and>
         (\<forall>b. gm_lookup (gs_seen b) (seenKey (From m) (Seq m)) = None \<longrightarrow>
           (\<exists>b'. gossip_OnMessage gossip_unmarshal env' m b = Inr (b', []) \<and>
             (\<forall>k. gossip_Get k b' = newer Version (gossip_Get k b) (gossip_Get k a))))
       else fst (dispatch_all (received zr ds) (NewRouter p mc)) = []"
    if ds: "set (map snd ds) = Encode zw ` set (?mine p)" "\<forall>(t, d) \<in> set ds. \<forall>m. Decode zr d = Inr m \<longrightarrow> \<not> IsExpired t m" for p ds
  proof -
    note d = delivered_once [OF assms(1) len(1) pay ds, where mc = mc]
    have to: "(\<exists>m. ApiSend p m \<in> set cs) \<longleftrightarrow> p \<in> set ts" by (auto simp: cs)
    show ?thesis
    proof (cases "p \<in> set ts")
      case True
      with ts(1) have "filter (\<lambda>q. q = p) ts = [p]" by (induction ts) (auto simp: filter_empty_conv)
      with rel [of p] obtain m where m: "?mine p = [m]" "Type m = TypeState" "Payload m = bs" by (auto simp: list_all2_Cons2)
      with d have "fst (dispatch_all (received zr ds) (NewRouter p mc)) = [m]" by simp
      with True to m(2,3) bs gossip_receives [OF assms(10,11), of m _ env'] show ?thesis
        by (auto simp: gossip_Get_def)
    next
      case False
      then have "filter (\<lambda>q. q = p) ts = []" by (auto simp: filter_empty_conv)
      with rel [of p] d False to show ?thesis by simp
    qed
  qed
  with run show ?thesis
    by (intro exI [of _ n1] exI [of _ outs] exI [of _ n2] conjI allI impI) (simp_all only: mine)
qed

text \<open>A node with one entry tells its only peer, and the datagram arrives twice.\<close>

definition talker :: Gossip where
  "talker = gossip_Set ''x'' ''1'' (gossip_New (\<lambda>_. 0) 3 0)"

definition talker_text :: bytes where
  "talker_text = json_marshal (JObj [(''state'', json_map json_Entry (gs_state talker))])"

definition talker_env :: api_env where
  "talker_env = \<lparr>env_ID = 1, env_Peers = [2], env_Now = unix_epoch\<rparr>"

lemma talker_facts:
  "gs_state talker = [(''x'', \<lparr>Value = ''1'', Version = 1\<rparr>)]" "state_utf8 (gs_state talker)"
  "gossip_marshal (gs_state talker) = Some talker_text" "length talker_text < 256"
proof -
  show st: "gs_state talker = [(''x'', \<lparr>Value = ''1'', Version = 1\<rparr>)]" by (simp add: talker_def gossip_Set_def gossip_New_def)
  show "state_utf8 (gs_state talker)" by (simp add: st state_utf8_def valid_ascii)
  show "gossip_marshal (gs_state talker) = Some talker_text" by (simp add: gossip_marshal_def talker_text_def)
  have "length (print_json (JObj [(''state'', JObj [(''x'', JObj [(''v'', JStr ''1''), (''ver'', JNum (show_nat 1))])])])) < 256"
    by code_simp
  then show "length talker_text < 256" by (simp add: talker_text_def st json_map_def json_Entry_def json_uint_def json_marshal_def)
qed

theorem gossip_round_delivered_witness:
  "\<exists>a' cs n1 outs n2 m. gossip_OnTick gossip_marshal talker_env timerGossip talker = Inr (a', cs) \<and>
     exec_calls unix_epoch cs (idle_node empty_queue) = Inr n1 \<and> send_drain (\<lambda>_ _. True) n1 = (outs, n2) \<and>
     fst (dispatch_all (received run_zr (twice run_zw unix_epoch outs)) (NewRouter 2 None)) = [m] \<and>
     (\<exists>b'. gossip_OnMessage gossip_unmarshal talker_env m (gossip_New (\<lambda>_. 0) 3 0) = Inr (b', []) \<and>
       gossip_Get ''x'' b' = Some \<lparr>Value = ''1'', Version = 1\<rparr>)"
proof -
  note n = idle_empty
  let ?cs = "[ApiSend 2 (gossip_msg unix_epoch talker_text)]"
  obtain a' where tick: "gossip_OnTick gossip_marshal talker_env timerGossip talker = Inr (a', ?cs)"
    using tick_sends [of gossip_marshal talker talker_text talker_env 2] talker_facts(3) by (auto simp: talker_env_def talker_def gossip_Set_def gossip_New_def)
  have hyps: "length ?cs \<le> 256" "int (length ?cs) \<le> sq_cap (nd_sq (idle_node empty_queue))" "distinct (env_Peers talker_env)"
    "\<forall>p \<in> set (env_Peers talker_env). pm_Get p (nd_pm (idle_node empty_queue)) \<noteq> None" "gm_ok (gs_state talker)"
    using n(5,6) by (simp_all add: talker_env_def talker_facts(1))
  have size: "\<forall>p m. ApiSend p m \<in> set ?cs \<longrightarrow> length (Payload m) < 2 ^ 32" using talker_facts(4) by (simp add: gossip_msg_def)
  from gossip_round_delivered [OF zlib_ok_run n(1-3) tick hyps talker_facts(2) size, of unix_epoch "\<lambda>_ _. True" None talker_env]
  obtain n1 outs n2 where run: "exec_calls unix_epoch ?cs (idle_node empty_queue) = Inr n1" "send_drain (\<lambda>_ _. True) n1 = (outs, n2)"
    and deliver: "\<And>ds. set (map snd ds) = Encode run_zw ` {m. \<exists>a. (a, m) \<in> set outs \<and> To m = 2} \<Longrightarrow>
      \<forall>(t, d) \<in> set ds. \<forall>m. Decode run_zr d = Inr m \<longrightarrow> \<not> IsExpired t m \<Longrightarrow>
      \<exists>m. fst (dispatch_all (received run_zr ds) (NewRouter 2 None)) = [m] \<and>
         (\<forall>b. gm_lookup (gs_seen b) (seenKey (From m) (Seq m)) = None \<longrightarrow>
           (\<exists>b'. gossip_OnMessage gossip_unmarshal talker_env m b = Inr (b', []) \<and>
             (\<forall>k. gossip_Get k b' = newer Version (gossip_Get k b) (gossip_Get k talker))))" by fastforce
  have "mset (map snd outs) = mset (outgoing unix_epoch 1 (\<lambda>_. 0) [(2, gossip_msg unix_epoch talker_text)])"
    using sends_drained [OF n(1,2), of "[(2, gossip_msg unix_epoch talker_text)]" unix_epoch "\<lambda>_ _. True", unfolded n(3,4)] run n(5,6) by auto
  note sent = drained_sent [OF this]
  have "To m = 2 \<and> \<not> IsExpired unix_epoch m \<and> Decode run_zr (Encode run_zw m) = Inr m" if "m \<in> snd ` set outs" for m
    using that small_codec.dec_enc [of m] talker_facts(4) unfolding sent
    by (auto simp: gossip_msg_def IsExpired_def CompressThreshold_def stamp_time_def UnixMilli_def TTLState_def zero_Message_def)
  then have "\<forall>m \<in> snd ` set outs. To m = 2 \<and> \<not> IsExpired unix_epoch m \<and> Decode run_zr (Encode run_zw m) = Inr m" by blast
  from deliver [OF twice_arrives [OF this]] obtain m where
    m: "fst (dispatch_all (received run_zr (twice run_zw unix_epoch outs)) (NewRouter 2 None)) = [m]"
    "\<And>b. gs_seen b = [] \<Longrightarrow> \<exists>b'. gossip_OnMessage gossip_unmarshal talker_env m b = Inr (b', []) \<and>
       (\<forall>k. gossip_Get k b' = newer Version (gossip_Get k b) (gossip_Get k talker))" by fastforce
  have "gs_seen (gossip_New (\<lambda>_. 0) 3 0) = []" "gossip_Get ''x'' (gossip_New (\<lambda>_. 0) 3 0) = None"
    "gossip_Get ''x'' talker = Some \<lparr>Value = ''1'', Version = 1\<rparr>"
    by (simp_all add: gossip_New_def gossip_Get_def talker_facts(1))
  with m(2) have "\<exists>b'. gossip_OnMessage gossip_unmarshal talker_env m (gossip_New (\<lambda>_. 0) 3 0) = Inr (b', []) \<and>
      gossip_Get ''x'' b' = Some \<lparr>Value = ''1'', Version = 1\<rparr>" by (fastforce simp: newer_def)
  with tick run m(1) show ?thesis by blast
qed

end
